(* ===== verification/Ubpf_Prelude.thy ===== *)
theory Ubpf_Prelude
  imports "HOL-Library.Word"
begin

text \<open>
  Shared vocabulary of the development: the C integer types used by the uBPF engine, the byte
  memory the interpreter works on, little-endian loads and stores, and the generic lemmas on
  lists and words that the component theories rely on.
\<close>

unbundle bit_operations_syntax

section \<open>C types\<close>

type_synonym u8 = "8 word"
type_synonym u16 = "16 word"
type_synonym u32 = "32 word"
type_synonym u64 = "64 word"

text \<open>A flat byte-addressed memory: the address space the generated pointers live in.\<close>

type_synonym heap = "u64 \<Rightarrow> u8"

named_theorems mem_simps \<open>reading and writing little-endian values\<close>
named_theorems word_range \<open>range facts on words\<close>

section \<open>Little-endian loads and stores\<close>

text \<open>The value of the n bytes at an address, as a C load of an n-byte unsigned integer reads it on
  a little-endian host.\<close>

fun load_le :: "nat \<Rightarrow> heap \<Rightarrow> u64 \<Rightarrow> u64" where
  "load_le 0 h a = 0"
| "load_le (Suc n) h a = ucast (h a) OR push_bit 8 (load_le n h (a + 1))"

text \<open>Storing the low n bytes of a value.\<close>

fun store_le :: "nat \<Rightarrow> heap \<Rightarrow> u64 \<Rightarrow> u64 \<Rightarrow> heap" where
  "store_le 0 h a v = h"
| "store_le (Suc n) h a v = store_le n (h(a := ucast v)) (a + 1) (drop_bit 8 v)"

text \<open>The addresses an n-byte access at \<open>a\<close> touches, wrapping at the end of the address space.\<close>

definition touched :: "u64 \<Rightarrow> nat \<Rightarrow> u64 set" where
  "touched a n = (\<lambda>i. a + of_nat i) ` {..<n}"

lemma touched_0 [simp]: "touched a 0 = {}"
  by (simp add: touched_def)

lemma touched_Suc: "touched a (Suc n) = insert a (touched (a + 1) n)"
proof -
  have "touched a (Suc n) = insert a ((\<lambda>i. a + of_nat (Suc i)) ` {..<n})"
    by (simp add: touched_def lessThan_Suc_eq_insert_0 image_image)
  then show ?thesis
    by (simp add: touched_def add.assoc)
qed

lemma store_le_other [mem_simps]: "x \<notin> touched a n \<Longrightarrow> store_le n h a v x = h x"
  by (induction n h a v rule: store_le.induct) (auto simp: touched_Suc)

section \<open>Byte lists\<close>

text \<open>The low n bytes of a value, least significant first, and the value of such a byte list.\<close>

fun le_bytes :: "nat \<Rightarrow> u64 \<Rightarrow> u8 list" where
  "le_bytes 0 v = []"
| "le_bytes (Suc n) v = ucast v # le_bytes n (drop_bit 8 v)"

fun of_le_bytes :: "u8 list \<Rightarrow> u64" where
  "of_le_bytes [] = 0"
| "of_le_bytes (b # bs) = ucast b OR push_bit 8 (of_le_bytes bs)"

lemma length_le_bytes [simp]: "length (le_bytes n v) = n"
  by (induction n v rule: le_bytes.induct) auto

lemma bit_of_le_bytes:
  "bit (of_le_bytes bs) i \<longleftrightarrow> i < 64 \<and> i div 8 < length bs \<and> bit (bs ! (i div 8)) (i mod 8)"
proof (induction bs arbitrary: i)
  case Nil
  then show ?case by simp
next
  case (Cons b bs)
  show ?case
  proof (cases "i < 8")
    case True
    then show ?thesis by (auto simp: bit_or_iff bit_ucast_iff bit_push_bit_iff)
  next
    case False
    then obtain j where i: "i = j + 8" using le_add_diff_inverse2 by (metis not_le)
    have "\<not> bit b (j + 8)" using bit_imp_le_length by fastforce
    moreover have "(j + 8) div 8 = Suc (j div 8)" by simp
    ultimately show ?thesis using Cons.IH [of j]
      by (auto simp: i bit_or_iff bit_ucast_iff bit_push_bit_iff)
  qed
qed

lemma nth_le_bytes: "i < n \<Longrightarrow> le_bytes n v ! i = ucast (drop_bit (8 * i) v)"
proof (induction n v arbitrary: i rule: le_bytes.induct)
  case (1 v)
  then show ?case by simp
next
  case (2 n v)
  then show ?case by (cases i) (simp_all add: add.commute)
qed

lemma of_le_bytes_le_bytes [simp]: "of_le_bytes (le_bytes n v) = take_bit (8 * n) v"
proof (rule bit_word_eqI)
  fix i :: nat
  assume "i < LENGTH(64)"
  have "i div 8 < n \<longleftrightarrow> i < 8 * n" by (auto simp: less_mult_imp_div_less mult.commute div_less_iff_less_mult)
  moreover have "8 * (i div 8) + i mod 8 = i" by simp
  ultimately show "bit (of_le_bytes (le_bytes n v)) i = bit (take_bit (8 * n) v) i"
    using \<open>i < LENGTH(64)\<close>
    by (auto simp: bit_of_le_bytes nth_le_bytes bit_take_bit_iff bit_ucast_iff bit_drop_bit_eq)
qed

lemma le_bytes_of_le_bytes [simp]: "length bs \<le> 8 \<Longrightarrow> le_bytes (length bs) (of_le_bytes bs) = bs"
proof (rule nth_equalityI)
  fix i
  assume len: "length bs \<le> 8" and i: "i < length (le_bytes (length bs) (of_le_bytes bs))"
  show "le_bytes (length bs) (of_le_bytes bs) ! i = bs ! i"
  proof (rule bit_word_eqI)
    fix k :: nat
    assume "k < LENGTH(8)"
    then show "bit (le_bytes (length bs) (of_le_bytes bs) ! i) k = bit (bs ! i) k"
      using len i by (auto simp: nth_le_bytes bit_ucast_iff bit_drop_bit_eq bit_of_le_bytes)
  qed
qed simp

lemma load_le_bytes: "load_le n h a = of_le_bytes (map (\<lambda>i. h (a + of_nat i)) [0..<n])"
proof (induction n arbitrary: a)
  case 0
  then show ?case by simp
next
  case (Suc n)
  have "map (\<lambda>i. h (a + of_nat i)) [0..<Suc n] = h a # map (\<lambda>i. h (a + 1 + of_nat i)) [0..<n]"
    by (simp add: upt_conv_Cons map_Suc_upt [symmetric] add.assoc del: upt_Suc)
  with Suc show ?case by simp
qed

lemma not_touched_next: "n < 2 ^ 64 \<Longrightarrow> a \<notin> touched (a + 1) n"
proof
  assume n: "n < 2 ^ 64" and "a \<in> touched (a + 1) n"
  then obtain i where i: "i < n" "a = a + 1 + of_nat i"
    by (auto simp: touched_def)
  have "of_nat (Suc i) = (0 :: u64)" using i(2) by (simp add: add.assoc add.commute)
  then have "Suc i mod 2 ^ 64 = 0" by (simp add: word_of_nat_eq_0_iff dvd_eq_mod_eq_0 del: of_nat_Suc)
  moreover have "Suc i < 2 ^ 64" using i(1) n by simp
  ultimately show False by simp
qed

lemma store_le_nth:
  "i < n \<Longrightarrow> n \<le> 2 ^ 64 \<Longrightarrow> store_le n h a v (a + of_nat i) = le_bytes n v ! i"
proof (induction n h a v arbitrary: i rule: store_le.induct)
  case (1 h a v)
  then show ?case by simp
next
  case (2 n h a v)
  show ?case
  proof (cases i)
    case 0
    then show ?thesis using "2.prems" by (simp add: store_le_other not_touched_next)
  next
    case (Suc j)
    then show ?thesis using "2.IH" [of j] "2.prems" by (simp add: add.assoc fun_upd_def)
  qed
qed

text \<open>A load at the address of a store of the same width reads the stored low bytes back.\<close>

lemma load_le_store_le [mem_simps]:
  "n \<le> 8 \<Longrightarrow> load_le n (store_le n h a v) a = take_bit (8 * n) v"
proof -
  assume "n \<le> 8"
  then have "map (\<lambda>i. store_le n h a v (a + of_nat i)) [0..<n] = le_bytes n v"
    by (intro nth_equalityI) (simp_all add: store_le_nth)
  then show ?thesis by (simp add: load_le_bytes)
qed

section \<open>Search loops\<close>

text \<open>A \<^verbatim>\<open>for\<close> loop that returns at the first index that satisfies a test.\<close>

lemma find_upt_Some:
  "find P [a..<b] = Some i \<longleftrightarrow> a \<le> i \<and> i < b \<and> P i \<and> (\<forall>j. a \<le> j \<and> j < i \<longrightarrow> \<not> P j)"
proof (induction "b - a" arbitrary: a)
  case 0
  then show ?case by simp
next
  case (Suc k)
  then have upt: "[a..<b] = a # [Suc a..<b]" by (simp add: upt_conv_Cons)
  show ?case
  proof (cases "P a")
    case True
    then show ?thesis using Suc.hyps(2) by (auto simp: upt)
  next
    case False
    then show ?thesis using Suc.hyps(1) [of "Suc a"] Suc.hyps(2)
      by (auto simp: upt Suc_le_eq) (metis le_neq_implies_less)+
  qed
qed

lemma find_upt_None: "find P [a..<b] = None \<longleftrightarrow> (\<forall>i. a \<le> i \<and> i < b \<longrightarrow> \<not> P i)"
  by (auto simp: find_None_iff)

end
