(* ===== verification/Ebpf.thy ===== *)
theory Ebpf
  imports Ubpf_Prelude
begin

text \<open>
  The eBPF instruction set of \<^verbatim>\<open>p4rt-ovs/lib/bpf/ebpf.h\<close>: the instruction record, the class,
  source and operation fields of an opcode byte, and the opcodes the engine knows.  An opcode is a
  value of the datatype \<open>ebpf_op\<close>; \<open>opcode_of\<close> gives its byte by the formulas of the header and
  \<open>decode\<close> is the dispatch of a \<^verbatim>\<open>switch (inst.opcode)\<close>.
\<close>

section \<open>Instructions\<close>

record ebpf_inst =
  opcode :: u8
  dst :: "4 word"
  src :: "4 word"
  offset :: u16
  imm :: u32

abbreviation inst :: "u8 \<Rightarrow> 4 word \<Rightarrow> 4 word \<Rightarrow> u16 \<Rightarrow> u32 \<Rightarrow> ebpf_inst" where
  "inst c d s off i \<equiv> \<lparr>opcode = c, dst = d, src = s, offset = off, imm = i\<rparr>"

section \<open>Opcode fields\<close>

definition EBPF_CLASS :: "u8 \<Rightarrow> u8" where
  "EBPF_CLASS c = c AND 0x07"

definition EBPF_SRC :: "u8 \<Rightarrow> u8" where
  "EBPF_SRC c = c AND 0x08"

definition EBPF_SIZE :: "u8 \<Rightarrow> u8" where
  "EBPF_SIZE c = c AND 0x18"

definition EBPF_OP :: "u8 \<Rightarrow> u8" where
  "EBPF_OP c = c AND 0xf0"

abbreviation EBPF_CLS_LD :: u8 where "EBPF_CLS_LD \<equiv> 0x00"
abbreviation EBPF_CLS_LDX :: u8 where "EBPF_CLS_LDX \<equiv> 0x01"
abbreviation EBPF_CLS_ST :: u8 where "EBPF_CLS_ST \<equiv> 0x02"
abbreviation EBPF_CLS_STX :: u8 where "EBPF_CLS_STX \<equiv> 0x03"
abbreviation EBPF_CLS_ALU :: u8 where "EBPF_CLS_ALU \<equiv> 0x04"
abbreviation EBPF_CLS_JMP :: u8 where "EBPF_CLS_JMP \<equiv> 0x05"
abbreviation EBPF_CLS_ALU64 :: u8 where "EBPF_CLS_ALU64 \<equiv> 0x07"

abbreviation EBPF_SRC_IMM :: u8 where "EBPF_SRC_IMM \<equiv> 0x00"
abbreviation EBPF_SRC_REG :: u8 where "EBPF_SRC_REG \<equiv> 0x08"

abbreviation EBPF_MODE_IMM :: u8 where "EBPF_MODE_IMM \<equiv> 0x00"
abbreviation EBPF_MODE_ABS :: u8 where "EBPF_MODE_ABS \<equiv> 0x20"
abbreviation EBPF_MODE_IND :: u8 where "EBPF_MODE_IND \<equiv> 0x40"
abbreviation EBPF_MODE_MEM :: u8 where "EBPF_MODE_MEM \<equiv> 0x60"

abbreviation EBPF_ALU_NEG :: u8 where "EBPF_ALU_NEG \<equiv> 0x80"
abbreviation EBPF_ALU_END :: u8 where "EBPF_ALU_END \<equiv> 0xd0"

abbreviation EBPF_JMP_JA :: u8 where "EBPF_JMP_JA \<equiv> 0x00"
abbreviation EBPF_JMP_CALL :: u8 where "EBPF_JMP_CALL \<equiv> 0x80"
abbreviation EBPF_JMP_EXIT :: u8 where "EBPF_JMP_EXIT \<equiv> 0x90"

text \<open>The two-operand ALU operations, the conditional jumps and the access sizes.\<close>

datatype alu_op = ADD | SUB | MUL | DIV | OR_OP | AND_OP | LSH | RSH | MOD | XOR_OP | MOV | ARSH

datatype jmp_op = JEQ | JGT | JGE | JSET | JNE | JSGT | JSGE

datatype mem_size = SZ_B | SZ_H | SZ_W | SZ_DW

fun alu_code :: "alu_op \<Rightarrow> u8" where
  "alu_code ADD = 0x00"
| "alu_code SUB = 0x10"
| "alu_code MUL = 0x20"
| "alu_code DIV = 0x30"
| "alu_code OR_OP = 0x40"
| "alu_code AND_OP = 0x50"
| "alu_code LSH = 0x60"
| "alu_code RSH = 0x70"
| "alu_code MOD = 0x90"
| "alu_code XOR_OP = 0xa0"
| "alu_code MOV = 0xb0"
| "alu_code ARSH = 0xc0"

fun jmp_code :: "jmp_op \<Rightarrow> u8" where
  "jmp_code JEQ = 0x10"
| "jmp_code JGT = 0x20"
| "jmp_code JGE = 0x30"
| "jmp_code JSET = 0x40"
| "jmp_code JNE = 0x50"
| "jmp_code JSGT = 0x60"
| "jmp_code JSGE = 0x70"

fun size_code :: "mem_size \<Rightarrow> u8" where
  "size_code SZ_W = 0x00"
| "size_code SZ_H = 0x08"
| "size_code SZ_B = 0x10"
| "size_code SZ_DW = 0x18"

section \<open>Opcodes\<close>

datatype ebpf_op =
    OP_ALU_IMM alu_op | OP_ALU_REG alu_op | OP_NEG | OP_LE | OP_BE
  | OP_ALU64_IMM alu_op | OP_ALU64_REG alu_op | OP_NEG64
  | OP_LDABS mem_size | OP_LDIND mem_size
  | OP_LDX mem_size | OP_ST mem_size | OP_STX mem_size | OP_LDDW
  | OP_JA | OP_JMP_IMM jmp_op | OP_JMP_REG jmp_op | OP_CALL | OP_EXIT

fun opcode_of :: "ebpf_op \<Rightarrow> u8" where
  "opcode_of (OP_ALU_IMM a) = EBPF_CLS_ALU OR EBPF_SRC_IMM OR alu_code a"
| "opcode_of (OP_ALU_REG a) = EBPF_CLS_ALU OR EBPF_SRC_REG OR alu_code a"
| "opcode_of OP_NEG = EBPF_CLS_ALU OR EBPF_ALU_NEG"
| "opcode_of OP_LE = EBPF_CLS_ALU OR EBPF_SRC_IMM OR EBPF_ALU_END"
| "opcode_of OP_BE = EBPF_CLS_ALU OR EBPF_SRC_REG OR EBPF_ALU_END"
| "opcode_of (OP_ALU64_IMM a) = EBPF_CLS_ALU64 OR EBPF_SRC_IMM OR alu_code a"
| "opcode_of (OP_ALU64_REG a) = EBPF_CLS_ALU64 OR EBPF_SRC_REG OR alu_code a"
| "opcode_of OP_NEG64 = EBPF_CLS_ALU64 OR EBPF_ALU_NEG"
| "opcode_of (OP_LDABS z) = EBPF_CLS_LD OR EBPF_MODE_ABS OR size_code z"
| "opcode_of (OP_LDIND z) = EBPF_CLS_LD OR EBPF_MODE_IND OR size_code z"
| "opcode_of (OP_LDX z) = EBPF_CLS_LDX OR EBPF_MODE_MEM OR size_code z"
| "opcode_of (OP_ST z) = EBPF_CLS_ST OR EBPF_MODE_MEM OR size_code z"
| "opcode_of (OP_STX z) = EBPF_CLS_STX OR EBPF_MODE_MEM OR size_code z"
| "opcode_of OP_LDDW = EBPF_CLS_LD OR EBPF_MODE_IMM OR size_code SZ_DW"
| "opcode_of OP_JA = EBPF_CLS_JMP OR EBPF_JMP_JA"
| "opcode_of (OP_JMP_IMM j) = EBPF_CLS_JMP OR EBPF_SRC_IMM OR jmp_code j"
| "opcode_of (OP_JMP_REG j) = EBPF_CLS_JMP OR EBPF_SRC_REG OR jmp_code j"
| "opcode_of OP_CALL = EBPF_CLS_JMP OR EBPF_JMP_CALL"
| "opcode_of OP_EXIT = EBPF_CLS_JMP OR EBPF_JMP_EXIT"

definition all_alu_ops :: "alu_op list" where
  "all_alu_ops = [ADD, SUB, MUL, DIV, OR_OP, AND_OP, LSH, RSH, MOD, XOR_OP, MOV, ARSH]"

definition all_jmp_ops :: "jmp_op list" where
  "all_jmp_ops = [JEQ, JGT, JGE, JSET, JNE, JSGT, JSGE]"

definition all_sizes :: "mem_size list" where
  "all_sizes = [SZ_B, SZ_H, SZ_W, SZ_DW]"

definition all_ops :: "ebpf_op list" where
  "all_ops = map OP_ALU_IMM all_alu_ops @ map OP_ALU_REG all_alu_ops @ [OP_NEG, OP_LE, OP_BE]
     @ map OP_ALU64_IMM all_alu_ops @ map OP_ALU64_REG all_alu_ops @ [OP_NEG64]
     @ map OP_LDABS all_sizes @ map OP_LDIND all_sizes
     @ map OP_LDX all_sizes @ map OP_ST all_sizes @ map OP_STX all_sizes @ [OP_LDDW]
     @ [OP_JA] @ map OP_JMP_IMM all_jmp_ops @ map OP_JMP_REG all_jmp_ops @ [OP_CALL, OP_EXIT]"

text \<open>The dispatch of \<^verbatim>\<open>switch (inst.opcode)\<close>: the case whose label is the opcode byte, if any.\<close>

definition decode :: "u8 \<Rightarrow> ebpf_op option" where
  "decode c = map_of (map (\<lambda>x. (opcode_of x, x)) all_ops) c"

section \<open>The dispatch is exact\<close>

lemma set_all_alu_ops [simp]: "a \<in> set all_alu_ops"
  by (cases a) (simp_all add: all_alu_ops_def)

lemma set_all_jmp_ops [simp]: "j \<in> set all_jmp_ops"
  by (cases j) (simp_all add: all_jmp_ops_def)

lemma set_all_sizes [simp]: "z \<in> set all_sizes"
  by (cases z) (simp_all add: all_sizes_def)

lemma set_all_ops [simp]: "x \<in> set all_ops"
  by (cases x) (simp_all add: all_ops_def)

text \<open>No two case labels are the same byte, so the order of the cases does not matter.\<close>

lemma distinct_opcodes: "distinct (map opcode_of all_ops)"
  by (simp add: all_ops_def all_alu_ops_def all_jmp_ops_def all_sizes_def)

lemma inj_opcode_of: "inj opcode_of"
  using distinct_opcodes by (metis distinct_map set_all_ops inj_on_def inj_onI)

lemma decode_Some: "decode c = Some x \<longleftrightarrow> c = opcode_of x"
proof -
  have "distinct (map fst (map (\<lambda>x. (opcode_of x, x)) all_ops))"
    using distinct_opcodes by (simp add: comp_def)
  then have "decode c = Some x \<longleftrightarrow> (c, x) \<in> set (map (\<lambda>x. (opcode_of x, x)) all_ops)"
    unfolding decode_def by (rule map_of_eq_Some_iff)
  then show ?thesis by auto
qed

lemma decode_opcode_of [simp]: "decode (opcode_of x) = Some x"
  by (simp add: decode_Some)

lemma decode_None: "decode c = None \<longleftrightarrow> c \<notin> range opcode_of"
  using decode_Some by (metis not_None_eq rangeE rangeI)

text \<open>Opcode byte 0 is no opcode: it marks the second half of a double-word load.\<close>

lemma opcode_of_nonzero [simp]: "opcode_of x \<noteq> 0"
proof -
  have "\<forall>x \<in> set all_ops. opcode_of x \<noteq> 0"
    by (simp add: all_ops_def all_alu_ops_def all_jmp_ops_def all_sizes_def)
  then show ?thesis by simp
qed

lemma zero_neq_opcode_of [simp]: "0 \<noteq> opcode_of x"
  using opcode_of_nonzero by metis

lemma opcode_of_eq [simp]: "opcode_of x = opcode_of y \<longleftrightarrow> x = y"
  using inj_opcode_of by (simp add: inj_eq)

declare opcode_of.simps [simp del]

lemma decode_0 [simp]: "decode 0 = None"
  by (auto simp: decode_None)

section \<open>The fields of an opcode\<close>

text \<open>The class, source and operation bits the other components test on the byte are those of the
  decoded operation.\<close>

fun op_class :: "ebpf_op \<Rightarrow> u8" where
  "op_class (OP_ALU_IMM a) = EBPF_CLS_ALU"
| "op_class (OP_ALU_REG a) = EBPF_CLS_ALU"
| "op_class OP_NEG = EBPF_CLS_ALU"
| "op_class OP_LE = EBPF_CLS_ALU"
| "op_class OP_BE = EBPF_CLS_ALU"
| "op_class (OP_ALU64_IMM a) = EBPF_CLS_ALU64"
| "op_class (OP_ALU64_REG a) = EBPF_CLS_ALU64"
| "op_class OP_NEG64 = EBPF_CLS_ALU64"
| "op_class (OP_LDABS z) = EBPF_CLS_LD"
| "op_class (OP_LDIND z) = EBPF_CLS_LD"
| "op_class (OP_LDX z) = EBPF_CLS_LDX"
| "op_class (OP_ST z) = EBPF_CLS_ST"
| "op_class (OP_STX z) = EBPF_CLS_STX"
| "op_class OP_LDDW = EBPF_CLS_LD"
| "op_class OP_JA = EBPF_CLS_JMP"
| "op_class (OP_JMP_IMM j) = EBPF_CLS_JMP"
| "op_class (OP_JMP_REG j) = EBPF_CLS_JMP"
| "op_class OP_CALL = EBPF_CLS_JMP"
| "op_class OP_EXIT = EBPF_CLS_JMP"

lemma EBPF_CLASS_opcode_of [simp]: "EBPF_CLASS (opcode_of p) = op_class p"
proof -
  have "\<forall>p \<in> set all_ops. EBPF_CLASS (opcode_of p) = op_class p"
    by (simp add: all_ops_def all_alu_ops_def all_jmp_ops_def all_sizes_def opcode_of.simps
        EBPF_CLASS_def)
  then show ?thesis by simp
qed

lemma EBPF_CLASS_0 [simp]: "EBPF_CLASS 0 = EBPF_CLS_LD"
  by (simp add: EBPF_CLASS_def)

lemma EBPF_OP_jmp [simp]:
  "EBPF_OP (opcode_of OP_JA) = EBPF_JMP_JA"
  "EBPF_OP (opcode_of OP_CALL) = EBPF_JMP_CALL"
  "EBPF_OP (opcode_of OP_EXIT) = EBPF_JMP_EXIT"
  "EBPF_OP (opcode_of (OP_JMP_IMM j)) = jmp_code j"
  "EBPF_OP (opcode_of (OP_JMP_REG j)) = jmp_code j"
  by (cases j, simp_all add: EBPF_OP_def opcode_of.simps)+

lemma jmp_code_other [simp]:
  "jmp_code j \<noteq> EBPF_JMP_JA" "jmp_code j \<noteq> EBPF_JMP_CALL" "jmp_code j \<noteq> EBPF_JMP_EXIT"
  by (cases j; simp)+

lemma EBPF_OP_alu [simp]:
  "EBPF_OP (opcode_of (OP_ALU_IMM a)) = alu_code a"
  "EBPF_OP (opcode_of (OP_ALU_REG a)) = alu_code a"
  "EBPF_OP (opcode_of (OP_ALU64_IMM a)) = alu_code a"
  "EBPF_OP (opcode_of (OP_ALU64_REG a)) = alu_code a"
  "EBPF_OP (opcode_of OP_NEG) = EBPF_ALU_NEG"
  "EBPF_OP (opcode_of OP_NEG64) = EBPF_ALU_NEG"
  "EBPF_OP (opcode_of OP_LE) = EBPF_ALU_END"
  "EBPF_OP (opcode_of OP_BE) = EBPF_ALU_END"
  by (cases a, simp_all add: EBPF_OP_def opcode_of.simps)+

lemma EBPF_SRC_opcode_of [simp]:
  "EBPF_SRC (opcode_of (OP_ALU_IMM a)) = EBPF_SRC_IMM"
  "EBPF_SRC (opcode_of (OP_ALU_REG a)) = EBPF_SRC_REG"
  "EBPF_SRC (opcode_of (OP_ALU64_IMM a)) = EBPF_SRC_IMM"
  "EBPF_SRC (opcode_of (OP_ALU64_REG a)) = EBPF_SRC_REG"
  "EBPF_SRC (opcode_of (OP_JMP_IMM j)) = EBPF_SRC_IMM"
  "EBPF_SRC (opcode_of (OP_JMP_REG j)) = EBPF_SRC_REG"
  by (cases a; cases j, simp_all add: EBPF_SRC_def opcode_of.simps)+

lemma EBPF_SIZE_opcode_of [simp]:
  "EBPF_SIZE (opcode_of (OP_LDX z)) = size_code z"
  "EBPF_SIZE (opcode_of (OP_ST z)) = size_code z"
  "EBPF_SIZE (opcode_of (OP_STX z)) = size_code z"
  "EBPF_SIZE (opcode_of (OP_LDABS z)) = size_code z"
  "EBPF_SIZE (opcode_of (OP_LDIND z)) = size_code z"
  "EBPF_SIZE (opcode_of OP_LDDW) = size_code SZ_DW"
  by (cases z, simp_all add: EBPF_SIZE_def opcode_of.simps)+

end
