(* ===== verification/Ubpf_Vm.thy ===== *)
theory Ubpf_Vm
  imports Ebpf
begin

text \<open>
  The virtual machine object of \<^verbatim>\<open>ubpf_int.h\<close> and its registration interface in \<^verbatim>\<open>ubpf_vm.c\<close>:
  creating a VM, registering external functions and maps, and looking both up by name.
  Pointers to maps are 64-bit addresses with 0 as NULL; an external function takes its five
  arguments and the memory and returns its result and the memory it leaves.
\<close>

section \<open>Data\<close>

abbreviation MAX_EXT_FUNCS :: nat where "MAX_EXT_FUNCS \<equiv> 64"
abbreviation MAX_EXT_MAPS :: nat where "MAX_EXT_MAPS \<equiv> 64"
abbreviation NB_FUNC_ARGS :: nat where "NB_FUNC_ARGS \<equiv> 5"

type_synonym ext_func = "u64 \<Rightarrow> u64 \<Rightarrow> u64 \<Rightarrow> u64 \<Rightarrow> u64 \<Rightarrow> heap \<Rightarrow> u64 \<times> heap"

record ubpf_func_proto =
  func :: "ext_func option"
  arg_types :: "u32 list"
  arg_sizes :: "u32 list"
  ret :: u32

text \<open>The fields of \<^verbatim>\<open>struct ubpf_map\<close> that describe a map; its operations and its data belong to the
  theories of the map types.\<close>

record ubpf_map =
  map_type :: u32
  key_size :: u32
  value_size :: u32
  max_entries :: u32

record ubpf_vm =
  prog_id :: u16
  insts :: "ebpf_inst list option"
  num_insts :: u16
  jitted :: u64
  jitted_size :: u64
  ext_funcs :: "ubpf_func_proto list"
  ext_func_names :: "string option list"
  ext_maps :: "u64 list"
  ext_map_names :: "string option list"
  nb_maps :: u16
  loaded_at :: u64

text \<open>The all-zero prototype \<^verbatim>\<open>xcalloc\<close> leaves in the function table.\<close>

definition zero_proto :: ubpf_func_proto where
  "zero_proto = \<lparr>func = None, arg_types = replicate NB_FUNC_ARGS 0,
     arg_sizes = replicate NB_FUNC_ARGS 0, ret = 0\<rparr>"

section \<open>Operations\<close>

definition ubpf_create :: "u16 \<Rightarrow> ubpf_vm" where
  "ubpf_create pid = \<lparr>prog_id = pid, insts = None, num_insts = 0, jitted = 0, jitted_size = 0,
     ext_funcs = replicate MAX_EXT_FUNCS zero_proto,
     ext_func_names = replicate MAX_EXT_FUNCS None,
     ext_maps = replicate MAX_EXT_MAPS 0,
     ext_map_names = replicate MAX_EXT_MAPS None,
     nb_maps = 0, loaded_at = 0\<rparr>"

text \<open>The C functions return 0 or -1 and update the VM in place.\<close>

definition ubpf_register_function ::
  "ubpf_vm \<Rightarrow> u32 \<Rightarrow> string \<Rightarrow> ubpf_func_proto \<Rightarrow> int \<times> ubpf_vm" where
  "ubpf_register_function vm idx nm proto =
     (if unat idx \<ge> MAX_EXT_FUNCS then (-1, vm)
      else (0, vm\<lparr>ext_funcs := (ext_funcs vm)[unat idx := proto],
                  ext_func_names := (ext_func_names vm)[unat idx := Some nm]\<rparr>))"

definition ubpf_register_map :: "ubpf_vm \<Rightarrow> string \<Rightarrow> u64 \<Rightarrow> int \<times> ubpf_vm" where
  "ubpf_register_map vm nm m =
     (let idx = unat (nb_maps vm) in
      if idx \<ge> MAX_EXT_MAPS then (-1, vm)
      else (0, vm\<lparr>ext_maps := (ext_maps vm)[idx := m],
                  ext_map_names := (ext_map_names vm)[idx := Some nm],
                  nb_maps := nb_maps vm + 1\<rparr>))"

text \<open>The result of the search loop: the index, or -1 as an unsigned int.\<close>

definition ubpf_lookup_registered_function :: "ubpf_vm \<Rightarrow> string \<Rightarrow> u32" where
  "ubpf_lookup_registered_function vm nm =
     (case find (\<lambda>i. ext_func_names vm ! i = Some nm) [0..<MAX_EXT_FUNCS] of
        Some i \<Rightarrow> of_nat i
      | None \<Rightarrow> - 1)"

definition ubpf_lookup_registered_map :: "ubpf_vm \<Rightarrow> string \<Rightarrow> u64" where
  "ubpf_lookup_registered_map vm nm =
     (case find (\<lambda>i. ext_map_names vm ! i = Some nm) [0..<MAX_EXT_MAPS] of
        Some i \<Rightarrow> ext_maps vm ! i
      | None \<Rightarrow> 0)"

section \<open>Well-formed VMs\<close>

definition vm_wf :: "ubpf_vm \<Rightarrow> bool" where
  "vm_wf vm \<longleftrightarrow> length (ext_funcs vm) = MAX_EXT_FUNCS \<and> length (ext_func_names vm) = MAX_EXT_FUNCS
     \<and> length (ext_maps vm) = MAX_EXT_MAPS \<and> length (ext_map_names vm) = MAX_EXT_MAPS
     \<and> unat (nb_maps vm) \<le> MAX_EXT_MAPS
     \<and> (\<forall>i < MAX_EXT_MAPS. ext_map_names vm ! i = None \<longleftrightarrow> unat (nb_maps vm) \<le> i)"

lemma vm_wf_create [simp]: "vm_wf (ubpf_create pid)"
  by (simp add: vm_wf_def ubpf_create_def)

lemma vm_wf_register_function:
  "vm_wf vm \<Longrightarrow> vm_wf (snd (ubpf_register_function vm idx nm proto))"
  by (simp add: vm_wf_def ubpf_register_function_def)

lemma nb_maps_Suc:
  "unat (nb_maps vm) < MAX_EXT_MAPS \<Longrightarrow> unat (nb_maps vm + 1) = Suc (unat (nb_maps vm))"
  by (simp add: unat_word_ariths)

lemma vm_wf_register_map:
  "vm_wf vm \<Longrightarrow> vm_wf (snd (ubpf_register_map vm nm m))"
  by (auto simp: vm_wf_def ubpf_register_map_def Let_def nb_maps_Suc nth_list_update)

section \<open>The registered maps as a finite map\<close>

text \<open>The first registration of a name is the one a lookup finds.\<close>

definition map_registered :: "ubpf_vm \<Rightarrow> string \<Rightarrow> bool" where
  "map_registered vm nm \<longleftrightarrow> (\<exists>i < MAX_EXT_MAPS. ext_map_names vm ! i = Some nm)"

lemma lookup_map_unregistered:
  "\<not> map_registered vm nm \<Longrightarrow> ubpf_lookup_registered_map vm nm = 0"
  by (auto simp: ubpf_lookup_registered_map_def map_registered_def find_upt_Some split: option.splits)

lemma lookup_register_map:
  assumes wf: "vm_wf vm" and reg: "ubpf_register_map vm nm m = (0, vm')"
  shows "ubpf_lookup_registered_map vm' nm' =
    (if nm' = nm \<and> \<not> map_registered vm nm then m else ubpf_lookup_registered_map vm nm')"
proof -
  let ?n = "unat (nb_maps vm)"
  have n: "?n < MAX_EXT_MAPS"
    and maps: "ext_maps vm' = (ext_maps vm)[?n := m]"
    and names: "ext_map_names vm' = (ext_map_names vm)[?n := Some nm]"
    using reg by (auto simp: ubpf_register_map_def Let_def split: if_splits)
  have len: "length (ext_maps vm) = MAX_EXT_MAPS" "length (ext_map_names vm) = MAX_EXT_MAPS"
    and free: "\<And>i. i < MAX_EXT_MAPS \<Longrightarrow> ext_map_names vm ! i = None \<longleftrightarrow> ?n \<le> i"
    using wf by (auto simp: vm_wf_def)
  show ?thesis
  proof (cases "find (\<lambda>i. ext_map_names vm ! i = Some nm') [0..<MAX_EXT_MAPS]")
    case None
    then have none: "\<And>i. i < MAX_EXT_MAPS \<Longrightarrow> ext_map_names vm ! i \<noteq> Some nm'"
      by (simp add: find_upt_None)
    show ?thesis
    proof (cases "nm' = nm")
      case True
      have "find (\<lambda>i. ext_map_names vm' ! i = Some nm') [0..<MAX_EXT_MAPS] = Some ?n"
        using n none len True by (auto simp: find_upt_Some names nth_list_update)
      moreover have "\<not> map_registered vm nm" using none True by (auto simp: map_registered_def)
      ultimately show ?thesis using n len True
        by (simp add: ubpf_lookup_registered_map_def maps)
    next
      case False
      have "find (\<lambda>i. ext_map_names vm' ! i = Some nm') [0..<MAX_EXT_MAPS] = None"
        using n none len False by (auto simp: find_upt_None names nth_list_update split: if_splits)
      with None False show ?thesis by (simp add: ubpf_lookup_registered_map_def)
    qed
  next
    case (Some i)
    then have i: "i < MAX_EXT_MAPS" "ext_map_names vm ! i = Some nm'"
      "\<And>j. j < i \<Longrightarrow> ext_map_names vm ! j \<noteq> Some nm'"
      by (auto simp: find_upt_Some)
    have "i < ?n" using free [OF i(1)] i(2) by (metis not_le option.distinct(1))
    then have "find (\<lambda>i. ext_map_names vm' ! i = Some nm') [0..<MAX_EXT_MAPS] = Some i"
      using i n len by (auto simp: find_upt_Some names nth_list_update)
    moreover have "nm' = nm \<Longrightarrow> map_registered vm nm" using i by (auto simp: map_registered_def)
    ultimately show ?thesis using Some \<open>i < ?n\<close>
      by (auto simp: ubpf_lookup_registered_map_def maps)
  qed
qed

text \<open>A function whose name is not in the table is found at the index it was registered under, and
  the unsigned -1 the search returns otherwise is no index.\<close>

lemma lookup_register_function:
  assumes "vm_wf vm" and "ubpf_register_function vm idx nm proto = (0, vm')"
    and fresh: "\<And>i. i < MAX_EXT_FUNCS \<Longrightarrow> ext_func_names vm ! i \<noteq> Some nm"
  shows "ubpf_lookup_registered_function vm' nm = idx"
proof -
  have idx: "unat idx < MAX_EXT_FUNCS"
    and names: "ext_func_names vm' = (ext_func_names vm)[unat idx := Some nm]"
    using assms(2) by (auto simp: ubpf_register_function_def split: if_splits)
  have "find (\<lambda>i. ext_func_names vm' ! i = Some nm) [0..<MAX_EXT_FUNCS] = Some (unat idx)"
    using idx fresh assms(1) by (auto simp: find_upt_Some names vm_wf_def nth_list_update)
  then show ?thesis by (simp add: ubpf_lookup_registered_function_def)
qed

section \<open>Properties\<close>


lemma fresh_map_registered:
  "ubpf_register_map (ubpf_create 1) ''flows'' 0x1000 = (0, snd (ubpf_register_map (ubpf_create 1) ''flows'' 0x1000))"
  by (simp add: ubpf_register_map_def ubpf_create_def Let_def)


end
