(* ===== verification/Ubpf_Exec.thy ===== *)
theory Ubpf_Exec
  imports Ubpf_Vm
begin

text \<open>
  The interpreter \<^verbatim>\<open>ubpf_exec\<close> of \<^verbatim>\<open>ubpf_vm.c\<close>.  The program counter is a 16-bit word, the
  registers are the 16 words a 4-bit register field can name, and memory is byte-addressed.
  The host is the little-endian 64-bit machine the engine is built for.  What C leaves undefined
  (an instruction fetch beyond the program, a division by zero, a shift by the operand's width or
  more, a call through a missing function pointer) is the outcome \<open>Undefined\<close>; the early returns
  of the code are \<open>Return\<close>.  The address of the local stack array and the contents of the
  uninitialised registers are parameters.
\<close>

section \<open>State and outcomes\<close>

abbreviation STACK_SIZE :: nat where "STACK_SIZE \<equiv> 1024"
abbreviation UINT32_MAX :: u64 where "UINT32_MAX \<equiv> 0xffffffff"
abbreviation UINT64_MAX :: u64 where "UINT64_MAX \<equiv> - 1"

datatype fault = Fetch_Out_Of_Range | Division_By_Zero | Shift_Out_Of_Range | Bad_Call

record exec_state =
  pc :: u16
  reg :: "4 word \<Rightarrow> u64"
  memory :: heap

text \<open>The arguments of a run that do not change: the memory region and the stack array.\<close>

record exec_ctx =
  mem :: u64
  mem_len :: u64
  stack :: u64

datatype exec_out = Step exec_state | Return u64 heap | Undefined fault

definition set_reg :: "exec_state \<Rightarrow> 4 word \<Rightarrow> u64 \<Rightarrow> exec_state" where
  "set_reg st r v = st\<lparr>reg := (reg st)(r := v)\<rparr>"

section \<open>Arithmetic\<close>

definition u32 :: "u64 \<Rightarrow> u32" where
  "u32 x = ucast x"

definition mask32 :: "u64 \<Rightarrow> u64" where
  "mask32 v = v AND UINT32_MAX"

text \<open>Shifts of 64-bit and 32-bit operands; the count is an integer, and a count that is negative or
  not below the width is undefined in C.\<close>

definition shl64 :: "u64 \<Rightarrow> int \<Rightarrow> fault + u64" where
  "shl64 v n = (if 0 \<le> n \<and> n < 64 then Inr (push_bit (nat n) v) else Inl Shift_Out_Of_Range)"

definition shr64 :: "u64 \<Rightarrow> int \<Rightarrow> fault + u64" where
  "shr64 v n = (if 0 \<le> n \<and> n < 64 then Inr (drop_bit (nat n) v) else Inl Shift_Out_Of_Range)"

definition sar64 :: "u64 \<Rightarrow> int \<Rightarrow> fault + u64" where
  "sar64 v n = (if 0 \<le> n \<and> n < 64 then Inr (signed_drop_bit (nat n) v) else Inl Shift_Out_Of_Range)"

definition shr32 :: "u32 \<Rightarrow> int \<Rightarrow> fault + u64" where
  "shr32 v n = (if 0 \<le> n \<and> n < 32 then Inr (ucast (drop_bit (nat n) v)) else Inl Shift_Out_Of_Range)"

definition sar32 :: "u32 \<Rightarrow> int \<Rightarrow> fault + u64" where
  "sar32 v n =
     (if 0 \<le> n \<and> n < 32 then Inr (scast (signed_drop_bit (nat n) v)) else Inl Shift_Out_Of_Range)"

fun masked :: "fault + u64 \<Rightarrow> fault + u64" where
  "masked (Inl f) = Inl f"
| "masked (Inr v) = Inr (mask32 v)"

fun alu32_imm :: "alu_op \<Rightarrow> u64 \<Rightarrow> u32 \<Rightarrow> fault + u64" where
  "alu32_imm ADD d i = Inr (mask32 (d + scast i))"
| "alu32_imm SUB d i = Inr (mask32 (d - scast i))"
| "alu32_imm MUL d i = Inr (mask32 (d * scast i))"
| "alu32_imm DIV d i =
     (if i = 0 then Inl Division_By_Zero else Inr (mask32 (ucast (u32 d div i))))"
| "alu32_imm OR_OP d i = Inr (mask32 (d OR scast i))"
| "alu32_imm AND_OP d i = Inr (mask32 (d AND scast i))"
| "alu32_imm LSH d i = masked (shl64 d (sint i))"
| "alu32_imm RSH d i = masked (shr32 (u32 d) (sint i))"
| "alu32_imm MOD d i =
     (if i = 0 then Inl Division_By_Zero else Inr (mask32 (ucast (u32 d mod i))))"
| "alu32_imm XOR_OP d i = Inr (mask32 (d XOR scast i))"
| "alu32_imm MOV d i = Inr (mask32 (scast i))"
| "alu32_imm ARSH d i = masked (sar32 (u32 d) (sint i))"

text \<open>Register operands.  A zero 64-bit divisor makes the interpreter return early; a divisor whose
  low 32 bits are zero does not, and the division is undefined.  \<open>None\<close> is the early return.\<close>

fun alu32_reg :: "alu_op \<Rightarrow> u64 \<Rightarrow> u64 \<Rightarrow> (fault + u64) option" where
  "alu32_reg ADD d s = Some (Inr (mask32 (d + s)))"
| "alu32_reg SUB d s = Some (Inr (mask32 (d - s)))"
| "alu32_reg MUL d s = Some (Inr (mask32 (d * s)))"
| "alu32_reg DIV d s =
     (if s = 0 then None
      else Some (if u32 s = 0 then Inl Division_By_Zero else Inr (mask32 (ucast (u32 d div u32 s)))))"
| "alu32_reg OR_OP d s = Some (Inr (mask32 (d OR s)))"
| "alu32_reg AND_OP d s = Some (Inr (mask32 (d AND s)))"
| "alu32_reg LSH d s = Some (masked (shl64 d (uint s)))"
| "alu32_reg RSH d s = Some (masked (shr32 (u32 d) (uint s)))"
| "alu32_reg MOD d s =
     (if s = 0 then None
      else Some (if u32 s = 0 then Inl Division_By_Zero else Inr (ucast (u32 d mod u32 s))))"
| "alu32_reg XOR_OP d s = Some (Inr (mask32 (d XOR s)))"
| "alu32_reg MOV d s = Some (Inr (mask32 s))"
| "alu32_reg ARSH d s = Some (masked (sar32 (u32 d) (uint (u32 s))))"

fun alu64_imm :: "alu_op \<Rightarrow> u64 \<Rightarrow> u32 \<Rightarrow> fault + u64" where
  "alu64_imm ADD d i = Inr (d + scast i)"
| "alu64_imm SUB d i = Inr (d - scast i)"
| "alu64_imm MUL d i = Inr (d * scast i)"
| "alu64_imm DIV d i = (if i = 0 then Inl Division_By_Zero else Inr (d div scast i))"
| "alu64_imm OR_OP d i = Inr (d OR scast i)"
| "alu64_imm AND_OP d i = Inr (d AND scast i)"
| "alu64_imm LSH d i = shl64 d (sint i)"
| "alu64_imm RSH d i = shr64 d (sint i)"
| "alu64_imm MOD d i = (if i = 0 then Inl Division_By_Zero else Inr (d mod scast i))"
| "alu64_imm XOR_OP d i = Inr (d XOR scast i)"
| "alu64_imm MOV d i = Inr (scast i)"
| "alu64_imm ARSH d i = sar64 d (sint i)"

fun alu64_reg :: "alu_op \<Rightarrow> u64 \<Rightarrow> u64 \<Rightarrow> (fault + u64) option" where
  "alu64_reg ADD d s = Some (Inr (d + s))"
| "alu64_reg SUB d s = Some (Inr (d - s))"
| "alu64_reg MUL d s = Some (Inr (d * s))"
| "alu64_reg DIV d s = (if s = 0 then None else Some (Inr (d div s)))"
| "alu64_reg OR_OP d s = Some (Inr (d OR s))"
| "alu64_reg AND_OP d s = Some (Inr (d AND s))"
| "alu64_reg LSH d s = Some (shl64 d (uint s))"
| "alu64_reg RSH d s = Some (shr64 d (uint s))"
| "alu64_reg MOD d s = (if s = 0 then None else Some (Inr (d mod s)))"
| "alu64_reg XOR_OP d s = Some (Inr (d XOR s))"
| "alu64_reg MOV d s = Some (Inr s)"
| "alu64_reg ARSH d s = Some (sar64 d (uint s))"

text \<open>\<^verbatim>\<open>htole16/32/64\<close> truncate on a little-endian host, \<^verbatim>\<open>htobe16/32/64\<close> reverse the bytes.\<close>

definition htole :: "nat \<Rightarrow> u64 \<Rightarrow> u64" where
  "htole n v = of_le_bytes (le_bytes n v)"

definition htobe :: "nat \<Rightarrow> u64 \<Rightarrow> u64" where
  "htobe n v = of_le_bytes (rev (le_bytes n v))"

definition endian :: "(nat \<Rightarrow> u64 \<Rightarrow> u64) \<Rightarrow> u64 \<Rightarrow> u32 \<Rightarrow> u64" where
  "endian conv d i = (if i = 16 then conv 2 d else if i = 32 then conv 4 d
     else if i = 64 then conv 8 d else d)"

section \<open>Conditions of the jumps\<close>

fun jmp_imm_cond :: "jmp_op \<Rightarrow> u64 \<Rightarrow> u32 \<Rightarrow> bool" where
  "jmp_imm_cond JEQ d i \<longleftrightarrow> d = scast i"
| "jmp_imm_cond JGT d i \<longleftrightarrow> d > ucast i"
| "jmp_imm_cond JGE d i \<longleftrightarrow> d \<ge> ucast i"
| "jmp_imm_cond JSET d i \<longleftrightarrow> d AND scast i \<noteq> 0"
| "jmp_imm_cond JNE d i \<longleftrightarrow> d \<noteq> scast i"
| "jmp_imm_cond JSGT d i \<longleftrightarrow> sint d > sint i"
| "jmp_imm_cond JSGE d i \<longleftrightarrow> sint d \<ge> sint i"

fun jmp_reg_cond :: "jmp_op \<Rightarrow> u64 \<Rightarrow> u64 \<Rightarrow> bool" where
  "jmp_reg_cond JEQ d s \<longleftrightarrow> d = s"
| "jmp_reg_cond JGT d s \<longleftrightarrow> d > s"
| "jmp_reg_cond JGE d s \<longleftrightarrow> d \<ge> s"
| "jmp_reg_cond JSET d s \<longleftrightarrow> d AND s \<noteq> 0"
| "jmp_reg_cond JNE d s \<longleftrightarrow> d \<noteq> s"
| "jmp_reg_cond JSGT d s \<longleftrightarrow> sint d > sint s"
| "jmp_reg_cond JSGE d s \<longleftrightarrow> sint d \<ge> sint s"

section \<open>Memory accesses\<close>

fun size_of :: "mem_size \<Rightarrow> nat" where
  "size_of SZ_B = 1"
| "size_of SZ_H = 2"
| "size_of SZ_W = 4"
| "size_of SZ_DW = 8"

text \<open>All sums are 64-bit and wrap, as in the code.\<close>

definition bounds_check :: "u64 \<Rightarrow> nat \<Rightarrow> exec_ctx \<Rightarrow> bool" where
  "bounds_check addr sz c \<longleftrightarrow>
     (mem c \<noteq> 0 \<and> addr \<ge> mem c \<and> addr + of_nat sz \<le> mem c + mem_len c)
     \<or> (addr \<ge> stack c \<and> addr + of_nat sz \<le> stack c + of_nat STACK_SIZE)"

section \<open>One instruction\<close>

fun write_back :: "exec_state \<Rightarrow> 4 word \<Rightarrow> fault + u64 \<Rightarrow> exec_out" where
  "write_back st r (Inl f) = Undefined f"
| "write_back st r (Inr v) = Step (set_reg st r v)"

fun write_back_opt :: "exec_state \<Rightarrow> 4 word \<Rightarrow> (fault + u64) option \<Rightarrow> exec_out" where
  "write_back_opt st r None = Return UINT64_MAX (memory st)"
| "write_back_opt st r (Some x) = write_back st r x"

definition jump :: "exec_state \<Rightarrow> u16 \<Rightarrow> bool \<Rightarrow> exec_out" where
  "jump st off b = Step (if b then st\<lparr>pc := pc st + off\<rparr> else st)"

definition load :: "exec_ctx \<Rightarrow> exec_state \<Rightarrow> ebpf_inst \<Rightarrow> nat \<Rightarrow> exec_out" where
  "load c st i n =
     (let addr = reg st (src i) + scast (offset i) in
      if bounds_check addr n c then Step (set_reg st (dst i) (load_le n (memory st) addr))
      else Return UINT64_MAX (memory st))"

definition store :: "exec_ctx \<Rightarrow> exec_state \<Rightarrow> ebpf_inst \<Rightarrow> nat \<Rightarrow> u64 \<Rightarrow> exec_out" where
  "store c st i n v =
     (let addr = reg st (dst i) + scast (offset i) in
      if bounds_check addr n c then Step (st\<lparr>memory := store_le n (memory st) addr v\<rparr>)
      else Return UINT64_MAX (memory st))"

definition lddw :: "ebpf_inst list \<Rightarrow> exec_state \<Rightarrow> ebpf_inst \<Rightarrow> exec_out" where
  "lddw is st i =
     (if unat (pc st) < length is
      then Step (set_reg (st\<lparr>pc := pc st + 1\<rparr>) (dst i)
             (ucast (imm i) OR push_bit 32 (scast (imm (is ! unat (pc st))))))
      else Undefined Fetch_Out_Of_Range)"

definition call :: "ubpf_vm \<Rightarrow> exec_state \<Rightarrow> ebpf_inst \<Rightarrow> exec_out" where
  "call vm st i =
     (if 0 \<le> sint (imm i) \<and> nat (sint (imm i)) < length (ext_funcs vm)
      then (case func (ext_funcs vm ! nat (sint (imm i))) of
              None \<Rightarrow> Undefined Bad_Call
            | Some f \<Rightarrow> (case f (reg st 1) (reg st 2) (reg st 3) (reg st 4) (reg st 5) (memory st) of
                (r, h) \<Rightarrow> Step (set_reg (st\<lparr>memory := h\<rparr>) 0 r)))
      else Undefined Bad_Call)"

text \<open>One pass of the \<^verbatim>\<open>switch\<close>, with the program counter already advanced.  The switch has no default
  case and no case for the absolute and indirect packet loads: those instructions do nothing.\<close>

fun exec_op :: "ubpf_vm \<Rightarrow> exec_ctx \<Rightarrow> ebpf_inst list \<Rightarrow> exec_state \<Rightarrow> ebpf_inst \<Rightarrow> ebpf_op \<Rightarrow> exec_out"
where
  "exec_op vm c is st i (OP_ALU_IMM a) = write_back st (dst i) (alu32_imm a (reg st (dst i)) (imm i))"
| "exec_op vm c is st i (OP_ALU_REG a) =
     write_back_opt st (dst i) (alu32_reg a (reg st (dst i)) (reg st (src i)))"
| "exec_op vm c is st i OP_NEG = Step (set_reg st (dst i) (mask32 (- reg st (dst i))))"
| "exec_op vm c is st i OP_LE = Step (set_reg st (dst i) (endian htole (reg st (dst i)) (imm i)))"
| "exec_op vm c is st i OP_BE = Step (set_reg st (dst i) (endian htobe (reg st (dst i)) (imm i)))"
| "exec_op vm c is st i (OP_ALU64_IMM a) = write_back st (dst i) (alu64_imm a (reg st (dst i)) (imm i))"
| "exec_op vm c is st i (OP_ALU64_REG a) =
     write_back_opt st (dst i) (alu64_reg a (reg st (dst i)) (reg st (src i)))"
| "exec_op vm c is st i OP_NEG64 = Step (set_reg st (dst i) (- reg st (dst i)))"
| "exec_op vm c is st i (OP_LDABS z) = Step st"
| "exec_op vm c is st i (OP_LDIND z) = Step st"
| "exec_op vm c is st i (OP_LDX z) = load c st i (size_of z)"
| "exec_op vm c is st i (OP_ST z) = store c st i (size_of z) (scast (imm i))"
| "exec_op vm c is st i (OP_STX z) = store c st i (size_of z) (reg st (src i))"
| "exec_op vm c is st i OP_LDDW = lddw is st i"
| "exec_op vm c is st i OP_JA = jump st (offset i) True"
| "exec_op vm c is st i (OP_JMP_IMM j) = jump st (offset i) (jmp_imm_cond j (reg st (dst i)) (imm i))"
| "exec_op vm c is st i (OP_JMP_REG j) =
     jump st (offset i) (jmp_reg_cond j (reg st (dst i)) (reg st (src i)))"
| "exec_op vm c is st i OP_CALL = call vm st i"
| "exec_op vm c is st i OP_EXIT = Return (reg st 0) (memory st)"

definition exec_step :: "ubpf_vm \<Rightarrow> exec_ctx \<Rightarrow> ebpf_inst list \<Rightarrow> exec_state \<Rightarrow> exec_out" where
  "exec_step vm c is st =
     (if unat (pc st) < length is
      then (let i = is ! unat (pc st); st' = st\<lparr>pc := pc st + 1\<rparr> in
            case decode (opcode i) of
              None \<Rightarrow> Step st'
            | Some x \<Rightarrow> exec_op vm c is st' i x)
      else Undefined Fetch_Out_Of_Range)"

section \<open>The loop\<close>

partial_function (option) exec_loop ::
  "ubpf_vm \<Rightarrow> exec_ctx \<Rightarrow> ebpf_inst list \<Rightarrow> exec_state \<Rightarrow> (fault + u64 \<times> heap) option" where
  "exec_loop vm c is st =
     (case exec_step vm c is st of
        Undefined f \<Rightarrow> Some (Inl f)
      | Return v h \<Rightarrow> Some (Inr (v, h))
      | Step st' \<Rightarrow> exec_loop vm c is st')"

declare exec_loop.simps [code]

definition init_state :: "exec_ctx \<Rightarrow> (4 word \<Rightarrow> u64) \<Rightarrow> heap \<Rightarrow> exec_state" where
  "init_state c junk h = \<lparr>pc = 0, reg = junk(1 := mem c, 10 := stack c + of_nat STACK_SIZE), memory = h\<rparr>"

text \<open>\<^verbatim>\<open>ubpf_exec(vm, mem, mem_len)\<close> on the memory \<open>h\<close>; \<open>None\<close> is a run that does not return.\<close>

definition ubpf_exec ::
  "ubpf_vm \<Rightarrow> exec_ctx \<Rightarrow> (4 word \<Rightarrow> u64) \<Rightarrow> heap \<Rightarrow> (fault + u64 \<times> heap) option" where
  "ubpf_exec vm c junk h =
     (case insts vm of
        None \<Rightarrow> Some (Inr (UINT64_MAX, h))
      | Some is \<Rightarrow> exec_loop vm c is (init_state c junk h))"

end
