(* ===== verification/Ubpf_Validate.thy ===== *)
theory Ubpf_Validate
  imports Ubpf_Exec
begin

text \<open>
  The first stage of the verifier, \<^verbatim>\<open>validate_instructions\<close> in \<^verbatim>\<open>ubpf_vm.c\<close>: every instruction on
  its own.  The error messages of the verifier are the constructors of \<open>verror\<close>, with the numbers
  they print.
\<close>

section \<open>Errors\<close>

datatype verror =
    Too_many_instructions
  | Invalid_shift nat
  | Invalid_endian_immediate nat
  | Incomplete_lddw nat
  | Jump_out_of_bounds nat
  | Jump_to_middle_of_lddw nat
  | Invalid_call_immediate nat
  | Call_to_nonexistent_function u32 nat
  | Division_by_zero nat
  | Unknown_opcode u8 nat
  | Invalid_source_register nat
  | Invalid_destination_register nat
  | Back_edge nat nat

section \<open>Checking one instruction\<close>

definition check_jump :: "ebpf_inst list \<Rightarrow> nat \<Rightarrow> ebpf_inst \<Rightarrow> verror option" where
  "check_jump is i x =
     (let new_pc = int i + 1 + sint (offset x) in
      if new_pc < 0 \<or> new_pc \<ge> int (length is) then Some (Jump_out_of_bounds i)
      else if opcode (is ! nat new_pc) = 0 then Some (Jump_to_middle_of_lddw i)
      else None)"

definition check_div_imm :: "nat \<Rightarrow> ebpf_inst \<Rightarrow> verror option" where
  "check_div_imm i x = (if imm x = 0 then Some (Division_by_zero i) else None)"

definition check_shift :: "int \<Rightarrow> nat \<Rightarrow> ebpf_inst \<Rightarrow> verror option" where
  "check_shift w i x = (if sint (imm x) < 0 \<or> sint (imm x) \<ge> w then Some (Invalid_shift i) else None)"

definition check_endian :: "nat \<Rightarrow> ebpf_inst \<Rightarrow> verror option" where
  "check_endian i x =
     (if imm x \<noteq> 16 \<and> imm x \<noteq> 32 \<and> imm x \<noteq> 64 then Some (Invalid_endian_immediate i) else None)"

definition check_call :: "ubpf_vm \<Rightarrow> nat \<Rightarrow> ebpf_inst \<Rightarrow> verror option" where
  "check_call vm i x =
     (if sint (imm x) < 0 \<or> sint (imm x) \<ge> int MAX_EXT_FUNCS then Some (Invalid_call_immediate i)
      else if Option.is_none (func (ext_funcs vm ! nat (sint (imm x))))
      then Some (Call_to_nonexistent_function (imm x) i)
      else None)"

text \<open>The \<^verbatim>\<open>switch (inst.opcode)\<close>.\<close>

fun check_op :: "ubpf_vm \<Rightarrow> ebpf_inst list \<Rightarrow> nat \<Rightarrow> ebpf_inst \<Rightarrow> ebpf_op \<Rightarrow> verror option" where
  "check_op vm is i x (OP_ALU_IMM a) =
     (if a = LSH \<or> a = RSH \<or> a = ARSH then check_shift 32 i x
      else if a = DIV \<or> a = MOD then check_div_imm i x else None)"
| "check_op vm is i x (OP_ALU_REG a) = None"
| "check_op vm is i x OP_NEG = None"
| "check_op vm is i x OP_LE = check_endian i x"
| "check_op vm is i x OP_BE = check_endian i x"
| "check_op vm is i x (OP_ALU64_IMM a) =
     (if a = LSH \<or> a = RSH \<or> a = ARSH then check_shift 64 i x
      else if a = DIV \<or> a = MOD then check_div_imm i x else None)"
| "check_op vm is i x (OP_ALU64_REG a) = None"
| "check_op vm is i x OP_NEG64 = None"
| "check_op vm is i x (OP_LDABS z) = None"
| "check_op vm is i x (OP_LDIND z) = None"
| "check_op vm is i x (OP_LDX z) = None"
| "check_op vm is i x (OP_ST z) = None"
| "check_op vm is i x (OP_STX z) = None"
| "check_op vm is i x OP_LDDW =
     (if i + 1 \<ge> length is \<or> opcode (is ! (i + 1)) \<noteq> 0 then Some (Incomplete_lddw i) else None)"
| "check_op vm is i x OP_JA = check_jump is i x"
| "check_op vm is i x (OP_JMP_IMM j) = check_jump is i x"
| "check_op vm is i x (OP_JMP_REG j) = check_jump is i x"
| "check_op vm is i x OP_CALL = check_call vm i x"
| "check_op vm is i x OP_EXIT = None"

fun is_store :: "ebpf_op \<Rightarrow> bool" where
  "is_store (OP_ST z) = True"
| "is_store (OP_STX z) = True"
| "is_store _ = False"

text \<open>One iteration of the loop: an error, or the index the loop has reached before its \<^verbatim>\<open>i++\<close>,
  which a double-word load has moved past its second half.\<close>

definition check_inst :: "ubpf_vm \<Rightarrow> ebpf_inst list \<Rightarrow> nat \<Rightarrow> verror + nat" where
  "check_inst vm is i =
     (let x = is ! i in
      case decode (opcode x) of
        None \<Rightarrow> Inl (Unknown_opcode (opcode x) i)
      | Some p \<Rightarrow>
          (case check_op vm is i x p of
             Some e \<Rightarrow> Inl e
           | None \<Rightarrow>
               (let i' = (if p = OP_LDDW then i + 1 else i) in
                if src x > 10 then Inl (Invalid_source_register i')
                else if dst x > 9 \<and> \<not> (is_store p \<and> dst x = 10)
                then Inl (Invalid_destination_register i')
                else Inr i')))"

section \<open>The loop\<close>

lemma check_inst_ge: "check_inst vm is i = Inr i' \<Longrightarrow> i \<le> i'"
  by (auto simp: check_inst_def Let_def split: option.splits if_splits)

function validate_from :: "ubpf_vm \<Rightarrow> ebpf_inst list \<Rightarrow> nat \<Rightarrow> verror + unit" where
  "validate_from vm is i =
     (if i < length is
      then (case check_inst vm is i of Inl e \<Rightarrow> Inl e | Inr i' \<Rightarrow> validate_from vm is (Suc i'))
      else Inr ())"
  by pat_completeness auto
termination
  by (relation "measure (\<lambda>(vm, is, i). length is - i)") (auto dest!: check_inst_ge)

declare validate_from.simps [simp del]

definition validate_instructions :: "ubpf_vm \<Rightarrow> ebpf_inst list \<Rightarrow> verror + unit" where
  "validate_instructions vm is = validate_from vm is 0"

section \<open>What acceptance means\<close>

text \<open>The contract of a single instruction: operands in range, immediate divisors non-zero,
  immediate shifts below the width, calls to registered functions, jumps to the first slot of an
  instruction inside the program.\<close>

definition jump_ok :: "ebpf_inst list \<Rightarrow> nat \<Rightarrow> ebpf_inst \<Rightarrow> bool" where
  "jump_ok is i x \<longleftrightarrow> (\<exists>t < length is. int t = int i + 1 + sint (offset x) \<and> opcode (is ! t) \<noteq> 0)"

fun op_ok :: "ubpf_vm \<Rightarrow> ebpf_inst list \<Rightarrow> nat \<Rightarrow> ebpf_inst \<Rightarrow> ebpf_op \<Rightarrow> bool" where
  "op_ok vm is i x (OP_ALU_IMM a) \<longleftrightarrow>
     (a \<in> {LSH, RSH, ARSH} \<longrightarrow> sint (imm x) \<in> {0..<32}) \<and> (a \<in> {DIV, MOD} \<longrightarrow> imm x \<noteq> 0)"
| "op_ok vm is i x (OP_ALU64_IMM a) \<longleftrightarrow>
     (a \<in> {LSH, RSH, ARSH} \<longrightarrow> sint (imm x) \<in> {0..<64}) \<and> (a \<in> {DIV, MOD} \<longrightarrow> imm x \<noteq> 0)"
| "op_ok vm is i x OP_LE \<longleftrightarrow> imm x \<in> {16, 32, 64}"
| "op_ok vm is i x OP_BE \<longleftrightarrow> imm x \<in> {16, 32, 64}"
| "op_ok vm is i x OP_LDDW \<longleftrightarrow> Suc i < length is \<and> opcode (is ! Suc i) = 0"
| "op_ok vm is i x OP_JA \<longleftrightarrow> jump_ok is i x"
| "op_ok vm is i x (OP_JMP_IMM j) \<longleftrightarrow> jump_ok is i x"
| "op_ok vm is i x (OP_JMP_REG j) \<longleftrightarrow> jump_ok is i x"
| "op_ok vm is i x OP_CALL \<longleftrightarrow> (\<exists>n < MAX_EXT_FUNCS. \<exists>f. sint (imm x) = int n \<and> func (ext_funcs vm ! n) = Some f)"
| "op_ok vm is i x _ \<longleftrightarrow> True"

definition inst_ok :: "ubpf_vm \<Rightarrow> ebpf_inst list \<Rightarrow> nat \<Rightarrow> bool" where
  "inst_ok vm is i \<longleftrightarrow> (\<exists>p. opcode (is ! i) = opcode_of p \<and> op_ok vm is i (is ! i) p
     \<and> src (is ! i) \<le> 10 \<and> (dst (is ! i) \<le> 9 \<or> is_store p \<and> dst (is ! i) = 10))"

text \<open>The second slot of a double-word load.\<close>

definition lddw_tail :: "ebpf_inst list \<Rightarrow> nat \<Rightarrow> bool" where
  "lddw_tail is i \<longleftrightarrow> 0 < i \<and> opcode (is ! i) = 0 \<and> opcode (is ! (i - 1)) = opcode_of OP_LDDW"

definition well_formed :: "ubpf_vm \<Rightarrow> ebpf_inst list \<Rightarrow> bool" where
  "well_formed vm is \<longleftrightarrow> (\<forall>i < length is. inst_ok vm is i \<or> lddw_tail is i)"

lemma check_jump_None: "check_jump is i x = None \<longleftrightarrow> jump_ok is i x"
proof
  assume a: "check_jump is i x = None"
  then have "nat (int i + 1 + sint (offset x)) < length is"
    by (auto simp: check_jump_def Let_def split: if_splits)
  with a show "jump_ok is i x" unfolding jump_ok_def
    by (intro exI [of _ "nat (int i + 1 + sint (offset x))"])
       (auto simp: check_jump_def Let_def split: if_splits)
next
  assume "jump_ok is i x"
  then obtain t where "t < length is" "int i + 1 + sint (offset x) = int t" "opcode (is ! t) \<noteq> 0"
    unfolding jump_ok_def by metis
  then show "check_jump is i x = None"
    by (auto simp: check_jump_def Let_def)
qed

lemma check_call_None:
  "check_call vm i x = None \<longleftrightarrow>
    (\<exists>n < MAX_EXT_FUNCS. \<exists>f. sint (imm x) = int n \<and> func (ext_funcs vm ! n) = Some f)"
proof
  assume a: "check_call vm i x = None"
  then have "nat (sint (imm x)) < MAX_EXT_FUNCS" "sint (imm x) = int (nat (sint (imm x)))"
    "func (ext_funcs vm ! nat (sint (imm x))) \<noteq> None"
    by (auto simp: check_call_def Option.is_none_def split: if_splits)
  then show "\<exists>n < MAX_EXT_FUNCS. \<exists>f. sint (imm x) = int n \<and> func (ext_funcs vm ! n) = Some f"
    by blast
next
  assume "\<exists>n < MAX_EXT_FUNCS. \<exists>f. sint (imm x) = int n \<and> func (ext_funcs vm ! n) = Some f"
  then obtain n f where "n < MAX_EXT_FUNCS" "sint (imm x) = int n" "func (ext_funcs vm ! n) = Some f"
    by blast
  then show "check_call vm i x = None" by (simp add: check_call_def)
qed

lemma check_op_None: "check_op vm is i x p = None \<longleftrightarrow> op_ok vm is i x p"
  by (cases p)
     (auto simp: check_shift_def check_div_imm_def check_endian_def check_jump_None check_call_None
        split: if_splits)

lemma check_inst_Inr:
  "check_inst vm is i = Inr i' \<longleftrightarrow>
     inst_ok vm is i \<and> i' = (if opcode (is ! i) = opcode_of OP_LDDW then Suc i else i)"
proof (cases "decode (opcode (is ! i))")
  case None
  then show ?thesis by (auto simp: check_inst_def inst_ok_def Let_def)
next
  case (Some p)
  then have p: "opcode (is ! i) = opcode_of p" by (simp add: decode_Some)
  have "inst_ok vm is i \<longleftrightarrow> check_op vm is i (is ! i) p = None \<and> src (is ! i) \<le> 10
      \<and> (dst (is ! i) \<le> 9 \<or> is_store p \<and> dst (is ! i) = 10)"
    by (auto simp: inst_ok_def p check_op_None dest: injD [OF inj_opcode_of])
  moreover have "opcode (is ! i) = opcode_of OP_LDDW \<longleftrightarrow> p = OP_LDDW"
    using p injD [OF inj_opcode_of] by metis
  ultimately show ?thesis
    by (auto simp: check_inst_def Some Let_def not_le split: option.splits)
qed

lemma inst_ok_nonzero: "inst_ok vm is i \<Longrightarrow> opcode (is ! i) \<noteq> 0"
  by (auto simp: inst_ok_def)

lemma inst_ok_lddw:
  "inst_ok vm is i \<Longrightarrow> opcode (is ! i) = opcode_of OP_LDDW \<Longrightarrow>
     Suc i < length is \<and> lddw_tail is (Suc i)"
  by (auto simp: inst_ok_def lddw_tail_def)

lemma validate_from_sound:
  "validate_from vm is i = Inr () \<Longrightarrow> i \<le> j \<Longrightarrow> j < length is \<Longrightarrow> inst_ok vm is j \<or> lddw_tail is j"
proof (induction vm "is" i rule: validate_from.induct)
  case (1 vm "is" i)
  have "i < length is" using "1.prems" by simp
  with "1.prems"(1) obtain i' where i': "check_inst vm is i = Inr i'"
    and rest: "validate_from vm is (Suc i') = Inr ()"
    by (auto simp: validate_from.simps [of vm "is" i] split: sum.splits)
  have ok: "inst_ok vm is i"
    and eq: "i' = (if opcode (is ! i) = opcode_of OP_LDDW then Suc i else i)"
    using i' by (auto simp: check_inst_Inr)
  have "j = i \<or> j = Suc i \<and> i' = Suc i \<or> Suc i' \<le> j"
    using "1.prems"(2) eq by (auto split: if_splits)
  then consider "j = i" | "j = Suc i" "i' = Suc i" | "Suc i' \<le> j" by blast
  then show ?case
  proof cases
    case 1
    with ok show ?thesis by simp
  next
    case 2
    with ok eq show ?thesis by (auto dest: inst_ok_lddw split: if_splits)
  next
    case 3
    with "1.IH" [OF \<open>i < length is\<close> i' rest] "1.prems"(3) show ?thesis by simp
  qed
qed

lemma validate_from_complete:
  "well_formed vm is \<Longrightarrow> \<not> lddw_tail is i \<Longrightarrow> validate_from vm is i = Inr ()"
proof (induction vm "is" i rule: validate_from.induct)
  case (1 vm "is" i)
  show ?case
  proof (cases "i < length is")
    case True
    with "1.prems" have ok: "inst_ok vm is i" by (auto simp: well_formed_def)
    let ?i = "if opcode (is ! i) = opcode_of OP_LDDW then Suc i else i"
    have step: "check_inst vm is i = Inr ?i" using ok by (simp add: check_inst_Inr)
    have "\<not> lddw_tail is (Suc ?i)"
      using inst_ok_lddw [OF ok] by (auto simp: lddw_tail_def)
    with "1.IH" [OF True step "1.prems"(1)] have "validate_from vm is (Suc ?i) = Inr ()" by blast
    with True step show ?thesis by (simp add: validate_from.simps [of vm "is" i])
  next
    case False
    then show ?thesis by (simp add: validate_from.simps [of vm "is" i])
  qed
qed

lemma validate_instructions_iff:
  "validate_instructions vm is = Inr () \<longleftrightarrow> well_formed vm is"
proof
  assume "validate_instructions vm is = Inr ()"
  then show "well_formed vm is"
    by (auto simp: validate_instructions_def well_formed_def dest: validate_from_sound)
next
  assume "well_formed vm is"
  then show "validate_instructions vm is = Inr ()"
    by (auto simp: validate_instructions_def lddw_tail_def intro: validate_from_complete)
qed

section \<open>What a well-formed instruction can do\<close>

text \<open>Of the undefined outcomes only two remain: a shift whose count is in a register, and a 32-bit
  division whose divisor is in a register.\<close>

fun reg_shift_or_div :: "ebpf_op \<Rightarrow> fault \<Rightarrow> bool" where
  "reg_shift_or_div (OP_ALU_REG a) Shift_Out_Of_Range \<longleftrightarrow> a \<in> {LSH, RSH, ARSH}"
| "reg_shift_or_div (OP_ALU64_REG a) Shift_Out_Of_Range \<longleftrightarrow> a \<in> {LSH, RSH, ARSH}"
| "reg_shift_or_div (OP_ALU_REG a) Division_By_Zero \<longleftrightarrow> a \<in> {DIV, MOD}"
| "reg_shift_or_div _ _ \<longleftrightarrow> False"

lemmas shift_defs = shl64_def shr64_def sar64_def shr32_def sar32_def

lemma write_back_Undefined: "write_back st r x = Undefined f \<longleftrightarrow> x = Inl f"
  by (cases x) auto

lemma masked_Inl [simp]: "masked x = Inl f \<longleftrightarrow> x = Inl f"
  by (cases x) auto

lemma write_back_opt_Undefined: "write_back_opt st r x = Undefined f \<longleftrightarrow> x = Some (Inl f)"
  by (cases x) (auto simp: write_back_Undefined)

lemma exec_op_Undefined:
  assumes "vm_wf vm" "op_ok vm is i x p" "unat (pc st) = Suc i"
    and "exec_op vm c is st x p = Undefined f"
  shows "reg_shift_or_div p f"
proof (cases p)
  case (OP_ALU_IMM a)
  then show ?thesis using assms
    by (cases a) (auto simp: write_back_Undefined shift_defs split: if_splits)
next
  case (OP_ALU_REG a)
  then show ?thesis using assms
    by (cases a) (auto simp: write_back_opt_Undefined shift_defs split: if_splits)
next
  case (OP_ALU64_IMM a)
  then show ?thesis using assms
    by (cases a) (auto simp: write_back_Undefined shift_defs split: if_splits)
next
  case (OP_ALU64_REG a)
  then show ?thesis using assms
    by (cases a) (auto simp: write_back_opt_Undefined shift_defs split: if_splits)
next
  case OP_CALL
  then obtain n g where "n < MAX_EXT_FUNCS" "sint (imm x) = int n" "func (ext_funcs vm ! n) = Some g"
    using assms by auto
  then show ?thesis using assms OP_CALL by (auto simp: call_def vm_wf_def split: prod.splits)
qed (use assms in \<open>auto simp: load_def store_def lddw_def jump_def Let_def split: if_splits\<close>)

section \<open>Properties\<close>

text \<open>(C6) The first verifier stage is exact: it accepts a program if and only if every slot holds an instruction
  that satisfies its contract or is the second half of a double-word load.\<close>

theorem first_stage_exact: "validate_instructions vm is = Inr () \<longleftrightarrow> well_formed vm is"
  by (rule validate_instructions_iff)

end
