(* ===== verification/Ubpf_Cfg.thy ===== *)
theory Ubpf_Cfg
  imports Ubpf_Validate
begin

text \<open>
  The second stage of the verifier, \<^verbatim>\<open>validate_cfg\<close> and \<^verbatim>\<open>explore_cfg_edge\<close> in \<^verbatim>\<open>ubpf_vm.c\<close>: a
  depth-first search of the control-flow graph that rejects programs with a back edge.  The three
  arrays of the C code are lists of the length it allocates; a read or write beyond them is the
  outcome \<open>Cfg_Out_Of_Range\<close>.
\<close>

section \<open>Data\<close>

datatype vertex_status = UNDISCOVERED | DISCOVERED | EXPLORED

datatype edge_status = UNLABELED | BRANCH1_LABELED | BRANCH2_LABELED

fun vertex_code :: "vertex_status \<Rightarrow> nat" where
  "vertex_code UNDISCOVERED = 0"
| "vertex_code DISCOVERED = 1"
| "vertex_code EXPLORED = 2"

fun edge_code :: "edge_status \<Rightarrow> nat" where
  "edge_code UNLABELED = 0"
| "edge_code BRANCH1_LABELED = 1"
| "edge_code BRANCH2_LABELED = 2"

text \<open>The enumerations are compared as the integers they stand for.\<close>

instantiation vertex_status :: linorder
begin

definition less_eq_vertex_status :: "vertex_status \<Rightarrow> vertex_status \<Rightarrow> bool" where
  "less_eq_vertex_status a b \<longleftrightarrow> vertex_code a \<le> vertex_code b"

definition less_vertex_status :: "vertex_status \<Rightarrow> vertex_status \<Rightarrow> bool" where
  "less_vertex_status a b \<longleftrightarrow> vertex_code a < vertex_code b"

instance
proof
  fix a b :: vertex_status
  assume "a \<le> b" "b \<le> a"
  then show "a = b" by (cases a; cases b) (auto simp: less_eq_vertex_status_def)
qed (auto simp: less_eq_vertex_status_def less_vertex_status_def)

end

instantiation edge_status :: linorder
begin

definition less_eq_edge_status :: "edge_status \<Rightarrow> edge_status \<Rightarrow> bool" where
  "less_eq_edge_status a b \<longleftrightarrow> edge_code a \<le> edge_code b"

definition less_edge_status :: "edge_status \<Rightarrow> edge_status \<Rightarrow> bool" where
  "less_edge_status a b \<longleftrightarrow> edge_code a < edge_code b"

instance
proof
  fix a b :: edge_status
  assume "a \<le> b" "b \<le> a"
  then show "a = b" by (cases a; cases b) (auto simp: less_eq_edge_status_def)
qed (auto simp: less_eq_edge_status_def less_edge_status_def)

end

record cfg_state =
  cfg_s :: "nat list"
  s_idx :: int
  vertices :: "vertex_status list"
  edges :: "edge_status list"

datatype edge_result =
    Edge nat "vertex_status list" "edge_status list"
  | Edge_Error verror
  | Edge_Out_Of_Range

datatype cfg_step = Cfg_Continue cfg_state | Cfg_Stop verror | Cfg_Fault

datatype cfg_verdict = Cfg_Accepted | Cfg_Rejected verror | Cfg_Out_Of_Range

section \<open>Operations\<close>

definition explore_cfg_edge ::
  "vertex_status list \<Rightarrow> edge_status list \<Rightarrow> nat \<Rightarrow> nat \<Rightarrow> edge_status \<Rightarrow> edge_result" where
  "explore_cfg_edge vs es v u branch =
     (if v \<ge> length vs \<or> v \<ge> length es then Edge_Out_Of_Range
      else if vs ! v \<ge> DISCOVERED \<and> es ! v \<ge> branch then Edge 0 vs es
      else if u \<ge> length vs then Edge_Out_Of_Range
      else (case vs ! u of
              UNDISCOVERED \<Rightarrow> Edge 1 (vs[v := DISCOVERED, u := DISCOVERED]) (es[v := branch])
            | EXPLORED \<Rightarrow> Edge 0 (vs[v := DISCOVERED]) (es[v := branch])
            | DISCOVERED \<Rightarrow> Edge_Error (Back_edge v u)))"

text \<open>The edges the \<^verbatim>\<open>switch\<close> of \<^verbatim>\<open>validate_cfg\<close> explores from an instruction, in its order.  Targets
  are 32-bit sums, as in \<^verbatim>\<open>u = v + 1; u += insts[v].offset\<close>.\<close>

definition jump_target :: "nat \<Rightarrow> u16 \<Rightarrow> nat" where
  "jump_target v off = unat (of_nat (v + 1) + scast off :: u32)"

definition fall_through :: "nat \<Rightarrow> nat" where
  "fall_through v = unat (of_nat (v + 1) :: u32)"

definition out_edges :: "ebpf_inst list \<Rightarrow> nat \<Rightarrow> (edge_status \<times> nat) list" where
  "out_edges is v =
     (let x = is ! v in
      if EBPF_CLASS (opcode x) = EBPF_CLS_JMP
      then (if EBPF_OP (opcode x) = EBPF_JMP_JA then [(BRANCH1_LABELED, jump_target v (offset x))]
            else if EBPF_OP (opcode x) = EBPF_JMP_CALL then [(BRANCH1_LABELED, fall_through v)]
            else if EBPF_OP (opcode x) = EBPF_JMP_EXIT then []
            else [(BRANCH1_LABELED, fall_through v), (BRANCH2_LABELED, jump_target v (offset x))])
      else [(BRANCH1_LABELED, fall_through v)])"

text \<open>Exploring the edges of the vertex on top of the stack: the first one that discovers a vertex
  pushes it and restarts the loop; when none does, the vertex is explored and popped.\<close>

fun explore_edges :: "cfg_state \<Rightarrow> nat \<Rightarrow> (edge_status \<times> nat) list \<Rightarrow> cfg_step" where
  "explore_edges st v [] =
     (if v < length (vertices st)
      then Cfg_Continue (st\<lparr>vertices := (vertices st)[v := EXPLORED], s_idx := s_idx st - 1\<rparr>)
      else Cfg_Fault)"
| "explore_edges st v ((branch, u) # es) =
     (case explore_cfg_edge (vertices st) (edges st) v u branch of
        Edge_Out_Of_Range \<Rightarrow> Cfg_Fault
      | Edge_Error e \<Rightarrow> Cfg_Stop e
      | Edge r vs' es' \<Rightarrow>
          (let st' = st\<lparr>vertices := vs', edges := es'\<rparr> in
           if r = 1
           then (if nat (s_idx st + 1) < length (cfg_s st)
                 then Cfg_Continue (st'\<lparr>cfg_s := (cfg_s st)[nat (s_idx st + 1) := u], s_idx := s_idx st + 1\<rparr>)
                 else Cfg_Fault)
           else explore_edges st' v es))"

definition cfg_iter :: "(nat \<Rightarrow> (edge_status \<times> nat) list) \<Rightarrow> nat \<Rightarrow> cfg_state \<Rightarrow> cfg_step" where
  "cfg_iter oe n st =
     (if nat (s_idx st) < length (cfg_s st) \<and> cfg_s st ! nat (s_idx st) < n
      then explore_edges st (cfg_s st ! nat (s_idx st)) (oe (cfg_s st ! nat (s_idx st)))
      else Cfg_Fault)"

partial_function (option) cfg_loop ::
  "(nat \<Rightarrow> (edge_status \<times> nat) list) \<Rightarrow> nat \<Rightarrow> cfg_state \<Rightarrow> cfg_verdict option" where
  "cfg_loop oe n st =
     (if s_idx st \<ge> 0
      then (case cfg_iter oe n st of
              Cfg_Continue st' \<Rightarrow> cfg_loop oe n st'
            | Cfg_Stop e \<Rightarrow> Some (Cfg_Rejected e)
            | Cfg_Fault \<Rightarrow> Some Cfg_Out_Of_Range)
      else Some Cfg_Accepted)"

declare cfg_loop.simps [code]

definition cfg_init :: "nat \<Rightarrow> cfg_state" where
  "cfg_init n = \<lparr>cfg_s = replicate n 0, s_idx = 0,
     vertices = (replicate n UNDISCOVERED)[0 := DISCOVERED], edges = replicate n UNLABELED\<rparr>"

definition validate_cfg :: "ebpf_inst list \<Rightarrow> cfg_verdict option" where
  "validate_cfg is =
     (if length is = 0 then Some Cfg_Out_Of_Range
      else cfg_loop (out_edges is) (length is) (cfg_init (length is)))"

section \<open>The search invariant\<close>

definition succs :: "(nat \<Rightarrow> (edge_status \<times> nat) list) \<Rightarrow> nat \<Rightarrow> nat set" where
  "succs oe v = snd ` set (oe v)"

definition graph :: "(nat \<Rightarrow> (edge_status \<times> nat) list) \<Rightarrow> nat \<Rightarrow> (nat \<times> nat) set" where
  "graph oe n = {(v, u). v < n \<and> u \<in> succs oe v}"

definition explored :: "vertex_status list \<Rightarrow> nat set" where
  "explored vs = {v. v < length vs \<and> vs ! v = EXPLORED}"

text \<open>The explored vertices are closed under successors and can be ranked so that every edge goes
  down: no cycle goes through them.\<close>

definition ranked :: "(nat \<Rightarrow> (edge_status \<times> nat) list) \<Rightarrow> nat set \<Rightarrow> bool" where
  "ranked oe X \<longleftrightarrow>
     (\<exists>r :: nat \<Rightarrow> nat. \<forall>v \<in> X. r v < card X \<and> (\<forall>u \<in> succs oe v. u \<in> X \<and> r u < r v))"

definition stack_inv ::
  "(nat \<Rightarrow> (edge_status \<times> nat) list) \<Rightarrow> nat \<Rightarrow> nat list \<Rightarrow> vertex_status list \<Rightarrow> bool" where
  "stack_inv oe n S vs \<longleftrightarrow> distinct S \<and> (\<forall>v. v \<in> set S \<longleftrightarrow> v < n \<and> vs ! v = DISCOVERED)
     \<and> (\<forall>i. Suc i < length S \<longrightarrow> S ! Suc i \<in> succs oe (S ! i))
     \<and> (if S = [] then vs ! 0 = EXPLORED else hd S = 0)"

definition label_inv ::
  "(nat \<Rightarrow> (edge_status \<times> nat) list) \<Rightarrow> nat list \<Rightarrow> vertex_status list \<Rightarrow> edge_status list \<Rightarrow> bool" where
  "label_inv oe S vs es \<longleftrightarrow> (\<forall>i b u. i < length S \<longrightarrow> (b, u) \<in> set (oe (S ! i)) \<longrightarrow> b \<le> es ! (S ! i) \<longrightarrow>
     u \<in> explored vs \<or> Suc i < length S \<and> u = S ! Suc i)"

definition dfs_inv ::
  "(nat \<Rightarrow> (edge_status \<times> nat) list) \<Rightarrow> nat \<Rightarrow> nat list \<Rightarrow> vertex_status list \<Rightarrow> edge_status list \<Rightarrow> bool"
where
  "dfs_inv oe n S vs es \<longleftrightarrow> 0 < n \<and> length vs = n \<and> length es = n
     \<and> (\<forall>v < n. vs ! v = UNDISCOVERED \<longrightarrow> es ! v = UNLABELED)
     \<and> stack_inv oe n S vs \<and> label_inv oe S vs es \<and> ranked oe (explored vs)"

lemma label_invD:
  "label_inv oe S vs es \<Longrightarrow> i < length S \<Longrightarrow> (b, u) \<in> set (oe (S ! i)) \<Longrightarrow> b \<le> es ! (S ! i) \<Longrightarrow>
     u \<in> explored vs \<or> Suc i < length S \<and> u = S ! Suc i"
  unfolding label_inv_def by blast

lemma explored_update:
  "v < length vs \<Longrightarrow> x \<noteq> EXPLORED \<Longrightarrow> vs ! v \<noteq> EXPLORED \<Longrightarrow> explored (vs[v := x]) = explored vs"
  by (auto simp: explored_def nth_list_update split: if_splits)

lemma explored_insert: "v < length vs \<Longrightarrow> explored (vs[v := EXPLORED]) = insert v (explored vs)"
  by (auto simp: explored_def nth_list_update split: if_splits)

lemma finite_explored [simp]: "finite (explored vs)"
  by (simp add: explored_def)

lemma ranked_insert:
  assumes "ranked oe X" "finite X" "v \<notin> X" "succs oe v \<subseteq> X"
  shows "ranked oe (insert v X)"
proof -
  obtain r where r: "\<And>w. w \<in> X \<Longrightarrow> r w < card X \<and> (\<forall>u \<in> succs oe w. u \<in> X \<and> r u < r w)"
    using assms(1) by (auto simp: ranked_def)
  let ?r = "r(v := card X)"
  have "?r w < card (insert v X) \<and> (\<forall>u \<in> succs oe w. u \<in> insert v X \<and> ?r u < ?r w)"
    if "w \<in> insert v X" for w
  proof (cases "w = v")
    case True
    have "r u < card X" if "u \<in> X" for u using r that by blast
    with True assms show ?thesis by auto
  next
    case False
    with that have "w \<in> X" by simp
    with r [of w] assms(2,3) False show ?thesis by fastforce
  qed
  then show ?thesis unfolding ranked_def by blast
qed

locale labelled_graph =
  fixes oe :: "nat \<Rightarrow> (edge_status \<times> nat) list"
  assumes labels: "sorted_wrt (<) (UNLABELED # map fst (oe v))"
begin

lemma label_pos: "(b, u) \<in> set (oe v) \<Longrightarrow> UNLABELED < b"
  using labels [of v] by force

lemma label_split:
  assumes "oe v = ds @ (b, u) # es" "(b', u') \<in> set (oe v)" "b' \<le> b"
  shows "(b', u') \<in> set ds \<or> (b', u') = (b, u)"
proof -
  have "\<forall>x \<in> set es. b < fst x"
    using labels [of v] assms(1) by (auto simp: sorted_wrt_append)
  with assms show ?thesis by fastforce
qed

lemma label_edge_inv:
  assumes inv: "dfs_inv oe n (S @ [v]) vs es" and oe: "oe v = ds @ (b, u) # rest"
    and ds: "snd ` set ds \<subseteq> explored vs" and u: "u \<in> explored vs"
  shows "dfs_inv oe n (S @ [v]) vs (es[v := b])"
proof -
  have v: "v < n" "vs ! v = DISCOVERED" "v \<notin> set S" and len: "length es = n"
    using inv by (auto simp: dfs_inv_def stack_inv_def)
  have "label_inv oe (S @ [v]) vs (es[v := b])"
    unfolding label_inv_def
  proof (intro allI impI)
    fix i b' u'
    assume i: "i < length (S @ [v])" and e: "(b', u') \<in> set (oe ((S @ [v]) ! i))"
      and le: "b' \<le> es[v := b] ! ((S @ [v]) ! i)"
    show "u' \<in> explored vs \<or> Suc i < length (S @ [v]) \<and> u' = (S @ [v]) ! Suc i"
    proof (cases "i = length S")
      case True
      with e le v len have "(b', u') \<in> set ds \<or> (b', u') = (b, u)"
        by (intro label_split [OF oe]) auto
      with ds u show ?thesis by auto
    next
      case False
      with i have "(S @ [v]) ! i \<noteq> v" using v by (auto simp: nth_append)
      then show ?thesis using label_invD [of oe "S @ [v]" vs es i b' u'] inv i e le by (simp add: dfs_inv_def)
    qed
  qed
  with inv v show ?thesis by (auto simp: dfs_inv_def nth_list_update)
qed

lemma push_inv:
  assumes inv: "dfs_inv oe n (S @ [v]) vs es" and oe: "oe v = ds @ (b, u) # rest"
    and ds: "snd ` set ds \<subseteq> explored vs" and u: "u < n" "vs ! u = UNDISCOVERED"
  shows "dfs_inv oe n (S @ [v, u]) (vs[u := DISCOVERED]) (es[v := b])"
proof -
  have v: "v < n" "vs ! v = DISCOVERED" "v \<notin> set S" and len: "length es = n" "length vs = n"
    using inv by (auto simp: dfs_inv_def stack_inv_def)
  have uS: "u \<notin> set (S @ [v])" using inv u by (auto simp: dfs_inv_def stack_inv_def)
  have ex: "explored (vs[u := DISCOVERED]) = explored vs"
    using u len by (simp add: explored_update)
  have us: "u \<in> succs oe v" using oe by (force simp: succs_def)
  have "label_inv oe (S @ [v, u]) (vs[u := DISCOVERED]) (es[v := b])"
    unfolding label_inv_def ex
  proof (intro allI impI)
    fix i b' u'
    assume i: "i < length (S @ [v, u])" and e: "(b', u') \<in> set (oe ((S @ [v, u]) ! i))"
      and le: "b' \<le> es[v := b] ! ((S @ [v, u]) ! i)"
    consider "i < length S" | "i = length S" | "i = Suc (length S)" using i by force
    then show "u' \<in> explored vs \<or> Suc i < length (S @ [v, u]) \<and> u' = (S @ [v, u]) ! Suc i"
    proof cases
      case 1
      then have "(S @ [v, u]) ! i = (S @ [v]) ! i" "(S @ [v]) ! i \<noteq> v"
        "(S @ [v, u]) ! Suc i = (S @ [v]) ! Suc i"
        using v by (auto simp: nth_append)
      moreover from this e le have "(b', u') \<in> set (oe ((S @ [v]) ! i))" "b' \<le> es ! ((S @ [v]) ! i)"
        by simp_all
      then have "u' \<in> explored vs \<or> Suc i < length (S @ [v]) \<and> u' = (S @ [v]) ! Suc i"
        using label_invD [of oe "S @ [v]" vs es i b' u'] inv 1 by (simp add: dfs_inv_def)
      ultimately show ?thesis using 1 by simp
    next
      case 2
      with e le v len have "(b', u') \<in> set ds \<or> (b', u') = (b, u)"
        by (intro label_split [OF oe]) auto
      with ds 2 show ?thesis by (auto simp: nth_append)
    next
      case 3
      then have "(S @ [v, u]) ! i = u" by (simp add: nth_append)
      with e le uS u inv have "(b', u') \<in> set (oe u)" "b' \<le> UNLABELED"
        by (auto simp: dfs_inv_def nth_list_update)
      with label_pos show ?thesis by (metis leD)
    qed
  qed
  moreover have "stack_inv oe n (S @ [v, u]) (vs[u := DISCOVERED])"
  proof -
    have st: "stack_inv oe n (S @ [v]) vs" using inv by (simp add: dfs_inv_def)
    then have "distinct (S @ [v, u])" "hd (S @ [v, u]) = 0"
      using uS by (auto simp: stack_inv_def hd_append)
    moreover have "w \<in> set (S @ [v, u]) \<longleftrightarrow> w < n \<and> vs[u := DISCOVERED] ! w = DISCOVERED" for w
    proof -
      have "w \<in> set (S @ [v]) \<longleftrightarrow> w < n \<and> vs ! w = DISCOVERED" using st by (simp add: stack_inv_def)
      then show ?thesis using u len by (cases "w = u") auto
    qed
    moreover have "(S @ [v, u]) ! Suc i \<in> succs oe ((S @ [v, u]) ! i)"
      if "Suc i < length (S @ [v, u])" for i
    proof (cases "i = length S")
      case True
      then show ?thesis using us by (simp add: nth_append)
    next
      case False
      with that have "Suc i < length (S @ [v])" by simp
      then have "(S @ [v]) ! Suc i \<in> succs oe ((S @ [v]) ! i)"
        using st unfolding stack_inv_def by blast
      moreover have "(S @ [v]) ! Suc i = (S @ [v, u]) ! Suc i" "(S @ [v]) ! i = (S @ [v, u]) ! i"
        using \<open>Suc i < length (S @ [v])\<close> by (simp_all add: nth_append)
      ultimately show ?thesis by simp
    qed
    ultimately show ?thesis by (simp add: stack_inv_def)
  qed
  ultimately show ?thesis using inv v u len
    by (auto simp: dfs_inv_def ex nth_list_update)
qed

lemma pop_inv:
  assumes inv: "dfs_inv oe n (S @ [v]) vs es" and all: "succs oe v \<subseteq> explored vs"
  shows "dfs_inv oe n S (vs[v := EXPLORED]) es"
proof -
  have v: "v < n" "vs ! v = DISCOVERED" "v \<notin> set S" and len: "length es = n" "length vs = n"
    using inv by (auto simp: dfs_inv_def stack_inv_def)
  have ex: "explored (vs[v := EXPLORED]) = insert v (explored vs)"
    using v len by (simp add: explored_insert)
  have "v \<notin> explored vs" using v by (simp add: explored_def)
  then have "ranked oe (insert v (explored vs))"
    using inv all by (intro ranked_insert) (auto simp: dfs_inv_def)
  moreover have "label_inv oe S (vs[v := EXPLORED]) es"
    unfolding label_inv_def ex
  proof (intro allI impI)
    fix i b u
    assume "i < length S" "(b, u) \<in> set (oe (S ! i))" "b \<le> es ! (S ! i)"
    then have "u \<in> explored vs \<or> Suc i < length (S @ [v]) \<and> u = (S @ [v]) ! Suc i"
      using inv unfolding dfs_inv_def label_inv_def
      by (metis length_append_singleton less_SucI nth_append)
    then show "u \<in> insert v (explored vs) \<or> Suc i < length S \<and> u = S ! Suc i"
      by (auto simp: nth_append less_Suc_eq split: if_splits)
  qed
  moreover have "stack_inv oe n S (vs[v := EXPLORED])"
  proof -
    have st: "stack_inv oe n (S @ [v]) vs" using inv by (simp add: dfs_inv_def)
    have "S = [] \<Longrightarrow> v = 0" using st by (simp add: stack_inv_def)
    moreover have "S \<noteq> [] \<Longrightarrow> hd S = 0" using st by (simp add: stack_inv_def hd_append)
    moreover have "\<And>i. Suc i < length S \<Longrightarrow> S ! Suc i \<in> succs oe (S ! i)"
      using st unfolding stack_inv_def by (metis Suc_lessD length_append_singleton less_SucI nth_append)
    moreover have "\<And>w. w \<in> set S \<longleftrightarrow> w < n \<and> vs[v := EXPLORED] ! w = DISCOVERED"
      using st v len by (auto simp: stack_inv_def nth_list_update)
    ultimately show ?thesis using st v len by (auto simp: stack_inv_def)
  qed
  ultimately show ?thesis using inv v len
    by (auto simp: dfs_inv_def ex nth_list_update)
qed

end

section \<open>Paths on the stack\<close>

lemma stack_path:
  assumes "stack_inv oe n S vs" "i \<le> j" "j < length S"
  shows "(S ! i, S ! j) \<in> (graph oe n)\<^sup>*"
  using assms(2,3)
proof (induction j rule: dec_induct)
  case base
  then show ?case by simp
next
  case (step k)
  then have "S ! k < n" "S ! Suc k \<in> succs oe (S ! k)"
    using assms(1) by (auto simp: stack_inv_def)
  then have "(S ! k, S ! Suc k) \<in> graph oe n" by (simp add: graph_def)
  with step show ?case by (auto intro: rtrancl_into_rtrancl)
qed

lemma stack_root_path:
  assumes "stack_inv oe n S vs" "v \<in> set S"
  shows "(0, v) \<in> (graph oe n)\<^sup>*"
proof -
  obtain j where "j < length S" "S ! j = v" using assms(2) by (auto simp: in_set_conv_nth)
  moreover from this have "S ! 0 = 0" using assms(1) by (cases S) (auto simp: stack_inv_def)
  ultimately show ?thesis using stack_path [OF assms(1), of 0 j] by simp
qed

lemma stack_length:
  assumes "stack_inv oe n S vs"
  shows "length S \<le> n"
proof -
  have "distinct S" "set S \<subseteq> {..<n}" using assms by (auto simp: stack_inv_def)
  then show ?thesis by (metis card_lessThan card_mono distinct_card finite_lessThan)
qed

section \<open>One iteration\<close>

definition stk :: "cfg_state \<Rightarrow> nat list" where
  "stk st = take (nat (s_idx st + 1)) (cfg_s st)"

definition cfg_inv :: "(nat \<Rightarrow> (edge_status \<times> nat) list) \<Rightarrow> nat \<Rightarrow> cfg_state \<Rightarrow> bool" where
  "cfg_inv oe n st \<longleftrightarrow> length (cfg_s st) = n \<and> - 1 \<le> s_idx st \<and> s_idx st < int n
     \<and> dfs_inv oe n (stk st) (vertices st) (edges st)"

text \<open>Every iteration discovers a vertex or finishes one.\<close>

definition work :: "vertex_status list \<Rightarrow> nat" where
  "work vs = sum_list (map (\<lambda>x. 2 - vertex_code x) vs)"

lemma work_update:
  assumes "v < length vs" "vertex_code (vs ! v) < vertex_code x" "vertex_code x \<le> 2"
  shows "work (vs[v := x]) < work vs"
proof -
  let ?f = "\<lambda>x. 2 - vertex_code x"
  have "work (vs[v := x]) = work vs + ?f x - ?f (vs ! v)"
    using assms(1) by (simp add: work_def map_update sum_list_update)
  moreover have "?f (vs ! v) \<le> work vs"
    using assms(1) elem_le_sum_list [of v "map ?f vs"] by (simp add: work_def)
  ultimately show ?thesis using assms by linarith
qed

text \<open>What one iteration with \<open>v\<close> on top of the stack \<open>S\<close> guarantees: progress and the invariant, or
  an edge back into the stack, or an edge that leaves the program.\<close>

fun step_ok ::
  "(nat \<Rightarrow> (edge_status \<times> nat) list) \<Rightarrow> nat \<Rightarrow> nat \<Rightarrow> nat list \<Rightarrow> nat \<Rightarrow> cfg_step \<Rightarrow> bool" where
  "step_ok oe n w S v (Cfg_Continue st) \<longleftrightarrow> cfg_inv oe n st \<and> work (vertices st) < w"
| "step_ok oe n w S v (Cfg_Stop e) \<longleftrightarrow> (\<exists>x \<in> set S. e = Back_edge v x \<and> x \<in> succs oe v)"
| "step_ok oe n w S v Cfg_Fault \<longleftrightarrow> (\<exists>u \<in> succs oe v. n \<le> u)"

context labelled_graph
begin

lemma explore_edges_inv:
  assumes "length (cfg_s st) = n" "s_idx st = int (length S)" "stk st = S @ [v]"
    and "dfs_inv oe n (S @ [v]) (vertices st) (edges st)"
    and "oe v = ds @ es" "snd ` set ds \<subseteq> explored (vertices st)"
  shows "step_ok oe n (work (vertices st)) (S @ [v]) v (explore_edges st v es)"
  using assms
proof (induction es arbitrary: st ds)
  case Nil
  have v: "v < n" "vertices st ! v = DISCOVERED" and len: "length (vertices st) = n"
    using Nil.prems(4) by (auto simp: dfs_inv_def stack_inv_def)
  have "succs oe v \<subseteq> explored (vertices st)"
    using Nil.prems(5,6) by (simp add: succs_def)
  then have "dfs_inv oe n S ((vertices st)[v := EXPLORED]) (edges st)"
    using Nil.prems(4) by (intro pop_inv)
  moreover have "take (nat (s_idx st)) (cfg_s st) = S"
  proof -
    have "nat (s_idx st + 1) = Suc (length S)" using Nil.prems(2) by simp
    then have "take (Suc (length S)) (cfg_s st) = S @ [v]"
      using Nil.prems(3) by (simp add: stk_def)
    then have "take (length S) (take (Suc (length S)) (cfg_s st)) = S" by simp
    then show ?thesis using Nil.prems(2) by simp
  qed
  moreover have "int (length S) < int n"
    using stack_length Nil.prems(4) by (fastforce simp: dfs_inv_def)
  moreover have "work ((vertices st)[v := EXPLORED]) < work (vertices st)"
    using v len by (intro work_update) auto
  ultimately show ?case using Nil.prems(1,2) v len
    by (auto simp: cfg_inv_def stk_def)
next
  case (Cons e es)
  obtain b u where e: "e = (b, u)" by (cases e)
  have v: "v < n" "vertices st ! v = DISCOVERED"
    and len: "length (vertices st) = n" "length (edges st) = n"
    using Cons.prems(4) by (auto simp: dfs_inv_def stack_inv_def)
  have us: "u \<in> succs oe v" using Cons.prems(5) e by (force simp: succs_def)
  have ds: "oe v = (ds @ [(b, u)]) @ es" using Cons.prems(5) e by simp
  consider (seen) "b \<le> edges st ! v"
    | (range) "\<not> b \<le> edges st ! v" "n \<le> u"
    | (new) "\<not> b \<le> edges st ! v" "u < n" "vertices st ! u = UNDISCOVERED"
    | (old) "\<not> b \<le> edges st ! v" "u < n" "vertices st ! u = EXPLORED"
    | (loop) "\<not> b \<le> edges st ! v" "u < n" "vertices st ! u = DISCOVERED"
    by (cases "b \<le> edges st ! v"; cases "u < n"; cases "vertices st ! u") (simp_all add: not_less)
  then show ?case
  proof cases
    case seen
    have "label_inv oe (S @ [v]) (vertices st) (edges st)"
      using Cons.prems(4) by (simp add: dfs_inv_def)
    then have "u \<in> explored (vertices st)"
      using label_invD [of oe "S @ [v]" "vertices st" "edges st" "length S" b u] seen ds by simp
    then have "snd ` set (ds @ [(b, u)]) \<subseteq> explored (vertices st)" using Cons.prems(6) by simp
    from Cons.IH [OF Cons.prems(1-4) ds this] show ?thesis
      using seen v len by (simp add: e explore_cfg_edge_def less_eq_vertex_status_def Let_def)
  next
    case range
    then show ?thesis using v len us by (auto simp: e explore_cfg_edge_def)
  next
    case new
    have inv': "dfs_inv oe n (S @ [v, u]) ((vertices st)[u := DISCOVERED]) ((edges st)[v := b])"
      using Cons.prems e new by (intro push_inv) auto
    then have "length (S @ [v, u]) \<le> n" by (auto simp: dfs_inv_def dest: stack_length)
    then have room: "Suc (length S) < n" by simp
    have "take (Suc (length S)) (cfg_s st) = S @ [v]"
      using Cons.prems(2,3) by (simp add: stk_def nat_add_distrib)
    then have "take (Suc (Suc (length S))) ((cfg_s st)[Suc (length S) := u]) = S @ [v, u]"
      using room Cons.prems(1) by (simp add: take_Suc_conv_app_nth)
    moreover have "work ((vertices st)[u := DISCOVERED]) < work (vertices st)"
      using new len by (intro work_update) auto
    moreover have "(vertices st)[v := DISCOVERED] = vertices st"
      using v len by (metis list_update_id)
    ultimately show ?thesis using new v len inv' room Cons.prems(1,2)
      by (simp add: e explore_cfg_edge_def Let_def cfg_inv_def stk_def nat_add_distrib)
  next
    case old
    have ex: "u \<in> explored (vertices st)" using old len by (simp add: explored_def)
    then have inv': "dfs_inv oe n (S @ [v]) (vertices st) ((edges st)[v := b])"
      using Cons.prems e by (intro label_edge_inv) auto
    have same: "(vertices st)[v := DISCOVERED] = vertices st"
      using v len by (metis list_update_id)
    let ?st = "st\<lparr>edges := (edges st)[v := b]\<rparr>"
    have "snd ` set (ds @ [(b, u)]) \<subseteq> explored (vertices ?st)" using ex Cons.prems(6) by simp
    from Cons.IH [of ?st, OF _ _ _ _ ds this] show ?thesis
      using old v len inv' Cons.prems(1-3) same
      by (simp add: e explore_cfg_edge_def Let_def stk_def)
  next
    case loop
    have "u \<in> set (S @ [v])" using loop Cons.prems(4) by (auto simp: dfs_inv_def stack_inv_def)
    then show ?thesis using loop v len us by (auto simp: e explore_cfg_edge_def)
  qed
qed

lemma cfg_iter_ok:
  assumes "cfg_inv oe n st" "0 \<le> s_idx st"
  obtains S v where "stk st = S @ [v]"
    and "step_ok oe n (work (vertices st)) (S @ [v]) v (cfg_iter oe n st)"
proof -
  let ?k = "nat (s_idx st)"
  let ?v = "cfg_s st ! ?k"
  have k: "?k < length (cfg_s st)" and len: "length (cfg_s st) = n"
    using assms by (auto simp: cfg_inv_def)
  have S: "stk st = take ?k (cfg_s st) @ [?v]"
    using k assms(2) by (simp add: stk_def nat_add_distrib take_Suc_conv_app_nth)
  have inv: "dfs_inv oe n (take ?k (cfg_s st) @ [?v]) (vertices st) (edges st)"
    using assms(1) S by (simp add: cfg_inv_def)
  then have "?v < n" by (auto simp: dfs_inv_def stack_inv_def)
  then have "cfg_iter oe n st = explore_edges st ?v (oe ?v)" using k by (simp add: cfg_iter_def)
  moreover have "step_ok oe n (work (vertices st)) (take ?k (cfg_s st) @ [?v]) ?v (explore_edges st ?v (oe ?v))"
    using assms(2) k len S inv by (intro explore_edges_inv [where ds = "[]"]) auto
  ultimately show thesis using that [OF S] by simp
qed

end

section \<open>The verdict\<close>

fun verdict_ok :: "(nat \<Rightarrow> (edge_status \<times> nat) list) \<Rightarrow> nat \<Rightarrow> cfg_verdict \<Rightarrow> bool" where
  "verdict_ok oe n Cfg_Accepted \<longleftrightarrow> (\<exists>X. 0 \<in> X \<and> X \<subseteq> {..<n} \<and> ranked oe X)"
| "verdict_ok oe n (Cfg_Rejected e) \<longleftrightarrow> (\<exists>v u. e = Back_edge v u \<and>
     (0, u) \<in> (graph oe n)\<^sup>* \<and> (u, v) \<in> (graph oe n)\<^sup>* \<and> (v, u) \<in> graph oe n)"
| "verdict_ok oe n Cfg_Out_Of_Range \<longleftrightarrow>
     (\<exists>v u. (0, v) \<in> (graph oe n)\<^sup>* \<and> (v, u) \<in> graph oe n \<and> n \<le> u)"

lemma step_verdict:
  assumes "cfg_inv oe n st" "stk st = S @ [v]" "step_ok oe n w (S @ [v]) v x"
  shows "x = Cfg_Stop e \<Longrightarrow> verdict_ok oe n (Cfg_Rejected e)"
    and "x = Cfg_Fault \<Longrightarrow> verdict_ok oe n Cfg_Out_Of_Range"
proof -
  have st: "stack_inv oe n (S @ [v]) (vertices st)"
    using assms(1,2) by (simp add: cfg_inv_def dfs_inv_def)
  then have v: "v < n" by (auto simp: stack_inv_def)
  have top: "(0, v) \<in> (graph oe n)\<^sup>*" using stack_root_path [OF st, of v] by simp
  show "verdict_ok oe n (Cfg_Rejected e)" if x: "x = Cfg_Stop e"
  proof -
    from assms(3) x obtain u where u: "u \<in> set (S @ [v])" "e = Back_edge v u" "u \<in> succs oe v"
      by auto
    obtain i where i: "i < length (S @ [v])" "(S @ [v]) ! i = u"
      using u(1) unfolding in_set_conv_nth by blast
    have "(u, v) \<in> (graph oe n)\<^sup>*"
      using stack_path [OF st, of i "length S"] i by simp
    moreover have "(0, u) \<in> (graph oe n)\<^sup>*" using stack_root_path [OF st u(1)] .
    ultimately show ?thesis using u v by (auto simp: graph_def)
  qed
  show "verdict_ok oe n Cfg_Out_Of_Range" if "x = Cfg_Fault"
    using that assms(3) v top by (auto simp: graph_def)
qed

lemma explored_bound: "length vs = n \<Longrightarrow> explored vs \<subseteq> {..<n}"
  by (auto simp: explored_def)

lemma finished_verdict:
  assumes "cfg_inv oe n st" "s_idx st < 0"
  shows "verdict_ok oe n Cfg_Accepted"
proof -
  have "stk st = []" using assms(2) by (simp add: stk_def)
  with assms(1) have "0 \<in> explored (vertices st)" "ranked oe (explored (vertices st))"
    "explored (vertices st) \<subseteq> {..<n}"
    by (auto simp: cfg_inv_def dfs_inv_def stack_inv_def explored_def)
  then show ?thesis by auto
qed

context labelled_graph
begin

text \<open>The search ends, and its verdict is right.\<close>

lemma cfg_loop_total:
  "cfg_inv oe n st \<Longrightarrow> \<exists>r. cfg_loop oe n st = Some r \<and> verdict_ok oe n r"
proof (induction "work (vertices st)" arbitrary: st rule: less_induct)
  case less
  show ?case
  proof (cases "s_idx st \<ge> 0")
    case True
    obtain S v where S: "stk st = S @ [v]"
      and ok: "step_ok oe n (work (vertices st)) (S @ [v]) v (cfg_iter oe n st)"
      using cfg_iter_ok [OF less.prems True] .
    show ?thesis
    proof (cases "cfg_iter oe n st")
      case (Cfg_Continue st')
      with ok less.hyps [of st'] True show ?thesis by (simp add: cfg_loop.simps [of oe n st])
    next
      case (Cfg_Stop e)
      with True step_verdict(1) [OF less.prems S ok Cfg_Stop] show ?thesis
        by (simp add: cfg_loop.simps [of oe n st])
    next
      case Cfg_Fault
      with True step_verdict(2) [OF less.prems S ok Cfg_Fault] show ?thesis
        by (simp add: cfg_loop.simps [of oe n st])
    qed
  next
    case False
    then show ?thesis using finished_verdict [OF less.prems]
      by (simp add: cfg_loop.simps [of oe n st])
  qed
qed

lemma cfg_inv_init: "0 < n \<Longrightarrow> cfg_inv oe n (cfg_init n)"
proof -
  assume n: "0 < n"
  have stk: "stk (cfg_init n) = [0]" using n by (cases n) (auto simp: stk_def cfg_init_def)
  have ex: "explored (vertices (cfg_init n)) = {}"
    by (auto simp: explored_def cfg_init_def nth_list_update split: if_splits)
  have "label_inv oe [0] (vertices (cfg_init n)) (edges (cfg_init n))"
    using n label_pos by (fastforce simp: label_inv_def cfg_init_def)
  moreover have "stack_inv oe n [0] (vertices (cfg_init n))"
    using n by (auto simp: stack_inv_def cfg_init_def nth_list_update split: if_splits)
  moreover have "length (cfg_s (cfg_init n)) = n" "s_idx (cfg_init n) = 0"
    "length (vertices (cfg_init n)) = n" "length (edges (cfg_init n)) = n"
    "\<forall>v < n. edges (cfg_init n) ! v = UNLABELED"
    by (simp_all add: cfg_init_def)
  ultimately show ?thesis using n by (simp add: cfg_inv_def dfs_inv_def stk ex ranked_def)
qed

end

section \<open>The control-flow graph of a program\<close>

interpretation prog: labelled_graph "out_edges is" for "is"
  by unfold_locales (auto simp: out_edges_def Let_def less_edge_status_def)

definition cfg :: "ebpf_inst list \<Rightarrow> (nat \<times> nat) set" where
  "cfg is = graph (out_edges is) (length is)"

lemma validate_cfg_total:
  "is \<noteq> [] \<Longrightarrow> \<exists>r. validate_cfg is = Some r \<and> verdict_ok (out_edges is) (length is) r"
  using prog.cfg_loop_total [OF prog.cfg_inv_init] by (simp add: validate_cfg_def)

text \<open>A ranked set of instructions cannot be left and has no cycle.\<close>

lemma ranked_reach:
  assumes "ranked oe X" "v \<in> X" "(v, u) \<in> (graph oe n)\<^sup>*"
  shows "u \<in> X"
  using assms(3,2)
  by (induction rule: rtrancl_induct) (use assms(1) in \<open>auto simp: ranked_def graph_def\<close>)

lemma ranked_acyclic:
  assumes "ranked oe X" "v \<in> X"
  shows "(v, v) \<notin> (graph oe n)\<^sup>+"
proof -
  obtain r where r: "\<And>w u. w \<in> X \<Longrightarrow> u \<in> succs oe w \<Longrightarrow> u \<in> X \<and> r u < (r w :: nat)"
    using assms(1) by (auto simp: ranked_def)
  have "u \<in> X \<and> r u < r v" if "(v, u) \<in> (graph oe n)\<^sup>+" for u
    using that by (induction rule: trancl_induct) (use r assms(2) in \<open>fastforce simp: graph_def\<close>)+
  then show ?thesis by blast
qed

lemma validate_cfg_iff:
  assumes "is \<noteq> []" and closed: "\<And>v u. (0, v) \<in> (cfg is)\<^sup>* \<Longrightarrow> (v, u) \<in> cfg is \<Longrightarrow> u < length is"
  shows "validate_cfg is = Some Cfg_Accepted \<longleftrightarrow> (\<forall>v. (0, v) \<in> (cfg is)\<^sup>* \<longrightarrow> (v, v) \<notin> (cfg is)\<^sup>+)"
proof -
  obtain r where r: "validate_cfg is = Some r" "verdict_ok (out_edges is) (length is) r"
    using validate_cfg_total [OF assms(1)] by blast
  show ?thesis
  proof (cases r)
    case Cfg_Accepted
    with r obtain X where X: "0 \<in> X" "ranked (out_edges is) X" by auto
    then have "(v, v) \<notin> (cfg is)\<^sup>+" if "(0, v) \<in> (cfg is)\<^sup>*" for v
      using that ranked_reach ranked_acyclic unfolding cfg_def by metis
    with r Cfg_Accepted show ?thesis by simp
  next
    case (Cfg_Rejected e)
    with r obtain v u where "(0, u) \<in> (cfg is)\<^sup>*" "(u, v) \<in> (cfg is)\<^sup>*" "(v, u) \<in> cfg is"
      by (auto simp: cfg_def)
    then have "(0, u) \<in> (cfg is)\<^sup>*" "(u, u) \<in> (cfg is)\<^sup>+" by (auto intro: rtrancl_into_trancl1)
    with r Cfg_Rejected show ?thesis by auto
  next
    case Cfg_Out_Of_Range
    with r obtain v u where "(0, v) \<in> (cfg is)\<^sup>*" "(v, u) \<in> cfg is" "length is \<le> u"
      by (auto simp: cfg_def)
    with closed show ?thesis by fastforce
  qed
qed

section \<open>Properties\<close>

text \<open>(C5) The second verifier stage decides the absence of loops: on a program whose control flow stays
  inside the program, it terminates and accepts exactly when no instruction that can be reached from
  the first one can be reached from itself.\<close>

theorem second_stage_exact:
  assumes "is \<noteq> []" and "\<And>v u. (0, v) \<in> (cfg is)\<^sup>* \<Longrightarrow> (v, u) \<in> cfg is \<Longrightarrow> u < length is"
  shows "(\<exists>r. validate_cfg is = Some r)
    \<and> (validate_cfg is = Some Cfg_Accepted \<longleftrightarrow> (\<forall>v. (0, v) \<in> (cfg is)\<^sup>* \<longrightarrow> (v, v) \<notin> (cfg is)\<^sup>+))"
proof
  show "\<exists>r. validate_cfg is = Some r" using validate_cfg_total [OF assms(1)] by blast
  show "validate_cfg is = Some Cfg_Accepted \<longleftrightarrow> (\<forall>v. (0, v) \<in> (cfg is)\<^sup>* \<longrightarrow> (v, v) \<notin> (cfg is)\<^sup>+)"
    using assms by (rule validate_cfg_iff)
qed

definition spin :: "ebpf_inst list" where
  "spin = [inst (opcode_of OP_JA) 0 0 (- 1) 0]"

lemma cfg_spin: "cfg spin = {(0, 0)}"
  by (auto simp: cfg_def graph_def succs_def out_edges_def spin_def jump_target_def)

theorem second_stage_exact_witness: "validate_cfg spin \<noteq> Some Cfg_Accepted"
proof
  assume acc: "validate_cfg spin = Some Cfg_Accepted"
  have ne: "spin \<noteq> []" by (simp add: spin_def)
  have "u < length spin" if "(v, u) \<in> cfg spin" for v u
    using that unfolding cfg_spin by (simp add: spin_def)
  then have "\<forall>v. (0, v) \<in> (cfg spin)\<^sup>* \<longrightarrow> (v, v) \<notin> (cfg spin)\<^sup>+"
    using acc by (intro iffD1 [OF conjunct2 [OF second_stage_exact [OF ne]]])
  then have "(0, 0) \<notin> (cfg spin)\<^sup>+" by blast
  then show False by (auto simp: cfg_spin)
qed

text \<open>A program without a final exit makes the second stage read beyond its arrays.\<close>

lemma cfg_falls_off: "validate_cfg [inst (opcode_of (OP_ALU64_IMM MOV)) 0 0 0 0] = Some Cfg_Out_Of_Range"
  by code_simp

lemma cfg_empty_program: "validate_cfg [] = Some Cfg_Out_Of_Range"
  by (simp add: validate_cfg_def)

end
