(* ===== verification/Ubpf_Run.thy ===== *)
theory Ubpf_Run
  imports Ubpf_Cfg
begin

text \<open>
  Runs of verified programs: the interpreter moves along the edges of the control-flow graph, so a
  program the first two verifier stages accept stops within as many steps as it has slots; and
  memory outside the regions the run-time bounds check admits is left alone.
\<close>

section \<open>The interpreter follows the control-flow graph\<close>

lemma unat_jump_u16:
  assumes "int t = int v + 1 + sint (off :: u16)" "t < 65536"
  shows "unat (of_nat v + 1 + off :: u16) = t"
proof -
  have "of_nat v + 1 + off = (of_int (int v + 1 + sint off) :: u16)" by simp
  also have "\<dots> = of_nat t" unfolding assms(1) [symmetric] by simp
  finally show ?thesis using assms(2) by (simp add: unat_of_nat)
qed

lemma jump_target_eq:
  assumes "int t = int v + 1 + sint off" "t < 65536"
  shows "jump_target v off = t"
proof -
  have "of_nat (v + 1) + scast off = (of_int (int v + 1 + sint off) :: u32)" by simp
  also have "\<dots> = of_nat t" unfolding assms(1) [symmetric] by simp
  finally show ?thesis using assms(2) by (simp add: jump_target_def unat_of_nat)
qed

lemma fall_through_eq: "v < 65535 \<Longrightarrow> fall_through v = Suc v"
  by (simp add: fall_through_def unat_of_nat del: of_nat_add of_nat_Suc)

lemma unat_Suc_u16: "unat (a :: u16) < 65535 \<Longrightarrow> unat (a + 1) = Suc (unat a)"
  by (simp add: unat_word_ariths)

lemma cfg_fall:
  "v < length is \<Longrightarrow> length is < 65536 \<Longrightarrow> EBPF_CLASS (opcode (is ! v)) \<noteq> EBPF_CLS_JMP \<Longrightarrow>
    (v, Suc v) \<in> cfg is"
  by (simp add: cfg_def graph_def succs_def out_edges_def Let_def fall_through_eq)

lemma cfg_jmp:
  assumes "v < length is" "length is < 65536" "opcode (is ! v) \<in> {opcode_of (OP_JMP_IMM j), opcode_of (OP_JMP_REG j)}"
    "int t = int v + 1 + sint (offset (is ! v))" "t < length is"
  shows "(v, Suc v) \<in> cfg is" "(v, t) \<in> cfg is"
  using assms by (auto simp: cfg_def graph_def succs_def out_edges_def Let_def fall_through_eq jump_target_eq)

lemma cfg_ja:
  assumes "v < length is" "length is < 65536" "opcode (is ! v) = opcode_of OP_JA"
    "int t = int v + 1 + sint (offset (is ! v))" "t < length is"
  shows "(v, t) \<in> cfg is"
  using assms by (auto simp: cfg_def graph_def succs_def out_edges_def Let_def fall_through_eq jump_target_eq)

lemma cfg_call:
  "v < length is \<Longrightarrow> length is < 65536 \<Longrightarrow> opcode (is ! v) = opcode_of OP_CALL \<Longrightarrow> (v, Suc v) \<in> cfg is"
  by (simp add: cfg_def graph_def succs_def out_edges_def Let_def fall_through_eq)

text \<open>The instructions that may follow the one at \<open>v\<close>.\<close>

fun op_next :: "ebpf_op \<Rightarrow> nat \<Rightarrow> ebpf_inst \<Rightarrow> nat list" where
  "op_next OP_JA v x = [nat (int v + 1 + sint (offset x))]"
| "op_next (OP_JMP_IMM j) v x = [Suc v, nat (int v + 1 + sint (offset x))]"
| "op_next (OP_JMP_REG j) v x = [Suc v, nat (int v + 1 + sint (offset x))]"
| "op_next OP_LDDW v x = [Suc (Suc v)]"
| "op_next OP_EXIT v x = []"
| "op_next _ v x = [Suc v]"

definition next_pcs :: "ebpf_inst list \<Rightarrow> nat \<Rightarrow> nat list" where
  "next_pcs is v = (case decode (opcode (is ! v)) of None \<Rightarrow> [Suc v] | Some p \<Rightarrow> op_next p v (is ! v))"

fun keeps_pc :: "ebpf_op \<Rightarrow> bool" where
  "keeps_pc OP_JA = False"
| "keeps_pc (OP_JMP_IMM j) = False"
| "keeps_pc (OP_JMP_REG j) = False"
| "keeps_pc OP_LDDW = False"
| "keeps_pc OP_EXIT = False"
| "keeps_pc _ = True"

text \<open>In a well-formed program a slot holds an instruction that satisfies its contract, or the opcode 0 of
  the second half of a double-word load.\<close>

lemma well_formed_cases:
  assumes "well_formed vm is" "v < length is"
  obtains (inst) p where "decode (opcode (is ! v)) = Some p" "opcode (is ! v) = opcode_of p"
      "op_ok vm is v (is ! v) p" "src (is ! v) \<le> 10" "dst (is ! v) \<le> 9 \<or> is_store p \<and> dst (is ! v) = 10"
    | (tail) "decode (opcode (is ! v)) = None" "opcode (is ! v) = 0"
proof (cases "lddw_tail is v")
  case True
  then show ?thesis by (intro tail) (simp_all add: lddw_tail_def)
next
  case False
  then have "inst_ok vm is v" using assms by (auto simp: well_formed_def)
  then show ?thesis using inst by (auto simp: inst_ok_def)
qed

lemma jump_okE:
  assumes "jump_ok is v x"
  obtains t where "int t = int v + 1 + sint (offset x)" "t < length is" "nat (int v + 1 + sint (offset x)) = t"
  using assms unfolding jump_ok_def by (metis nat_int)

lemma next_pcs_cfg:
  assumes wf: "well_formed vm is" and n: "length is < 65536" and v: "v < length is"
    and u: "u \<in> set (next_pcs is v)"
  shows "(v, u) \<in> (cfg is)\<^sup>+"
  using wf v
proof (cases rule: well_formed_cases)
  case tail
  then show ?thesis using u v n by (auto simp: next_pcs_def intro!: cfg_fall)
next
  case (inst p)
  consider "keeps_pc p" | "p = OP_JA" | j where "p = OP_JMP_IMM j \<or> p = OP_JMP_REG j" | "p = OP_LDDW" | "p = OP_EXIT"
    by (cases p) auto
  then show ?thesis
  proof cases
    case 1
    then have "u = Suc v" using u inst by (cases p) (auto simp: next_pcs_def)
    moreover have "(v, Suc v) \<in> cfg is"
    proof (cases "p = OP_CALL")
      case False
      then have "op_class p \<noteq> EBPF_CLS_JMP" using 1 by (cases p) auto
      then show ?thesis using inst v n by (intro cfg_fall) auto
    qed (use inst v n in \<open>simp add: cfg_call\<close>)
    ultimately show ?thesis by auto
  next
    case 2
    with inst have "jump_ok is v (is ! v)" by auto
    then obtain t where t: "int t = int v + 1 + sint (offset (is ! v))" "t < length is"
      "nat (int v + 1 + sint (offset (is ! v))) = t" by (rule jump_okE)
    then have "(v, t) \<in> cfg is" using inst 2 v n by (intro cfg_ja) auto
    then show ?thesis using u t inst 2 by (auto simp: next_pcs_def)
  next
    case 3
    with inst have "jump_ok is v (is ! v)" by auto
    then obtain t where t: "int t = int v + 1 + sint (offset (is ! v))" "t < length is"
      "nat (int v + 1 + sint (offset (is ! v))) = t" by (rule jump_okE)
    then have "(v, Suc v) \<in> cfg is" "(v, t) \<in> cfg is"
      using cfg_jmp [OF v n _ t(1,2), of j] inst 3 by auto
    then show ?thesis using u t inst 3 by (auto simp: next_pcs_def)
  next
    case 4
    then have tail: "Suc v < length is" "opcode (is ! Suc v) = 0" using inst by auto
    have "(v, Suc v) \<in> cfg is" using inst 4 v n by (intro cfg_fall) auto
    moreover have "(Suc v, Suc (Suc v)) \<in> cfg is" using tail n by (intro cfg_fall) auto
    ultimately show ?thesis using u inst 4 by (auto simp: next_pcs_def intro: trancl_into_trancl)
  next
    case 5
    then show ?thesis using u inst by (auto simp: next_pcs_def)
  qed
qed

lemma set_reg_pc [simp]: "pc (set_reg st r v) = pc st"
  by (simp add: set_reg_def)

lemma set_reg_memory [simp]: "memory (set_reg st r v) = memory st"
  by (simp add: set_reg_def)

lemma write_back_Step: "write_back st r x = Step st' \<longleftrightarrow> (\<exists>v. x = Inr v \<and> st' = set_reg st r v)"
  by (cases x) auto

lemma write_back_opt_Step:
  "write_back_opt st r x = Step st' \<longleftrightarrow> (\<exists>v. x = Some (Inr v) \<and> st' = set_reg st r v)"
  by (cases x) (auto simp: write_back_Step)

lemmas exec_Step_simps =
  write_back_Step write_back_opt_Step load_def store_def call_def jump_def lddw_def Let_def

lemma exec_op_keeps_pc:
  "keeps_pc p \<Longrightarrow> exec_op vm c is st x p = Step st' \<Longrightarrow> pc st' = pc st"
  by (cases p) (auto simp: exec_Step_simps split: if_splits option.splits prod.splits)

lemma exec_step_next:
  assumes wf: "well_formed vm is" and n: "length is < 65536" and v: "unat (pc st) < length is"
    and step: "exec_step vm c is st = Step st'"
  shows "unat (pc st') \<in> set (next_pcs is (unat (pc st)))"
proof -
  let ?v = "unat (pc st)" and ?st = "st\<lparr>pc := pc st + 1\<rparr>"
  let ?x = "is ! ?v"
  have Suc: "unat (pc st + 1) = Suc ?v" using v n by (intro unat_Suc_u16) simp
  have jump: "unat (pc st + 1 + offset ?x) = nat (int ?v + 1 + sint (offset ?x))" if "jump_ok is ?v ?x"
    using that n unat_jump_u16 [of _ ?v "offset ?x"] by (elim jump_okE) simp
  from wf v show ?thesis
  proof (cases rule: well_formed_cases)
    case tail
    then show ?thesis using step v Suc by (auto simp: exec_step_def Let_def next_pcs_def)
  next
    case (inst p)
    then have ex: "exec_op vm c is ?st ?x p = Step st'"
      using step v by (simp add: exec_step_def Let_def)
    consider "keeps_pc p" | "p = OP_JA" | j where "p = OP_JMP_IMM j \<or> p = OP_JMP_REG j" | "p = OP_LDDW"
      using ex by (cases p) auto
    then show ?thesis
    proof cases
      case 1
      then have "pc st' = pc st + 1" using exec_op_keeps_pc [OF _ ex] by simp
      then show ?thesis using 1 inst Suc by (cases p) (auto simp: next_pcs_def)
    next
      case 2
      then show ?thesis using ex inst jump by (auto simp: jump_def next_pcs_def)
    next
      case 3
      then show ?thesis using ex inst jump Suc by (auto simp: jump_def next_pcs_def split: if_splits)
    next
      case 4
      then have "pc st' = pc st + 1 + 1" "Suc ?v < length is" using ex inst by (auto simp: lddw_def split: if_splits)
      moreover from this(2) have "unat (pc st + 1 + 1) = Suc (Suc ?v)"
        using Suc n by (subst unat_Suc_u16) auto
      ultimately show ?thesis using inst 4 by (simp add: next_pcs_def)
    qed
  qed
qed

lemma exec_step_cfg:
  assumes "well_formed vm is" "length is < 65536" "unat (pc st) < length is" "exec_step vm c is st = Step st'"
  shows "(unat (pc st), unat (pc st')) \<in> (cfg is)\<^sup>+"
  using next_pcs_cfg [OF assms(1-3) exec_step_next [OF assms]] .

section \<open>Bounded execution\<close>

text \<open>The interpreter loop cut off after a number of instructions; \<open>None\<close> when it has not finished.\<close>

fun exec_bounded ::
  "nat \<Rightarrow> ubpf_vm \<Rightarrow> exec_ctx \<Rightarrow> ebpf_inst list \<Rightarrow> exec_state \<Rightarrow> (fault + u64 \<times> heap) option" where
  "exec_bounded 0 vm c is st = None"
| "exec_bounded (Suc k) vm c is st =
     (case exec_step vm c is st of
        Undefined f \<Rightarrow> Some (Inl f)
      | Return v h \<Rightarrow> Some (Inr (v, h))
      | Step st' \<Rightarrow> exec_bounded k vm c is st')"

lemma exec_bounded_loop:
  "exec_bounded k vm c is st = Some r \<Longrightarrow> exec_loop vm c is st = Some r"
proof (induction k arbitrary: st)
  case 0
  then show ?case by simp
next
  case (Suc k)
  then show ?case by (subst exec_loop.simps) (auto split: exec_out.splits)
qed

text \<open>The undefined outcomes a well-formed program can still reach.\<close>

definition residual_fault :: "ebpf_inst list \<Rightarrow> fault \<Rightarrow> bool" where
  "residual_fault is f \<longleftrightarrow>
     (\<exists>i < length is. \<exists>p. opcode (is ! i) = opcode_of p \<and> reg_shift_or_div p f)"

lemma exec_step_fault:
  assumes "vm_wf vm" "well_formed vm is" "length is < 65536" "unat (pc st) < length is"
    and "exec_step vm c is st = Undefined f"
  shows "residual_fault is f"
proof -
  let ?v = "unat (pc st)"
  from assms(4,5) obtain p where p: "opcode (is ! ?v) = opcode_of p"
    and ex: "exec_op vm c is (st\<lparr>pc := pc st + 1\<rparr>) (is ! ?v) p = Undefined f"
    by (auto simp: exec_step_def Let_def decode_Some split: option.splits)
  have "\<not> lddw_tail is ?v" using p by (simp add: lddw_tail_def)
  then have "inst_ok vm is ?v" using assms(2,4) by (auto simp: well_formed_def)
  then have "op_ok vm is ?v (is ! ?v) p" using p by (auto simp: inst_ok_def)
  moreover have "unat (pc st + 1) = Suc ?v" using assms(3,4) by (intro unat_Suc_u16) simp
  ultimately have "reg_shift_or_div p f" using exec_op_Undefined [OF assms(1) _ _ ex] by simp
  with p assms(4) show ?thesis by (auto simp: residual_fault_def)
qed

lemma ranked_run:
  assumes wf: "vm_wf vm" "well_formed vm is" "length is < 65536"
    and X: "X \<subseteq> {..<length is}"
    and r: "\<And>v u. v \<in> X \<Longrightarrow> (v, u) \<in> cfg is \<Longrightarrow> u \<in> X \<and> r u < (r v :: nat)"
  shows "unat (pc st) \<in> X \<Longrightarrow> r (unat (pc st)) < k \<Longrightarrow>
    \<exists>res. exec_bounded k vm c is st = Some res \<and> (\<forall>f. res = Inl f \<longrightarrow> residual_fault is f)"
proof (induction k arbitrary: st)
  case 0
  then show ?case by simp
next
  case (Suc k)
  let ?v = "unat (pc st)"
  have v: "?v < length is" using Suc.prems X by blast
  show ?case
  proof (cases "exec_step vm c is st")
    case (Step st')
    have "(?v, unat (pc st')) \<in> (cfg is)\<^sup>+" using exec_step_cfg [OF wf(2,3) v Step] .
    then have "unat (pc st') \<in> X \<and> r (unat (pc st')) < r ?v"
      by (induction rule: trancl_induct) (use r Suc.prems(1) in force)+
    then show ?thesis using Suc.IH [of st'] Suc.prems(2) Step by simp
  next
    case (Return v h)
    then show ?thesis by simp
  next
    case (Undefined f)
    then show ?thesis using exec_step_fault [OF wf v] by simp
  qed
qed

text \<open>An accepted program has a set of instructions, closed under the control flow from the first one, on
  which a rank decreases along every edge.\<close>

lemma accepted_ranked:
  assumes "validate_cfg is = Some Cfg_Accepted"
  obtains X r where "0 \<in> X" "X \<subseteq> {..<length is}" "r 0 < length is"
    "\<forall>v u. v \<in> X \<longrightarrow> (v, u) \<in> cfg is \<longrightarrow> u \<in> X \<and> r u < (r v :: nat)"
proof -
  have "is \<noteq> []" using assms by (auto simp: validate_cfg_def)
  then have "verdict_ok (out_edges is) (length is) Cfg_Accepted"
    using validate_cfg_total assms by fastforce
  then obtain X r where X: "0 \<in> X" "X \<subseteq> {..<length is}"
    and r: "\<forall>v \<in> X. r v < card X \<and> (\<forall>u \<in> succs (out_edges is) v. u \<in> X \<and> r u < (r v :: nat))"
    unfolding verdict_ok.simps ranked_def by blast
  have "card X \<le> length is" using card_mono [OF _ X(2)] by simp
  with r X(1) have "r 0 < length is" by fastforce
  moreover have "\<forall>v u. v \<in> X \<longrightarrow> (v, u) \<in> cfg is \<longrightarrow> u \<in> X \<and> r u < r v"
    using r by (auto simp: cfg_def graph_def)
  ultimately show ?thesis using that X by blast
qed

lemma accepted_runs:
  assumes wf: "vm_wf vm" "length is < 65536"
    and acc: "validate_instructions vm is = Inr ()" "validate_cfg is = Some Cfg_Accepted"
    and st: "pc st = 0"
  shows "\<exists>res. exec_bounded (length is) vm c is st = Some res \<and> (\<forall>f. res = Inl f \<longrightarrow> residual_fault is f)"
proof -
  obtain X r where X: "0 \<in> X" "X \<subseteq> {..<length is}" "r 0 < length is"
    and r: "\<forall>v u. v \<in> X \<longrightarrow> (v, u) \<in> cfg is \<longrightarrow> u \<in> X \<and> r u < (r v :: nat)"
    using accepted_ranked [OF acc(2)] by blast
  have "well_formed vm is" using acc(1) by (simp add: validate_instructions_iff)
  then show ?thesis using ranked_run [OF wf(1) _ wf(2) X(2), of r] r X st by simp
qed

section \<open>Memory safety\<close>

text \<open>The memory a run may touch: the region it was given and its stack.\<close>

definition region :: "exec_ctx \<Rightarrow> u64 set" where
  "region c = {a. mem c \<noteq> 0 \<and> unat (mem c) \<le> unat a \<and> unat a < unat (mem c) + unat (mem_len c)}
     \<union> {a. unat (stack c) \<le> unat a \<and> unat a < unat (stack c) + STACK_SIZE}"

text \<open>The last bytes of the address space and the first ones, where the sum in the bounds check wraps.\<close>

definition wrap_zone :: "u64 set" where
  "wrap_zone = {a. unat a < 7 \<or> 2 ^ 64 - 8 \<le> unat a}"

definition ctx_ok :: "exec_ctx \<Rightarrow> bool" where
  "ctx_ok c \<longleftrightarrow> unat (mem c) + unat (mem_len c) < 2 ^ 64 \<and> unat (stack c) + STACK_SIZE < 2 ^ 64"

lemma unat_add_nowrap: "unat (a :: u64) + i < 2 ^ 64 \<Longrightarrow> unat (a + of_nat i) = unat a + i"
  by (simp add: unat_word_ariths unat_of_nat)

lemma unat_add_wrap:
  "i \<le> 8 \<Longrightarrow> 2 ^ 64 \<le> unat (a :: u64) + i \<Longrightarrow> unat (a + of_nat i) = unat a + i - 2 ^ 64"
proof -
  assume i: "i \<le> 8" and w: "2 ^ 64 \<le> unat a + i"
  have "unat a < 2 ^ 64" using unsigned_less [of a] by simp
  with i w have "(unat a + i) mod 2 ^ 64 = unat a + i - 2 ^ 64"
    by (simp add: mod_if)
  then show ?thesis using i by (simp add: unat_word_ariths unat_of_nat)
qed

lemma bounds_check_touched:
  assumes "ctx_ok c" "sz \<le> 8" "bounds_check addr sz c" "x \<in> touched addr sz"
  shows "x \<in> region c \<union> wrap_zone"
proof -
  obtain i where i: "i < sz" "x = addr + of_nat i" using assms(4) by (auto simp: touched_def)
  show ?thesis
  proof (cases "unat addr + sz < 2 ^ 64")
    case True
    then have "unat (addr + of_nat sz) = unat addr + sz" "unat x = unat addr + i"
      using i by (simp_all add: unat_add_nowrap)
    moreover have "unat (mem c + mem_len c) = unat (mem c) + unat (mem_len c)"
      "unat (stack c + of_nat STACK_SIZE) = unat (stack c) + STACK_SIZE"
      using assms(1) unat_add_nowrap [of "mem c" "unat (mem_len c)"] unat_add_nowrap [of "stack c" STACK_SIZE]
      by (simp_all add: ctx_ok_def)
    ultimately show ?thesis using assms(3) i(1)
      by (auto simp: bounds_check_def region_def word_le_nat_alt)
  next
    case False
    have "unat addr < 2 ^ 64" using unsigned_less [of addr] by simp
    then show ?thesis
    proof (cases "unat addr + i < 2 ^ 64")
      case True
      then have "unat x = unat addr + i" using i by (simp add: unat_add_nowrap)
      with False assms(2) i(1) show ?thesis by (simp add: wrap_zone_def)
    next
      case wrap: False
      then have "unat x = unat addr + i - 2 ^ 64" using i assms(2) by (simp add: unat_add_wrap)
      then have "unat x < 7" using \<open>unat addr < 2 ^ 64\<close> wrap i(1) assms(2) by linarith
      then show ?thesis by (simp add: wrap_zone_def)
    qed
  qed
qed

text \<open>External functions change memory only in \<open>A\<close>.\<close>

definition funcs_frame :: "ubpf_vm \<Rightarrow> u64 set \<Rightarrow> bool" where
  "funcs_frame vm A \<longleftrightarrow> (\<forall>p \<in> set (ext_funcs vm). \<forall>f. func p = Some f \<longrightarrow>
     (\<forall>a1 a2 a3 a4 a5 h x. x \<notin> A \<longrightarrow> snd (f a1 a2 a3 a4 a5 h) x = h x))"

lemma size_of_le [simp]: "size_of z \<le> 8"
  by (cases z) auto

lemma exec_op_frame:
  assumes c: "ctx_ok c" and A: "funcs_frame vm A" and x: "x \<notin> region c \<union> wrap_zone \<union> A"
  shows "exec_op vm c is st i p = Step st' \<Longrightarrow> memory st' x = memory st x"
    and "exec_op vm c is st i p = Return v h \<Longrightarrow> h x = memory st x"
proof -
  have st: "memory st' x = memory st x" if "store c st i (size_of z) w = Step st'" for z w
    using that x bounds_check_touched [OF c size_of_le, of "reg st (dst i) + scast (offset i)" z x]
    by (force simp: store_def Let_def intro!: store_le_other split: if_splits)
  have ca: "memory st' x = memory st x" if call: "call vm st i = Step st'"
  proof -
    let ?k = "nat (sint (imm i))"
    from call obtain f where k: "?k < length (ext_funcs vm)" and f: "func (ext_funcs vm ! ?k) = Some f"
      and m: "memory st' = snd (f (reg st 1) (reg st 2) (reg st 3) (reg st 4) (reg st 5) (memory st))"
      by (auto simp: call_def split: if_splits option.splits prod.splits)
    have "ext_funcs vm ! ?k \<in> set (ext_funcs vm)" using k by simp
    with A f m x show ?thesis by (auto simp: funcs_frame_def)
  qed
  show "memory st' x = memory st x" if "exec_op vm c is st i p = Step st'"
    using that st ca
    by (cases p) (auto simp: write_back_Step write_back_opt_Step load_def jump_def lddw_def Let_def split: if_splits)
  have wb: "write_back st r y \<noteq> Return v h" for r y by (cases y) auto
  have wbo: "write_back_opt st r y = Return v h \<Longrightarrow> h = memory st" for r y
    using wb by (cases y) auto
  show "h x = memory st x" if "exec_op vm c is st i p = Return v h"
    using that wb
    by (cases p) (auto simp: load_def store_def call_def jump_def lddw_def Let_def dest!: wbo
        split: if_splits option.splits prod.splits)
qed

lemma exec_step_frame:
  assumes "ctx_ok c" "funcs_frame vm A" "x \<notin> region c \<union> wrap_zone \<union> A"
  shows "exec_step vm c is st = Step st' \<Longrightarrow> memory st' x = memory st x"
    and "exec_step vm c is st = Return v h \<Longrightarrow> h x = memory st x"
  using exec_op_frame [OF assms, of "is" "st\<lparr>pc := pc st + 1\<rparr>" "is ! unat (pc st)"]
  by (auto simp: exec_step_def Let_def split: if_splits option.splits)

lemma exec_loop_frame:
  assumes "ctx_ok c" "funcs_frame vm A" "x \<notin> region c \<union> wrap_zone \<union> A"
    and ret: "exec_loop vm c is st = Some res"
  shows "\<forall>v h. res = Inr (v, h) \<longrightarrow> h x = memory st x"
proof (rule exec_loop.raw_induct
    [where P = "\<lambda>vm' c' is' st res. vm' = vm \<longrightarrow> c' = c \<longrightarrow> is' = is \<longrightarrow>
        (\<forall>v h. res = Inr (v, h) \<longrightarrow> h x = memory st x)", OF _ ret, THEN mp, THEN mp, THEN mp, OF _ refl refl refl])
  fix loop vm' c' is' st res
  assume IH: "\<And>vm' c' is' st res. loop vm' c' is' st = Some res \<Longrightarrow> vm' = vm \<longrightarrow> c' = c \<longrightarrow> is' = is \<longrightarrow>
      (\<forall>v h. res = Inr (v, h) \<longrightarrow> h x = memory st x)"
    and eq: "(case exec_step vm' c' is' st of Step st' \<Rightarrow> loop vm' c' is' st'
      | Return v h \<Rightarrow> Some (Inr (v, h)) | Undefined f \<Rightarrow> Some (Inl f)) = Some res"
  show "vm' = vm \<longrightarrow> c' = c \<longrightarrow> is' = is \<longrightarrow> (\<forall>v h. res = Inr (v, h) \<longrightarrow> h x = memory st x)"
  proof (intro impI allI)
    fix v h
    assume p: "vm' = vm" "c' = c" "is' = is" "res = Inr (v, h)"
    show "h x = memory st x"
    proof (cases "exec_step vm c is st")
      case (Step st')
      then show ?thesis using eq p IH [of vm c "is" st' res] exec_step_frame(1) [OF assms(1-3) Step] by simp
    next
      case (Return v' h')
      then show ?thesis using eq p exec_step_frame(2) [OF assms(1-3) Return] by simp
    qed (use eq p in simp)
  qed
qed

lemma bounds_check_wraps: "bounds_check UINT64_MAX 1 c"
  by (simp add: bounds_check_def)

end
