(* ===== verification/Ubpf_Range.thy ===== *)
theory Ubpf_Range
  imports Ubpf_Run
begin

text \<open>
  The abstract registers of the third verifier stage in \<^verbatim>\<open>ubpf_vm.c\<close>: a register has a type, the map
  it points to or into, and signed and unsigned bounds.  Signed bounds are 64-bit words read in two's
  complement.  The theory holds the marking functions, the refinement of bounds at conditional jumps
  and the bounds of arithmetic results, and shows which of them keep the values of the register
  inside its bounds.
\<close>

section \<open>Register states\<close>

abbreviation UNINIT :: u32 where "UNINIT \<equiv> 0"
abbreviation UNKNOWN :: u32 where "UNKNOWN \<equiv> 1"
abbreviation NULL_VALUE :: u32 where "NULL_VALUE \<equiv> 2"
abbreviation IMM :: u32 where "IMM \<equiv> 4"
abbreviation MAP_PTR :: u32 where "MAP_PTR \<equiv> 8"
abbreviation MAP_VALUE_PTR :: u32 where "MAP_VALUE_PTR \<equiv> 16"
abbreviation PKT_PTR :: u32 where "PKT_PTR \<equiv> 32"
abbreviation PKT_SIZE :: u32 where "PKT_SIZE \<equiv> 64"
abbreviation STACK_PTR :: u32 where "STACK_PTR \<equiv> 128"
abbreviation CTX_PTR :: u32 where "CTX_PTR \<equiv> 256"

abbreviation INT64_MAX :: u64 where "INT64_MAX \<equiv> 0x7fffffffffffffff"
abbreviation INT64_MIN :: u64 where "INT64_MIN \<equiv> 0x8000000000000000"

record bpf_reg_state =
  reg_type :: u32
  reg_map :: u64
  s_min :: u64
  s_max :: u64
  u_min :: u64
  u_max :: u64

definition mark_bpf_reg_as_unknown :: "bpf_reg_state \<Rightarrow> bpf_reg_state" where
  "mark_bpf_reg_as_unknown r = r\<lparr>reg_type := UNKNOWN, u_max := UINT64_MAX, u_min := 0,
     s_max := INT64_MAX, s_min := INT64_MIN, reg_map := 0\<rparr>"

definition mark_bpf_reg_as_imm :: "bpf_reg_state \<Rightarrow> u32 \<Rightarrow> bpf_reg_state" where
  "mark_bpf_reg_as_imm r val = r\<lparr>reg_type := IMM, s_min := scast val, s_max := scast val,
     u_min := scast val, u_max := scast val, reg_map := 0\<rparr>"

text \<open>\<^verbatim>\<open>MAX\<close> and \<^verbatim>\<open>MIN\<close> at type \<^verbatim>\<open>int64_t\<close>; at type \<^verbatim>\<open>uint64_t\<close> they are \<open>max\<close> and \<open>min\<close>.\<close>

definition smax64 :: "u64 \<Rightarrow> u64 \<Rightarrow> u64" where
  "smax64 a b = (if b <s a then a else b)"

definition smin64 :: "u64 \<Rightarrow> u64 \<Rightarrow> u64" where
  "smin64 a b = (if a <s b then a else b)"

text \<open>In \<^verbatim>\<open>MIN(mask >> 1, reg->s.max)\<close> the mask is unsigned, so the comparison is.\<close>

definition handle_min_max_overflows :: "bpf_reg_state \<Rightarrow> u64 \<Rightarrow> bpf_reg_state" where
  "handle_min_max_overflows r msk =
     (let r' = (if u_min r AND msk \<noteq> u_min r \<or> u_max r AND msk \<noteq> u_max r
                then r\<lparr>u_max := max msk (u_max r), u_min := 0\<rparr> else r) in
      r'\<lparr>s_max := min (drop_bit 1 msk) (s_max r'),
         s_min := smax64 (drop_bit 1 msk XOR UINT64_MAX) (s_min r')\<rparr>)"

section \<open>Ranges after a conditional jump\<close>

definition set_const :: "bpf_reg_state \<Rightarrow> u64 \<Rightarrow> bpf_reg_state" where
  "set_const r val = r\<lparr>s_min := val, s_max := val, u_min := val, u_max := val\<rparr>"

text \<open>The packet range remembered from a register that holds the packet size.\<close>

definition raise_range :: "bpf_reg_state \<Rightarrow> u64 \<Rightarrow> u64" where
  "raise_range r p = (if reg_type r = PKT_SIZE \<and> u_min r > p then u_min r else p)"

text \<open>The new ranges of the register where the jump is taken and where it is not, each with the packet
  range of its branch.\<close>

definition update_min_max_jump_imm ::
  "bpf_reg_state \<Rightarrow> u64 \<Rightarrow> bpf_reg_state \<Rightarrow> u64 \<Rightarrow> u8 \<Rightarrow> u64
   \<Rightarrow> (bpf_reg_state \<times> u64) \<times> (bpf_reg_state \<times> u64)" where
  "update_min_max_jump_imm t tp f fp opc val =
     (let (t, f) =
        (if opc = jmp_code JEQ then (set_const t val, f)
         else if opc = jmp_code JGT then (t\<lparr>u_min := val + 1\<rparr>, f\<lparr>u_max := val\<rparr>)
         else if opc = jmp_code JGE then (t\<lparr>u_min := val\<rparr>, f\<lparr>u_max := val - 1\<rparr>)
         else if opc = jmp_code JNE then (t, set_const f val)
         else if opc = jmp_code JSGT then (t\<lparr>s_min := val + 1\<rparr>, f\<lparr>s_max := val\<rparr>)
         else if opc = jmp_code JSGE then (t\<lparr>s_min := val\<rparr>, f\<lparr>s_max := val - 1\<rparr>)
         else (t, f))
      in ((t, raise_range t tp), (f, raise_range f fp)))"

definition update_min_max_jump_imm_inv ::
  "bpf_reg_state \<Rightarrow> u64 \<Rightarrow> bpf_reg_state \<Rightarrow> u64 \<Rightarrow> u8 \<Rightarrow> u64
   \<Rightarrow> (bpf_reg_state \<times> u64) \<times> (bpf_reg_state \<times> u64)" where
  "update_min_max_jump_imm_inv t tp f fp opc val =
     (let (t, f) =
        (if opc = jmp_code JEQ then (set_const t val, f)
         else if opc = jmp_code JGT then (t\<lparr>u_max := val - 1\<rparr>, f\<lparr>u_min := val\<rparr>)
         else if opc = jmp_code JGE then (t\<lparr>u_max := val\<rparr>, f\<lparr>u_min := val + 1\<rparr>)
         else if opc = jmp_code JNE then (t, set_const f val)
         else if opc = jmp_code JSGT then (t\<lparr>s_max := val - 1\<rparr>, f\<lparr>s_min := val\<rparr>)
         else if opc = jmp_code JSGE then (t\<lparr>s_max := val\<rparr>, f\<lparr>s_min := val + 1\<rparr>)
         else (t, f))
      in ((t, raise_range t tp), (f, raise_range f fp)))"

text \<open>Two registers.  The two registers of a branch may be the same one, so each assignment is an
  update of the branch's register file that later ones read.\<close>

type_synonym reg_file = "4 word \<Rightarrow> bpf_reg_state"

definition ranges_intersect :: "bpf_reg_state \<Rightarrow> bpf_reg_state \<Rightarrow> bool" where
  "ranges_intersect r1 r2 \<longleftrightarrow>
     ((s_min r2 <=s s_min r1 \<and> s_min r1 <=s s_max r2) \<or> (s_min r2 <=s s_max r1 \<and> s_max r1 <=s s_max r2)
      \<or> (s_min r1 <=s s_min r2 \<and> s_min r2 <=s s_max r1))
     \<and> ((u_min r2 \<le> u_min r1 \<and> u_min r1 \<le> u_max r2) \<or> (u_min r2 \<le> u_max r1 \<and> u_max r1 \<le> u_max r2)
      \<or> (u_min r1 \<le> u_min r2 \<and> u_min r2 \<le> u_max r1))"

definition intersect_signed :: "reg_file \<Rightarrow> 4 word \<Rightarrow> 4 word \<Rightarrow> reg_file" where
  "intersect_signed R d s =
     (let R1 = R(d := (R d)\<lparr>s_min := smax64 (s_min (R d)) (s_min (R s)),
                            s_max := smin64 (s_max (R d)) (s_max (R s))\<rparr>)
      in R1(s := (R1 s)\<lparr>s_min := s_min (R1 d), s_max := s_max (R1 d)\<rparr>))"

definition upd :: "reg_file \<Rightarrow> 4 word \<Rightarrow> (bpf_reg_state \<Rightarrow> bpf_reg_state) \<Rightarrow> reg_file" where
  "upd R r g = R(r := g (R r))"

definition raise_ranges :: "reg_file \<Rightarrow> 4 word \<Rightarrow> 4 word \<Rightarrow> u64 \<Rightarrow> u64" where
  "raise_ranges R d s p = raise_range (R s) (raise_range (R d) p)"

definition update_min_max_jump_reg ::
  "reg_file \<Rightarrow> u64 \<Rightarrow> reg_file \<Rightarrow> u64 \<Rightarrow> 4 word \<Rightarrow> 4 word \<Rightarrow> u8
   \<Rightarrow> int \<times> (reg_file \<times> u64) \<times> (reg_file \<times> u64)" where
  "update_min_max_jump_reg T tp F fp d s opc =
     (let fin = (\<lambda>T F. (0, (T, raise_ranges T d s tp), (F, raise_ranges F d s fp))) in
      if opc = jmp_code JEQ then
        (if \<not> ranges_intersect (T d) (T s) then (-1, (T, tp), (F, fp)) else fin (intersect_signed T d s) F)
      else if opc = jmp_code JGT then
        (let T1 = upd T d (\<lambda>r. r\<lparr>u_min := max (u_min r) (u_min (T s) + 1)\<rparr>);
             T2 = upd T1 s (\<lambda>r. r\<lparr>u_max := min (u_max (T1 d) - 1) (u_max r)\<rparr>);
             F1 = upd F d (\<lambda>r. r\<lparr>u_max := min (u_max r) (u_max (F s))\<rparr>);
             F2 = upd F1 s (\<lambda>r. r\<lparr>u_min := max (u_min (F1 d)) (u_min r)\<rparr>) in fin T2 F2)
      else if opc = jmp_code JGE then
        (let T1 = upd T d (\<lambda>r. r\<lparr>u_min := max (u_min r) (u_min (T s))\<rparr>);
             T2 = upd T1 s (\<lambda>r. r\<lparr>u_max := min (u_max (T1 d)) (u_max r)\<rparr>);
             F1 = upd F d (\<lambda>r. r\<lparr>u_max := min (u_max r) (u_max (F s) - 1)\<rparr>);
             F2 = upd F1 s (\<lambda>r. r\<lparr>u_min := max (u_min (F1 d) + 1) (u_min r)\<rparr>) in fin T2 F2)
      else if opc = jmp_code JNE then
        (if \<not> ranges_intersect (F d) (F s) then (-1, (T, tp), (F, fp)) else fin T (intersect_signed F d s))
      else if opc = jmp_code JSGT then
        (let T1 = upd T d (\<lambda>r. r\<lparr>s_min := smax64 (s_min r) (s_min (T s) + 1)\<rparr>);
             T2 = upd T1 s (\<lambda>r. r\<lparr>s_max := smin64 (s_max (T1 d) - 1) (s_max r)\<rparr>);
             F1 = upd F d (\<lambda>r. r\<lparr>s_max := smin64 (s_max r) (s_max (F s))\<rparr>);
             F2 = upd F1 s (\<lambda>r. r\<lparr>s_min := smax64 (s_min (F1 d)) (s_min r)\<rparr>) in fin T2 F2)
      else if opc = jmp_code JSGE then
        (let T1 = upd T d (\<lambda>r. r\<lparr>s_min := smax64 (s_min r) (s_min (T s))\<rparr>);
             T2 = upd T1 s (\<lambda>r. r\<lparr>s_max := smin64 (s_max (T1 d)) (s_max r)\<rparr>);
             F1 = upd F d (\<lambda>r. r\<lparr>s_max := smin64 (s_max r) (s_max (F s) - 1)\<rparr>);
             F2 = upd F1 s (\<lambda>r. r\<lparr>s_min := smax64 (s_min (F1 d) + 1) (s_min r)\<rparr>)
         in (0, (T2, tp), (F2, fp)))
      else fin T F)"


section \<open>Ranges after an arithmetic instruction\<close>

text \<open>Shifts of 64-bit values, undefined when the count reaches the width, and the number of leading
  zero bits, undefined at 0.  \<open>None\<close> is undefined behaviour of the verifier itself.\<close>

definition shr_opt :: "u64 \<Rightarrow> u64 \<Rightarrow> u64 option" where
  "shr_opt v n = (if unat n < 64 then Some (drop_bit (unat n) v) else None)"

definition shl_opt :: "u64 \<Rightarrow> u64 \<Rightarrow> u64 option" where
  "shl_opt v n = (if unat n < 64 then Some (push_bit (unat n) v) else None)"

definition sar_opt :: "u64 \<Rightarrow> u64 \<Rightarrow> u64 option" where
  "sar_opt v n = (if unat n < 64 then Some (signed_drop_bit (unat n) v) else None)"

definition leading_zeros :: "u64 \<Rightarrow> nat \<Rightarrow> nat" where
  "leading_zeros v n = length (takeWhile (\<lambda>i. \<not> bit v i) (rev [0..<n]))"

definition clzll :: "u64 \<Rightarrow> u64 option" where
  "clzll v = (if v = 0 then None else Some (of_nat (leading_zeros v 64)))"

definition compute_bitwise_and_bound :: "u64 \<Rightarrow> u64 \<Rightarrow> u64 \<Rightarrow> u64 option" where
  "compute_bitwise_and_bound a b opsize =
     (case (clzll a, clzll b) of
        (Some m, Some n) \<Rightarrow> shr_opt UINT64_MAX (64 - (opsize - max m n))
      | _ \<Rightarrow> None)"

definition compute_bitwise_or_bound :: "u64 \<Rightarrow> u64 \<Rightarrow> u64 \<Rightarrow> u64 option" where
  "compute_bitwise_or_bound a b opsize =
     (case (clzll a, clzll b) of
        (Some m, Some n) \<Rightarrow> shr_opt UINT64_MAX (64 - (opsize - min m n))
      | _ \<Rightarrow> None)"

definition top_unsigned :: "u64 \<Rightarrow> u64 \<Rightarrow> bpf_reg_state \<Rightarrow> bpf_reg_state" where
  "top_unsigned msk nr_max d = d\<lparr>u_max := max msk nr_max, u_min := 0\<rparr>"

definition top_signed :: "u64 \<Rightarrow> bpf_reg_state \<Rightarrow> bpf_reg_state" where
  "top_signed msk d = d\<lparr>s_max := drop_bit 1 msk, s_min := drop_bit 1 msk XOR UINT64_MAX\<rparr>"

text \<open>Whether both operands are known exactly, by their unsigned and by their signed bounds.\<close>

definition const_unsigned :: "bpf_reg_state \<Rightarrow> bpf_reg_state \<Rightarrow> bool" where
  "const_unsigned d s \<longleftrightarrow> u_min d = u_max d \<and> u_min s = u_max s"

definition const_signed :: "bpf_reg_state \<Rightarrow> bpf_reg_state \<Rightarrow> bool" where
  "const_signed d s \<longleftrightarrow> s_min d = s_max d \<and> s_min s = s_max s"

text \<open>The cases of the \<^verbatim>\<open>switch\<close>.  Sums of signed bounds wrap, as two's complement does.\<close>

definition signed_add_overflow :: "u64 \<Rightarrow> u64 \<Rightarrow> u64 \<Rightarrow> bool" where
  "signed_add_overflow a c n \<longleftrightarrow> (c <s 0 \<and> a <s n) \<or> n <s a"

definition signed_sub_overflow :: "u64 \<Rightarrow> u64 \<Rightarrow> u64 \<Rightarrow> bool" where
  "signed_sub_overflow a c n \<longleftrightarrow> (c <s 0 \<and> n <s a) \<or> a <s n"

definition range_add :: "u64 \<Rightarrow> bpf_reg_state \<Rightarrow> bpf_reg_state \<Rightarrow> bpf_reg_state" where
  "range_add msk d s =
     (let nr = d\<lparr>u_min := (u_min d + u_min s) AND msk, u_max := (u_max d + u_max s) AND msk,
                 s_min := (s_min d + s_min s) AND msk, s_max := (s_max d + s_max s) AND msk\<rparr>;
          nr = (if (u_min nr < u_min d \<or> u_max nr < u_max d) \<and> \<not> const_unsigned d s
                then top_unsigned msk (u_max nr) nr else nr)
      in if (signed_add_overflow (s_min d) (s_min s) (s_min nr)
             \<or> signed_add_overflow (s_max d) (s_max s) (s_max nr)) \<and> \<not> const_signed d s
         then top_signed msk nr else nr)"

definition range_sub :: "u64 \<Rightarrow> bpf_reg_state \<Rightarrow> bpf_reg_state \<Rightarrow> bpf_reg_state" where
  "range_sub msk d s =
     (let nr = d\<lparr>u_min := (u_min d - u_min s) AND msk, u_max := (u_max d - u_max s) AND msk,
                 s_min := (s_min d - s_min s) AND msk, s_max := (s_max d - s_max s) AND msk\<rparr>;
          nr = (if (u_min nr > u_min d \<or> u_max nr > u_max d) \<and> \<not> const_unsigned d s
                then top_unsigned msk (u_max nr) nr else nr)
      in if (signed_sub_overflow (s_min d) (s_min s) (s_min nr)
             \<or> signed_sub_overflow (s_max d) (s_max s) (s_max nr)) \<and> \<not> const_signed d s
         then top_signed msk nr else nr)"

definition range_mul ::
  "u64 \<Rightarrow> u64 \<Rightarrow> u64 \<Rightarrow> bpf_reg_state \<Rightarrow> bpf_reg_state \<Rightarrow> bpf_reg_state option" where
  "range_mul msk opsize nr_max d s =
     (let u = (if const_unsigned d s
               then Some (d\<lparr>u_min := (u_min d * u_min s) AND msk, u_max := (u_max d * u_max s) AND msk\<rparr>)
               else if u_max d \<le> drop_bit (unat opsize div 2) msk
               then (case shr_opt msk opsize of
                       None \<Rightarrow> None
                     | Some b \<Rightarrow>
                         Some (if u_max s \<le> b
                               then d\<lparr>u_max := u_max d * u_max s, u_min := u_min d * u_min d\<rparr>
                               else top_unsigned msk nr_max d))
               else Some (top_unsigned msk nr_max d))
      in map_option (\<lambda>d.
           if const_signed d s
           then d\<lparr>s_min := (s_min d * s_min s) AND msk, s_max := (s_max d * s_max s) AND msk\<rparr>
           else if 0 <=s s_min d \<and> 0 <=s s_min s
           then d\<lparr>s_max := s_max d * s_max s, s_min := s_min d * s_min d\<rparr>
           else top_signed msk d) u)"

text \<open>The common shape of the bitwise cases: the operation itself on the lower bounds and on known
  operands, and a bound function for the rest.\<close>

definition range_bitwise ::
  "(u64 \<Rightarrow> u64 \<Rightarrow> u64) \<Rightarrow> (u64 \<Rightarrow> u64 \<Rightarrow> u64 \<Rightarrow> u64 option) \<Rightarrow> u64 \<Rightarrow> u64
   \<Rightarrow> bpf_reg_state \<Rightarrow> bpf_reg_state \<Rightarrow> bpf_reg_state option" where
  "range_bitwise f bound msk opsize d s =
     (let u = (if const_unsigned d s
               then Some (d\<lparr>u_min := f (u_min d) (u_min s), u_max := f (u_max d) (u_max s)\<rparr>)
               else map_option (\<lambda>b. d\<lparr>u_max := b, u_min := f (u_min d) (u_min s)\<rparr>)
                      (bound (u_max d) (u_max s) opsize))
      in case u of
           None \<Rightarrow> None
         | Some d \<Rightarrow>
             if const_signed d s
             then Some (d\<lparr>s_min := f (s_min d) (s_min s), s_max := f (s_max d) (s_max s)\<rparr>)
             else if 0 <=s s_min d \<or> 0 <=s s_min s
             then map_option (\<lambda>b. d\<lparr>s_max := b, s_min := f (s_min d) (s_min s)\<rparr>)
                    (bound (s_max d AND drop_bit 1 msk) (s_max s AND drop_bit 1 msk) opsize)
             else Some (top_signed msk d))"

definition shift_both ::
  "(u64 \<Rightarrow> u64 \<Rightarrow> u64 option) \<Rightarrow> bpf_reg_state \<Rightarrow> u64 \<Rightarrow> u64 \<Rightarrow> (u64 \<times> u64) option" where
  "shift_both f s lo hi =
     (case (f lo (u_min s), f hi (u_max s)) of (Some l, Some h) \<Rightarrow> Some (l, h) | _ \<Rightarrow> None)"

definition range_lsh ::
  "u64 \<Rightarrow> u64 \<Rightarrow> u64 \<Rightarrow> bpf_reg_state \<Rightarrow> bpf_reg_state \<Rightarrow> bpf_reg_state option" where
  "range_lsh msk opsize nr_max d s =
     (if u_max s \<ge> opsize then Some (top_signed msk (top_unsigned msk nr_max d))
      else (case shr_opt UINT64_MAX (64 - (opsize - u_max s)) of
        None \<Rightarrow> None
      | Some lim \<Rightarrow>
          (case (if u_max d \<le> lim
                 then map_option (\<lambda>(l, h). d\<lparr>u_min := l, u_max := h\<rparr>) (shift_both shl_opt s (u_min d) (u_max d))
                 else Some (top_unsigned msk nr_max d)) of
             None \<Rightarrow> None
           | Some d \<Rightarrow>
               (case sar_opt (s_min d) (opsize - 1) of
                  None \<Rightarrow> None
                | Some top_bit \<Rightarrow>
                    if top_bit = 0
                    then (case shr_opt UINT64_MAX (64 - (opsize - u_max s - 1)) of
                            None \<Rightarrow> None
                          | Some slim \<Rightarrow>
                              if s_max d <s slim
                              then map_option (\<lambda>(l, h). d\<lparr>s_min := l, s_max := h\<rparr>)
                                     (shift_both shl_opt s (s_min d) (s_max d))
                              else Some (top_signed msk d))
                    else Some (top_signed msk d)))))"

definition range_rsh ::
  "u64 \<Rightarrow> u64 \<Rightarrow> u64 \<Rightarrow> bpf_reg_state \<Rightarrow> bpf_reg_state \<Rightarrow> bpf_reg_state option" where
  "range_rsh msk opsize nr_max d s =
     (if u_max s \<ge> opsize then Some (top_signed msk (top_unsigned msk nr_max d))
      else (case shift_both shr_opt s (u_min d) (u_max d) of
        None \<Rightarrow> None
      | Some (l, h) \<Rightarrow>
          (let d = d\<lparr>u_min := l, u_max := h\<rparr> in
           case shr_opt (s_min d) (opsize - 1) of
             None \<Rightarrow> None
           | Some top_bit \<Rightarrow>
               if top_bit = 0
               then map_option (\<lambda>(l, h). d\<lparr>s_min := l, s_max := h\<rparr>) (shift_both sar_opt s (s_min d) (s_max d))
               else Some (top_signed msk d))))"

text \<open>\<open>nr_max\<close> is the contents of the local \<^verbatim>\<open>nr.u.max\<close>, which several cases read uninitialised.\<close>

definition update_min_max_alu_op :: "u64 \<Rightarrow> reg_file \<Rightarrow> ebpf_inst \<Rightarrow> reg_file option" where
  "update_min_max_alu_op nr_max R x =
     (let is64 = (EBPF_CLASS (opcode x) = EBPF_CLS_ALU64);
          msk = (if is64 then 0xffffffffffffffff else 0xffffffff);
          opsize = (if is64 then 64 else 32);
          s = (if EBPF_SRC (opcode x) = EBPF_SRC_REG then handle_min_max_overflows (R (src x)) msk
               else mark_bpf_reg_as_imm (R (src x)) (imm x));
          d = handle_min_max_overflows (R (dst x)) msk;
          opc = EBPF_OP (opcode x)
      in map_option (\<lambda>d'. R(dst x := d'))
           (if opc = alu_code ADD then Some (range_add msk d s)
            else if opc = alu_code SUB then Some (range_sub msk d s)
            else if opc = alu_code MUL then range_mul msk opsize nr_max d s
            else if opc = alu_code AND_OP then range_bitwise (AND) compute_bitwise_and_bound msk opsize d s
            else if opc = alu_code OR_OP then range_bitwise (OR) compute_bitwise_or_bound msk opsize d s
            else if opc = alu_code LSH then range_lsh msk opsize nr_max d s
            else if opc = alu_code RSH then range_rsh msk opsize nr_max d s
            else Some (top_signed msk (top_unsigned msk nr_max d))))"

section \<open>The jump refinements are sound\<close>

definition in_range :: "bpf_reg_state \<Rightarrow> u64 \<Rightarrow> bool" where
  "in_range r v \<longleftrightarrow> u_min r \<le> v \<and> v \<le> u_max r \<and> s_min r <=s v \<and> v <=s s_max r"

lemma word_succ_le: "(a :: u64) < b \<Longrightarrow> a + 1 \<le> b"
  by (rule inc_le)

lemma word_le_pred: "(a :: u64) < b \<Longrightarrow> a \<le> b - 1"
proof -
  assume "a < b"
  then have "b \<noteq> 0" by auto
  then show ?thesis using \<open>a < b\<close> by (simp add: word_le_nat_alt word_less_nat_alt unat_minus_one)
qed

lemma sint_bounds: "- (2 ^ 63) \<le> sint (a :: u64)" "sint a < 2 ^ 63"
  using sint_greater_eq [of a] sint_less [of a] by simp_all

lemma sint_add_exact:
  "- (2 ^ 63) \<le> sint a + sint b \<Longrightarrow> sint a + sint b < 2 ^ 63 \<Longrightarrow> sint ((a :: u64) + b) = sint a + sint b"
  by (simp add: sint_word_ariths signed_take_bit_int_eq_self)

lemma sint_succ: "sint (a :: u64) < sint (b :: u64) \<Longrightarrow> sint (a + 1) = sint a + 1"
  using sint_add_exact [of a 1] sint_bounds [of a] sint_bounds [of b] by simp

lemma sint_pred: "sint (a :: u64) < sint (b :: u64) \<Longrightarrow> sint (b - 1) = sint b - 1"
  using sint_add_exact [of b "- 1"] sint_bounds [of a] sint_bounds [of b] by simp

lemma sle_succ: "sint (a :: u64) < sint (b :: u64) \<Longrightarrow> a + 1 <=s b"
  by (simp add: word_sle_eq sint_succ)

lemma sle_pred: "sint (a :: u64) < sint (b :: u64) \<Longrightarrow> a <=s b - 1"
  by (simp add: word_sle_eq sint_pred)

lemma smax64_le: "smax64 a b <=s v \<longleftrightarrow> a <=s v \<and> b <=s v"
  by (auto simp: smax64_def word_sle_eq word_sless_alt)

lemma smin64_ge: "v <=s smin64 a b \<longleftrightarrow> v <=s a \<and> v <=s b"
  by (auto simp: smin64_def word_sle_eq word_sless_alt)

lemma raise_range_le: "(reg_type r = PKT_SIZE \<longrightarrow> u_min r \<le> len) \<Longrightarrow> p \<le> len \<Longrightarrow> raise_range r p \<le> len"
  by (simp add: raise_range_def)

lemmas sound_simps = in_range_def set_const_def not_less not_le word_sle_eq

lemma jump_imm_sound:
  assumes "in_range r v" 
  shows "jmp_reg_cond j v val \<Longrightarrow> in_range (fst (fst (update_min_max_jump_imm r p r p (jmp_code j) val))) v"
    and "\<not> jmp_reg_cond j v val \<Longrightarrow> in_range (fst (snd (update_min_max_jump_imm r p r p (jmp_code j) val))) v"
  using assms
  by (cases j; auto simp: update_min_max_jump_imm_def sound_simps word_succ_le word_le_pred sint_succ sint_pred)+

lemma jump_imm_inv_sound:
  assumes "in_range r v" 
  shows "jmp_reg_cond j val v \<Longrightarrow> in_range (fst (fst (update_min_max_jump_imm_inv r p r p (jmp_code j) val))) v"
    and "\<not> jmp_reg_cond j val v \<Longrightarrow> in_range (fst (snd (update_min_max_jump_imm_inv r p r p (jmp_code j) val))) v"
  using assms
  by (cases j; auto simp: update_min_max_jump_imm_inv_def sound_simps word_succ_le word_le_pred sint_succ sint_pred)+


lemma ranges_intersect_complete: "in_range r1 v \<Longrightarrow> in_range r2 v \<Longrightarrow> ranges_intersect r1 r2"
  by (auto simp: ranges_intersect_def in_range_def word_sle_eq)

lemma succ_trans: "(a :: u64) \<le> w \<Longrightarrow> w < v \<Longrightarrow> a + 1 \<le> v"
  by (intro word_succ_le) simp

lemma pred_trans: "(w :: u64) < v \<Longrightarrow> v \<le> b \<Longrightarrow> w \<le> b - 1"
  by (intro word_le_pred) simp

lemma ssucc_trans: "(a :: u64) <=s w \<Longrightarrow> sint w < sint (v :: u64) \<Longrightarrow> a + 1 <=s v"
  by (intro sle_succ) (simp add: word_sle_eq)

lemma spred_trans: "sint (w :: u64) < sint v \<Longrightarrow> (v :: u64) <=s b \<Longrightarrow> w <=s b - 1"
  by (intro sle_pred) (simp add: word_sle_eq)

lemma sint_smax64: "sint (smax64 a b) = max (sint a) (sint b)"
  by (auto simp: smax64_def word_sless_alt)

lemma sint_smin64: "sint (smin64 a b) = min (sint a) (sint b)"
  by (auto simp: smin64_def word_sless_alt)

lemma intersect_signed_sound:
  assumes "in_range (R d) (vals d)" "in_range (R s) (vals s)" "vals d = vals s" "r \<in> {d, s}"
  shows "in_range (intersect_signed R d s r) (vals r)"
proof (cases "d = s")
  case True
  with assms show ?thesis
    by (simp add: intersect_signed_def in_range_def Let_def word_sle_eq sint_smax64 sint_smin64)
next
  case False
  with assms show ?thesis
    by (auto simp: intersect_signed_def in_range_def Let_def word_sle_eq sint_smax64 sint_smin64)
qed

text \<open>The register refinement, for the branch where the jump is taken and for the other one.\<close>

lemmas jump_reg_simps =
  update_min_max_jump_reg_def Let_def upd_def in_range_def word_sle_eq sint_smax64 sint_smin64

lemma jump_reg_taken_sound:
  assumes d: "in_range (R d) (vals d)" and s: "in_range (R s) (vals s)" and r: "r \<in> {d, s}"
    and c: "jmp_reg_cond j (vals d) (vals s)"
  shows "in_range (fst (fst (snd (update_min_max_jump_reg R tp F fp d s (jmp_code j)))) r) (vals r)"
proof (cases j)
  case JEQ
  then show ?thesis using assms ranges_intersect_complete [of "R d" "vals d" "R s"]
      intersect_signed_sound [of R d vals s r]
    by (simp add: update_min_max_jump_reg_def Let_def)
next
  case JGT
  with c have "vals s < vals d" by simp
  with d s have "u_min (R s) + 1 \<le> vals d" "vals s \<le> u_max (R d) - 1"
    by (auto simp: in_range_def intro: succ_trans pred_trans)
  with JGT \<open>vals s < vals d\<close> d s r show ?thesis by (auto simp: jump_reg_simps)
next
  case JGE
  with assms show ?thesis by (auto simp: jump_reg_simps)
next
  case JSGT
  with c have "sint (vals s) < sint (vals d)" by simp
  with d s have "s_min (R s) + 1 <=s vals d" "vals s <=s s_max (R d) - 1"
    by (auto simp: in_range_def intro: ssucc_trans spred_trans)
  with JSGT \<open>sint (vals s) < sint (vals d)\<close> d s r show ?thesis by (auto simp: jump_reg_simps)
next
  case JSGE
  with assms show ?thesis by (auto simp: jump_reg_simps)
qed (use assms in \<open>auto simp: jump_reg_simps\<close>)

lemma jump_reg_not_taken_sound:
  assumes d: "in_range (R d) (vals d)" and s: "in_range (R s) (vals s)" and r: "r \<in> {d, s}"
    and c: "\<not> jmp_reg_cond j (vals d) (vals s)"
  shows "in_range (fst (snd (snd (update_min_max_jump_reg T tp R fp d s (jmp_code j)))) r) (vals r)"
proof (cases j)
  case JNE
  then show ?thesis using assms ranges_intersect_complete [of "R d" "vals d" "R s"]
      intersect_signed_sound [of R d vals s r]
    by (simp add: update_min_max_jump_reg_def Let_def)
next
  case JGE
  with c have "vals d < vals s" by simp
  with d s have "u_min (R d) + 1 \<le> vals s" "vals d \<le> u_max (R s) - 1"
    by (auto simp: in_range_def intro: succ_trans pred_trans)
  with JGE \<open>vals d < vals s\<close> d s r show ?thesis by (auto simp: jump_reg_simps)
next
  case JGT
  with assms show ?thesis by (auto simp: jump_reg_simps)
next
  case JSGE
  with c have "sint (vals d) < sint (vals s)" by simp
  with d s have "s_min (R d) + 1 <=s vals s" "vals d <=s s_max (R s) - 1"
    by (auto simp: in_range_def intro: ssucc_trans spred_trans)
  with JSGE \<open>sint (vals d) < sint (vals s)\<close> d s r show ?thesis by (auto simp: jump_reg_simps)
next
  case JSGT
  with assms show ?thesis by (auto simp: jump_reg_simps)
qed (use assms in \<open>auto simp: jump_reg_simps\<close>)

section \<open>Arithmetic on ranges\<close>

lemma all_ones: "(0xffffffffffffffff :: u64) = - 1"
  by simp

lemma handle64_sound: "in_range r v \<Longrightarrow> in_range (handle_min_max_overflows r (- 1)) v"
proof -
  assume r: "in_range r v"
  have "sint INT64_MAX = 2 ^ 63 - 1" by simp
  then have "v <=s INT64_MAX" using sint_bounds [of v] by (simp add: word_sle_eq)
  moreover have "INT64_MIN <=s v" using sint_bounds [of v] by (simp add: word_sle_eq)
  ultimately show ?thesis using r
    by (simp add: handle_min_max_overflows_def mask_eq_exp_minus_1 in_range_def min_def word_sle_eq sint_smax64)
qed

lemma sint_add_wrap:
  "sint ((a :: u64) + b) = (sint a + sint b + 2 ^ 63) mod 2 ^ 64 - 2 ^ 63"
  by (simp add: sint_word_ariths signed_take_bit_eq_take_bit_shift take_bit_eq_mod)

lemma signed_no_overflow:
  fixes a c :: u64
  assumes "\<not> ((sint c < 0 \<and> sint a < sint (a + c)) \<or> sint (a + c) < sint a)"
  shows "sint (a + c) = sint a + sint c"
proof -
  have b: "- (2 ^ 63) \<le> sint a" "sint a < 2 ^ 63" "- (2 ^ 63) \<le> sint c" "sint c < 2 ^ 63"
    by (rule sint_bounds)+
  consider "sint a + sint c < - (2 ^ 63)" | "2 ^ 63 \<le> sint a + sint c"
    | "- (2 ^ 63) \<le> sint a + sint c" "sint a + sint c < 2 ^ 63" by linarith
  then show ?thesis
  proof cases
    case 1
    then have "(sint a + sint c + 2 ^ 63) mod 2 ^ 64 = sint a + sint c + 2 ^ 63 + 2 ^ 64"
      using b by (intro int_mod_pos_eq [of _ _ "- 1"]) simp_all
    then show ?thesis using assms 1 b by (auto simp: sint_add_wrap)
  next
    case 2
    then have "(sint a + sint c + 2 ^ 63) mod 2 ^ 64 = sint a + sint c + 2 ^ 63 - 2 ^ 64"
      using b by (intro int_mod_pos_eq [of _ _ 1]) simp_all
    then show ?thesis using assms 2 b by (auto simp: sint_add_wrap)
  next
    case 3
    then show ?thesis by (intro sint_add_exact) simp_all
  qed
qed

lemma unsigned_no_overflow: "\<not> (a :: u64) + c < a \<Longrightarrow> uint (a + c) = uint a + uint c"
  by (simp add: not_less no_olen_add uint_word_ariths)

lemma unsigned_sum_range:
  fixes a b c e v w :: u64
  assumes "a \<le> v" "v \<le> b" "c \<le> w" "w \<le> e" "\<not> b + e < b"
  shows "a + c \<le> v + w" "v + w \<le> b + e"
proof -
  have be: "uint b + uint e < 2 ^ 64" using assms(5) by (simp add: not_less no_olen_add)
  have o: "uint a \<le> uint v" "uint v \<le> uint b" "uint c \<le> uint w" "uint w \<le> uint e"
    using assms by (simp_all add: word_le_def)
  have "uint (v + w) = uint v + uint w" "uint (a + c) = uint a + uint c" "uint (b + e) = uint b + uint e"
    using be o by (simp_all add: uint_word_ariths)
  then show "a + c \<le> v + w" "v + w \<le> b + e" using o by (simp_all add: word_le_def)
qed

lemma signed_sum_range:
  fixes a b c e v w :: u64
  assumes "a <=s v" "v <=s b" "c <=s w" "w <=s e"
    and "sint (a + c) = sint a + sint c" "sint (b + e) = sint b + sint e"
  shows "a + c <=s v + w" "v + w <=s b + e"
proof -
  have o: "sint a \<le> sint v" "sint v \<le> sint b" "sint c \<le> sint w" "sint w \<le> sint e"
    using assms by (simp_all add: word_sle_eq)
  have "sint (v + w) = sint v + sint w"
    using o assms(5,6) sint_bounds [of "a + c"] sint_bounds [of "b + e"] by (intro sint_add_exact) simp_all
  then show "a + c <=s v + w" "v + w <=s b + e" using o assms(5,6) by (simp_all add: word_sle_eq)
qed

lemma top_in_range:
  "u_min (top_unsigned (- 1) n r) \<le> v" "v \<le> u_max (top_unsigned (- 1) n r)"
  "s_min (top_signed (- 1) r) <=s v" "v <=s s_max (top_signed (- 1) r)"
proof -
  show "s_min (top_signed (- 1) r) <=s v" "v <=s s_max (top_signed (- 1) r)"
    using sint_bounds [of v] by (simp_all add: top_signed_def word_sle_eq mask_eq_exp_minus_1)
qed (simp_all add: top_unsigned_def max_def word_order.extremum_unique)

lemma top_fields [simp]:
  "s_min (top_unsigned m n r) = s_min r" "s_max (top_unsigned m n r) = s_max r"
  "u_min (top_signed m r) = u_min r" "u_max (top_signed m r) = u_max r"
  by (simp_all add: top_unsigned_def top_signed_def)

lemma range_add_signed:
  "s_min (range_add m d s) =
     (if (signed_add_overflow (s_min d) (s_min s) ((s_min d + s_min s) AND m)
          \<or> signed_add_overflow (s_max d) (s_max s) ((s_max d + s_max s) AND m)) \<and> \<not> const_signed d s
      then s_min (top_signed m d) else (s_min d + s_min s) AND m)"
  "s_max (range_add m d s) =
     (if (signed_add_overflow (s_min d) (s_min s) ((s_min d + s_min s) AND m)
          \<or> signed_add_overflow (s_max d) (s_max s) ((s_max d + s_max s) AND m)) \<and> \<not> const_signed d s
      then s_max (top_signed m d) else (s_max d + s_max s) AND m)"
  by (simp_all add: range_add_def Let_def top_signed_def top_unsigned_def)

lemma signed_add_overflow: "\<not> signed_add_overflow a c (a + c) \<Longrightarrow> sint (a + c) = sint a + sint c"
  by (rule signed_no_overflow) (simp add: signed_add_overflow_def word_sless_alt)

lemma range_add_sound:
  assumes d: "in_range d v" and s: "in_range s w"
  shows "in_range (range_add (- 1) d s) (v + w)"
proof -
  have "u_min (range_add (- 1) d s) \<le> v + w" "v + w \<le> u_max (range_add (- 1) d s)"
    using d s unsigned_sum_range [of "u_min d" v "u_max d" "u_min s" w "u_max s"]
    by (auto simp: range_add_def Let_def top_in_range in_range_def const_unsigned_def)
  moreover have "s_min (range_add (- 1) d s) <=s v + w \<and> v + w <=s s_max (range_add (- 1) d s)"
  proof (cases "const_signed d s")
    case True
    then have "sint v = sint (s_min d)" "sint w = sint (s_min s)"
      using d s by (simp_all add: in_range_def const_signed_def word_sle_eq)
    then have "v = s_min d" "w = s_min s" by (simp_all add: signed_word_eqI)
    with True show ?thesis by (simp add: range_add_signed const_signed_def word_sle_eq)
  next
    case False
    then show ?thesis using d s signed_add_overflow
        signed_sum_range [of "s_min d" v "s_max d" "s_min s" w "s_max s"]
      by (simp add: range_add_signed top_in_range in_range_def)
  qed
  ultimately show ?thesis by (simp add: in_range_def)
qed

text \<open>The 64-bit addition instructions.\<close>

lemma imm_in_range: "in_range (mark_bpf_reg_as_imm r i) (scast i)"
  by (simp add: in_range_def mark_bpf_reg_as_imm_def word_sle_eq)

lemma alu64_add_range:
  assumes d: "in_range (R (dst x)) v"
    and x: "opcode x = opcode_of (OP_ALU64_REG ADD) \<and> in_range (R (src x)) w
      \<or> opcode x = opcode_of (OP_ALU64_IMM ADD) \<and> w = scast (imm x)"
  shows "\<exists>R'. update_min_max_alu_op n R x = Some R' \<and> in_range (R' (dst x)) (v + w)"
  using x range_add_sound [OF handle64_sound [OF d] handle64_sound [of "R (src x)" w]]
    range_add_sound [OF handle64_sound [OF d] imm_in_range [of "R (src x)" "imm x"]]
  by (auto simp: update_min_max_alu_op_def Let_def all_ones)

text \<open>The bounds of the 64-bit bitwise operations.\<close>

lemma leading_zeros_0 [simp]: "leading_zeros v 0 = 0"
  by (simp add: leading_zeros_def)

lemma leading_zeros_Suc: "leading_zeros v (Suc n) = (if bit v n then 0 else Suc (leading_zeros v n))"
  by (simp add: leading_zeros_def)

lemma leading_zeros_le: "leading_zeros v n \<le> n"
  by (induction n) (simp_all add: leading_zeros_Suc)

lemma leading_zeros_bits: "n - leading_zeros v n \<le> i \<Longrightarrow> i < n \<Longrightarrow> \<not> bit v i"
proof (induction n)
  case 0
  then show ?case by simp
next
  case (Suc n)
  then show ?case by (cases "i = n") (auto simp: leading_zeros_Suc split: if_splits)
qed

lemma leading_zeros_less: "leading_zeros v 64 \<le> k \<Longrightarrow> v \<noteq> 0 \<Longrightarrow> leading_zeros v 64 < 64"
proof (rule ccontr)
  assume "v \<noteq> 0" "\<not> leading_zeros v 64 < 64"
  then have "leading_zeros v 64 = 64" using leading_zeros_le [of v 64] by simp
  then have "v = 0" using leading_zeros_bits [of 64 v] by (intro bit_word_eqI) simp
  with \<open>v \<noteq> 0\<close> show False by simp
qed

lemma clzll_Some: "clzll a = Some n \<longleftrightarrow> a \<noteq> 0 \<and> n = of_nat (leading_zeros a 64)"
  by (auto simp: clzll_def)

lemma unat_leading_zeros: "unat (of_nat (leading_zeros v 64) :: u64) = leading_zeros v 64"
  using leading_zeros_le [of v 64] by (simp add: unat_of_nat)

lemma unat_less_exp: "unat (v :: u64) < 2 ^ n \<longleftrightarrow> take_bit n v = v"
  by (simp add: word_unat_eq_iff unsigned_take_bit_eq take_bit_nat_eq_self_iff)

lemma leading_zeros_bound:
  assumes "v \<le> a"
  shows "unat v < 2 ^ (64 - leading_zeros a 64)"
proof -
  have "take_bit (64 - leading_zeros a 64) a = a"
    by (intro bit_word_eqI) (use leading_zeros_bits [of 64 a] in \<open>force simp: bit_take_bit_iff not_less [symmetric]\<close>)
  with assms show ?thesis by (simp add: word_le_nat_alt flip: unat_less_exp)
qed

lemma unat_mask64: "k \<le> 64 \<Longrightarrow> unat (mask k :: u64) = 2 ^ k - 1"
proof -
  assume "k \<le> 64"
  have "(mask k :: u64) = of_nat (2 ^ k - 1)" by (simp add: mask_eq_exp_minus_1)
  moreover have "(2 :: nat) ^ k \<le> 2 ^ 64" using \<open>k \<le> 64\<close> by (intro power_increasing) simp_all
  ultimately show ?thesis by (simp add: unat_of_nat del: of_nat_diff)
qed

lemma shr_ones: "shr_opt (- 1) n = Some m \<Longrightarrow> unat n < 64 \<and> unat m = 2 ^ (64 - unat n) - 1"
  by (auto simp: shr_opt_def unat_mask64 split: if_splits)

lemma unat_and_less: "unat v < 2 ^ n \<or> unat w < 2 ^ n \<Longrightarrow> unat ((v :: u64) AND w) < 2 ^ n"
  by (metis le_less_trans word_and_le1 word_and_le2 word_le_nat_alt)

lemma unat_or_less: "unat v < 2 ^ n \<Longrightarrow> unat w < 2 ^ n \<Longrightarrow> unat ((v :: u64) OR w) < 2 ^ n"
  by (simp add: unat_less_exp)

lemma and_bound_sound:
  assumes "compute_bitwise_and_bound a b 64 = Some m" "v \<le> a" "w \<le> b"
  shows "v AND w \<le> m"
proof -
  let ?a = "leading_zeros a 64" and ?b = "leading_zeros b 64"
  have m: "shr_opt (- 1) (max (of_nat ?a) (of_nat ?b)) = Some m"
    using assms(1) by (auto simp: compute_bitwise_and_bound_def clzll_Some split: option.splits)
  have "unat (max (of_nat ?a :: u64) (of_nat ?b)) = max ?a ?b"
    by (simp add: max_def word_le_nat_alt unat_leading_zeros)
  then have "unat m = 2 ^ (64 - max ?a ?b) - 1" using shr_ones [OF m] by simp
  moreover have "unat (v AND w) < 2 ^ (64 - max ?a ?b)"
    using leading_zeros_bound [OF assms(2)] leading_zeros_bound [OF assms(3)]
    by (intro unat_and_less) (simp add: max_def)
  ultimately show ?thesis by (simp add: word_le_nat_alt)
qed

lemma or_bound_sound:
  assumes "compute_bitwise_or_bound a b 64 = Some m" "v \<le> a" "w \<le> b"
  shows "v OR w \<le> m"
proof -
  let ?a = "leading_zeros a 64" and ?b = "leading_zeros b 64"
  have m: "shr_opt (- 1) (min (of_nat ?a) (of_nat ?b)) = Some m"
    using assms(1) by (auto simp: compute_bitwise_or_bound_def clzll_Some split: option.splits)
  have "unat (min (of_nat ?a :: u64) (of_nat ?b)) = min ?a ?b"
    by (simp add: min_def word_le_nat_alt unat_leading_zeros)
  then have "unat m = 2 ^ (64 - min ?a ?b) - 1" using shr_ones [OF m] by simp
  moreover have "unat v < 2 ^ (64 - min ?a ?b)" "unat w < 2 ^ (64 - min ?a ?b)"
    using leading_zeros_bound [OF assms(2)] leading_zeros_bound [OF assms(3)]
    by (auto elim!: less_le_trans intro!: power_increasing)
  then have "unat (v OR w) < 2 ^ (64 - min ?a ?b)" by (rule unat_or_less)
  ultimately show ?thesis by (simp add: word_le_nat_alt)
qed


section \<open>Where the bounds are wrong\<close>

text \<open>32-bit operands have at least 32 leading zero bits, so the shift count of the 32-bit bounds is at
  least the width.\<close>

lemma leading_zeros_bit: "leading_zeros v n < n \<Longrightarrow> bit v (n - 1 - leading_zeros v n)"
proof (induction n)
  case 0
  then show ?case by simp
next
  case (Suc n)
  then show ?case by (cases "bit v n") (auto simp: leading_zeros_Suc)
qed

lemma leading_zeros_32: "a \<le> UINT32_MAX \<Longrightarrow> 32 \<le> leading_zeros a 64"
proof (rule ccontr)
  assume "a \<le> UINT32_MAX" and k: "\<not> 32 \<le> leading_zeros a 64"
  then have "unat a < 2 ^ 32" by (simp add: word_le_nat_alt)
  then have "take_bit 32 a = a" by (simp only: unat_less_exp)
  then have "bit a i \<Longrightarrow> i < 32" for i by (metis bit_take_bit_iff)
  moreover have "bit a (63 - leading_zeros a 64)" using leading_zeros_bit [of a 64] k by simp
  ultimately have "63 - leading_zeros a 64 < 32" by blast
  with k show False by linarith
qed

lemma and_bound_32_undefined:
  assumes "a \<le> UINT32_MAX" "b \<le> UINT32_MAX"
  shows "compute_bitwise_and_bound a b 32 = None"
proof -
  let ?k = "max (leading_zeros a 64) (leading_zeros b 64)"
  have k: "32 \<le> ?k" "?k \<le> 64" using leading_zeros_32 [OF assms(1)] leading_zeros_le by (auto simp: max_def)
  have "max (of_nat (leading_zeros a 64)) (of_nat (leading_zeros b 64)) = (of_nat ?k :: u64)"
    by (simp add: max_def word_le_nat_alt unat_leading_zeros)
  then have "64 - (32 - max (of_nat (leading_zeros a 64)) (of_nat (leading_zeros b 64))) = (of_nat (32 + ?k) :: u64)"
    by simp
  then have "shr_opt (- 1) (64 - (32 - max (of_nat (leading_zeros a 64)) (of_nat (leading_zeros b 64)))) = None"
    using k leading_zeros_32 [OF assms(1)] by (simp only: shr_opt_def unat_of_nat) simp
  then show ?thesis 
    by (auto simp: compute_bitwise_and_bound_def clzll_def split: option.splits)
qed

abbreviation unsigned_range :: "u64 \<Rightarrow> u64 \<Rightarrow> bpf_reg_state" where
  "unsigned_range lo hi \<equiv> \<lparr>reg_type = UNKNOWN, reg_map = 0, s_min = lo, s_max = hi, u_min = lo, u_max = hi\<rparr>"

text \<open>10 minus a value in 0..5 is taken to be at most 5.\<close>

lemma range_sub_unsound:
  "in_range (unsigned_range 10 10) 10 \<and> in_range (unsigned_range 0 5) 2
   \<and> \<not> in_range (range_sub (- 1) (unsigned_range 10 10) (unsigned_range 0 5)) (10 - 2)"
  by (simp add: in_range_def range_sub_def Let_def word_sle_eq word_sless_alt const_unsigned_def const_signed_def
      signed_sub_overflow_def)

text \<open>A 32-bit addition of 5 and a value in 0..0x100000000 is taken to be 5.\<close>

lemma add32_unsound:
  "in_range (unsigned_range 5 5) 5 \<and> in_range (unsigned_range 0 0x100000000) 7
   \<and> alu32_reg ADD 5 7 = Some (Inr 12)
   \<and> u_max (range_add UINT32_MAX (unsigned_range 5 5)
       (handle_min_max_overflows (unsigned_range 0 0x100000000) UINT32_MAX)) = 5"
  by (simp add: in_range_def range_add_def Let_def word_sle_eq const_unsigned_def
      handle_min_max_overflows_def mask32_def)

section \<open>Properties\<close>



text \<open>(C9) The same for a jump that compares two registers, which may be the same one.\<close>

theorem jump_reg_refinement_sound:
  assumes "in_range (R d) (vals d)" "in_range (R s) (vals s)" "r \<in> {d, s}"
  shows "in_range (fst ((if jmp_reg_cond j (vals d) (vals s) then fst else snd)
      (snd (update_min_max_jump_reg R tp R fp d s (jmp_code j)))) r) (vals r)"
  using jump_reg_taken_sound [OF assms, of j tp R fp] jump_reg_not_taken_sound [OF assms, of j R tp fp] by simp

theorem jump_reg_refinement_sound_witness:
  "in_range (fst (fst (snd (update_min_max_jump_reg (\<lambda>_. unsigned_range 0 100) 0 (\<lambda>_. unsigned_range 0 100) 0 1 2
      (jmp_code JGT)))) 1) 7"
proof -
  have "in_range (unsigned_range 0 100) 7" "in_range (unsigned_range 0 100) 3"
    by (simp_all add: in_range_def word_sle_eq)
  then show ?thesis
    using jump_reg_refinement_sound [of "\<lambda>_. unsigned_range 0 100" 1 "(\<lambda>_. 3)(1 := 7)" 2 1 JGT 0 0] by simp
qed

text \<open>(C10) The bounds of a 64-bit addition contain the sum the interpreter computes, wrap-around included.\<close>

theorem add64_bounds_sound:
  assumes "in_range (R (dst x)) v"
    and "opcode x = opcode_of (OP_ALU64_REG ADD) \<and> in_range (R (src x)) w \<and> alu64_reg ADD v w = Some (Inr u)
      \<or> opcode x = opcode_of (OP_ALU64_IMM ADD) \<and> alu64_imm ADD v (imm x) = Inr u"
  shows "\<exists>R'. update_min_max_alu_op n R x = Some R' \<and> in_range (R' (dst x)) u"
  using assms alu64_add_range [of R x v w n] alu64_add_range [of R x v "scast (imm x)" n] by auto

theorem add64_bounds_sound_witness:
  "\<exists>R'. update_min_max_alu_op 0 (\<lambda>_. unsigned_range 0 100) (inst (opcode_of (OP_ALU64_REG ADD)) 1 2 0 0) = Some R'
    \<and> in_range (R' 1) 10"
proof -
  have "in_range (unsigned_range 0 100) 7" "in_range (unsigned_range 0 100) 3"
    by (simp_all add: in_range_def word_sle_eq)
  then show ?thesis
    using add64_bounds_sound [of "\<lambda>_. unsigned_range 0 100" "inst (opcode_of (OP_ALU64_REG ADD)) 1 2 0 0" 7 3 10 0]
    by simp
qed

text \<open>(C11) The upper bounds of the 64-bit bitwise operations hold for all operands within the operands' upper
  bounds.\<close>

theorem bitwise_bounds_sound:
  assumes "v \<le> a" "w \<le> b"
  shows "case_option True (\<lambda>m. v AND w \<le> m) (compute_bitwise_and_bound a b 64)
    \<and> case_option True (\<lambda>m. v OR w \<le> m) (compute_bitwise_or_bound a b 64)"
  using and_bound_sound [OF _ assms] or_bound_sound [OF _ assms] by (auto split: option.split)

theorem bitwise_bounds_sound_witness:
  "\<exists>m. compute_bitwise_and_bound 0x1234 0xff 64 = Some m \<and> 0x1200 AND 0x80 \<le> m"
proof -
  have "compute_bitwise_and_bound 0x1234 0xff 64 = Some 0xff" by code_simp
  then show ?thesis using bitwise_bounds_sound [of "0x1200" "0x1234" "0x80" "0xff"] by simp
qed

end
