(* ===== verification/Ubpf_Access.thy ===== *)
theory Ubpf_Access
  imports Ubpf_Range
begin

text \<open>
  The third stage of the verifier, \<^verbatim>\<open>validate_accesses\<close> of \<^verbatim>\<open>ubpf_vm.c\<close>: a symbolic execution of every
  path of the program over abstract registers and stack bytes.  A check stops the verification with
  \<open>Reject\<close>, the false return of the code, or with \<open>Crash\<close>, undefined behaviour of the verifier itself.
  The register file has the 16 entries a register field can name; the code has 11, and the first
  stage has rejected the other numbers.
\<close>

section \<open>State, errors and outcomes\<close>

abbreviation MAX_SIZE_ARG :: u64 where "MAX_SIZE_ARG \<equiv> 8"
abbreviation UBPF_ADJUST_HEAD_ID :: u32 where "UBPF_ADJUST_HEAD_ID \<equiv> 8"
abbreviation BPF_PSEUDO_MAP_FD :: "4 word" where "BPF_PSEUDO_MAP_FD \<equiv> 1"
abbreviation REGISTER_MAX_RANGE :: u64 where "REGISTER_MAX_RANGE \<equiv> 1024 * 1024 * 1024"

abbreviation SIZE_64 :: u32 where "SIZE_64 \<equiv> 0"
abbreviation SIZE_MAP_KEY :: u32 where "SIZE_MAP_KEY \<equiv> 1"
abbreviation SIZE_MAP_VALUE :: u32 where "SIZE_MAP_VALUE \<equiv> 2"
abbreviation SIZE_PTR_MAX :: u32 where "SIZE_PTR_MAX \<equiv> 3"

record bpf_state =
  regs :: reg_file
  slots :: "nat \<Rightarrow> bpf_reg_state"
  instno :: u32
  pkt_range :: u64

datatype access_type = READ | WRITE

datatype aerror =
    Invalid_register "4 word" u32
  | Uninitialized_register "4 word" u32
  | R10_read_only
  | Incorrect_argument_type u32 nat u32
  | Incorrect_argument_size u32 nat u32
  | Incorrect_argument u32 nat u32
  | R_not_a_map nat u32
  | Invalid_packet_access u32
  | Invalid_ctx_access u32
  | Variable_stack_access u32
  | Invalid_stack_access u32
  | Uninitialized_stack u32
  | Unbounded_map_access u32
  | Invalid_map_access u32
  | Invalid_memory_access u32
  | Forbidden_pointer_arithmetic u32

datatype afault = Instruction_Out_Of_Range | Stack_Overrun | Bad_Map_Pointer | Bad_Function | Undefined_Arithmetic

datatype stop = Reject aerror | Crash afault

text \<open>The maps the addresses in the program point to; \<open>None\<close> is an address that is no map.\<close>

type_synonym map_table = "u64 \<Rightarrow> ubpf_map option"

section \<open>Register and memory accesses\<close>

definition validate_reg_access :: "reg_file \<Rightarrow> 4 word \<Rightarrow> u32 \<Rightarrow> access_type \<Rightarrow> stop + unit" where
  "validate_reg_access R regno insn t =
     (if regno \<ge> 11 then Inl (Reject (Invalid_register regno insn))
      else if t = READ \<and> reg_type (R regno) = UNINIT then Inl (Reject (Uninitialized_register regno insn))
      else if regno = 10 \<and> t = WRITE then Inl (Reject R10_read_only)
      else Inr ())"

definition is_pointer_type :: "u32 \<Rightarrow> bool" where
  "is_pointer_type ty \<longleftrightarrow> ty AND (MAP_PTR OR MAP_VALUE_PTR OR PKT_PTR OR STACK_PTR OR CTX_PTR) \<noteq> 0"

definition invalidate_pkt_pointers :: "bpf_state \<Rightarrow> bpf_state" where
  "invalidate_pkt_pointers st =
     st\<lparr>regs := (\<lambda>r. if r < 11 \<and> reg_type (regs st r) = PKT_PTR
                     then mark_bpf_reg_as_unknown (regs st r) else regs st r),
        slots := (\<lambda>i. if i < STACK_SIZE \<and> reg_type (slots st i) = PKT_PTR
                      then mark_bpf_reg_as_unknown (slots st i) else slots st i)\<rparr>"

section \<open>Calls\<close>

text \<open>The number of bytes a pointer argument must give access to.\<close>

definition call_arg_size :: "map_table \<Rightarrow> bpf_state \<Rightarrow> u32 \<Rightarrow> nat \<Rightarrow> u32 \<Rightarrow> stop + u32" where
  "call_arg_size maps st fn i esz =
     (if esz = SIZE_PTR_MAX
      then (let next_reg = regs st (of_nat (i + 1)) in
            if reg_type next_reg = IMM \<and> u_max next_reg > MAX_SIZE_ARG \<and> u_min next_reg = u_max next_reg
            then Inl (Reject (Incorrect_argument fn (i + 1) (instno st)))
            else Inr (ucast (u_min next_reg)))
      else if reg_map (regs st 1) = 0 then Inl (Reject (R_not_a_map 1 (instno st)))
      else (case maps (reg_map (regs st 1)) of
              None \<Rightarrow> Inl (Crash Bad_Map_Pointer)
            | Some m \<Rightarrow> Inr (if esz = SIZE_MAP_KEY then key_size m else value_size m)))"

text \<open>The \<^verbatim>\<open>switch (reg->type)\<close> over the pointer types.  It has no default case.\<close>

definition check_arg_range :: "map_table \<Rightarrow> bpf_state \<Rightarrow> nat \<Rightarrow> u32 \<Rightarrow> stop + unit" where
  "check_arg_range maps st i sz =
     (let r = regs st (of_nat i); min_val = s_min r; max_val = u_max r; insn = instno st; ty = reg_type r in
      if ty = PKT_PTR then
        (if min_val <s 0 \<or> ucast sz + max_val > pkt_range st then Inl (Reject (Invalid_packet_access insn))
         else Inr ())
      else if ty = CTX_PTR then
        (if min_val \<noteq> 0 \<or> max_val \<noteq> 0 then Inl (Reject (Invalid_ctx_access insn)) else Inr ())
      else if ty = STACK_PTR then
        (if min_val \<noteq> max_val then Inl (Reject (Variable_stack_access insn))
         else if min_val <s - 1024 \<or> 0 <s min_val + ucast sz then Inl (Reject (Invalid_stack_access insn))
         else if \<exists>j \<in> set [nat (1024 + sint min_val)..<nat (1024 + sint min_val + uint sz)].
                   reg_type (slots st j) = UNINIT
         then Inl (Reject (Uninitialized_stack insn)) else Inr ())
      else if ty = MAP_VALUE_PTR then
        (if max_val = REGISTER_MAX_RANGE then Inl (Reject (Unbounded_map_access insn))
         else if reg_map r = 0 then Inl (Reject (R_not_a_map i insn))
         else (case maps (reg_map r) of
                 None \<Rightarrow> Inl (Crash Bad_Map_Pointer)
               | Some m \<Rightarrow>
                   (if min_val <s 0 \<or> ucast sz + max_val > ucast (value_size m)
                    then Inl (Reject (Invalid_map_access insn)) else Inr ())))
      else if ty \<in> {UNINIT, UNKNOWN, NULL_VALUE, IMM, MAP_PTR, PKT_SIZE}
      then Inl (Reject (Invalid_memory_access insn))
      else Inr ())"

text \<open>One argument register of a call to function \<open>fn\<close>.\<close>

definition check_arg :: "map_table \<Rightarrow> ubpf_func_proto \<Rightarrow> bpf_state \<Rightarrow> u32 \<Rightarrow> nat \<Rightarrow> stop + unit" where
  "check_arg maps proto st fn i =
     (let ty = reg_type (regs st (of_nat i));
          ety = arg_types proto ! (i - 1); esz = arg_sizes proto ! (i - 1) in
      if ety \<noteq> MAP_PTR \<and> ety AND ty \<noteq> ty then Inl (Reject (Incorrect_argument_type fn i (instno st)))
      else if esz = 0xff then Inr ()
      else if is_pointer_type ty
      then (if esz = SIZE_64 then Inl (Reject (Incorrect_argument_size fn i (instno st)))
            else (case call_arg_size maps st fn i esz of
                    Inl e \<Rightarrow> Inl e
                  | Inr sz \<Rightarrow> check_arg_range maps st i sz))
      else if esz \<noteq> SIZE_64 then Inl (Reject (Incorrect_argument_size fn i (instno st)))
      else Inr ())"

fun check_args :: "map_table \<Rightarrow> ubpf_func_proto \<Rightarrow> bpf_state \<Rightarrow> u32 \<Rightarrow> nat list \<Rightarrow> stop + unit" where
  "check_args maps proto st fn [] = Inr ()"
| "check_args maps proto st fn (i # js) =
     (case check_arg maps proto st fn i of
        Inl e \<Rightarrow> Inl e
      | Inr _ \<Rightarrow> check_args maps proto st fn js)"

definition set_bounds0 :: "u32 \<Rightarrow> u64 \<Rightarrow> bpf_reg_state \<Rightarrow> bpf_reg_state" where
  "set_bounds0 ty m r = r\<lparr>reg_type := ty, reg_map := m, u_min := 0, u_max := 0, s_min := 0, s_max := 0\<rparr>"

definition set_reg_state :: "bpf_state \<Rightarrow> 4 word \<Rightarrow> bpf_reg_state \<Rightarrow> bpf_state" where
  "set_reg_state st r v = st\<lparr>regs := (regs st)(r := v)\<rparr>"

definition validate_call :: "ubpf_vm \<Rightarrow> map_table \<Rightarrow> bpf_state \<Rightarrow> u32 \<Rightarrow> stop + bpf_state" where
  "validate_call vm maps st fn =
     (if \<not> (0 \<le> sint fn \<and> nat (sint fn) < length (ext_funcs vm)) then Inl (Crash Bad_Function)
      else (let proto = ext_funcs vm ! nat (sint fn) in
        case check_args maps proto st fn [1..<NB_FUNC_ARGS + 1] of
          Inl e \<Rightarrow> Inl e
        | Inr _ \<Rightarrow>
            (let st = (if fn = UBPF_ADJUST_HEAD_ID
                       then (let st' = invalidate_pkt_pointers st in
                             st'\<lparr>pkt_range := pkt_range st' + s_min (regs st' 2)\<rparr>)
                       else st)
             in Inr (set_reg_state st 0
                  (if ret proto = (MAP_VALUE_PTR OR NULL_VALUE) \<and> arg_types proto ! 0 = MAP_PTR
                   then set_bounds0 (ret proto) (reg_map (regs st 1)) (regs st 0)
                   else if ret proto = PKT_PTR then set_bounds0 (ret proto) 0 (regs st 0)
                   else mark_bpf_reg_as_unknown (regs st 0))))))"


section \<open>Conditional jumps\<close>

definition numeric_type :: "u32 \<Rightarrow> bool" where
  "numeric_type ty \<longleftrightarrow> ty = UNKNOWN \<or> ty = PKT_SIZE"

text \<open>The state of the branch that jumps, which the code pushes on its stack, and the state of the one
  that falls through, before its instruction number is advanced.\<close>

definition validate_jump :: "bpf_state \<Rightarrow> ebpf_inst \<Rightarrow> stop + bpf_state \<times> bpf_state" where
  "validate_jump st x =
     (case validate_reg_access (regs st) (dst x) (instno st) READ of Inl e \<Rightarrow> Inl e | Inr _ \<Rightarrow>
     (case (if EBPF_SRC (opcode x) = EBPF_SRC_REG
            then validate_reg_access (regs st) (src x) (instno st) READ else Inr ()) of Inl e \<Rightarrow> Inl e | Inr _ \<Rightarrow>
      (let other = st\<lparr>instno := instno st + (scast (offset x) + 1)\<rparr>;
           R = regs st; p = pkt_range st; d = R (dst x); s = R (src x); opc = EBPF_OP (opcode x);
           refined = (\<lambda>r ((t, tp), (f, fp)). ((R(r := t), tp), (R(r := f), fp)));
           ((T, tp), (F, fp)) =
             (if EBPF_SRC (opcode x) = EBPF_SRC_REG
              then (if reg_type d = IMM
                    then refined (src x) (update_min_max_jump_imm_inv s p s p opc (u_min d))
                    else if reg_type s = IMM
                    then refined (dst x) (update_min_max_jump_imm d p d p opc (u_min s))
                    else if numeric_type (reg_type d) \<and> numeric_type (reg_type s)
                    then snd (update_min_max_jump_reg R p R p (dst x) (src x) opc)
                    else ((R, p), (R, p)))
              else refined (dst x) (update_min_max_jump_imm d p d p opc (scast (imm x))));
           null_test = (reg_type d = (MAP_VALUE_PTR OR NULL_VALUE) \<and> imm x = 0
             \<and> (opcode x = opcode_of (OP_JMP_IMM JEQ) \<or> opcode x = opcode_of (OP_JMP_IMM JNE)));
           T' = (if null_test
                 then upd T (dst x) (\<lambda>r. r\<lparr>reg_type := if opc = jmp_code JEQ then NULL_VALUE else MAP_VALUE_PTR\<rparr>)
                 else T);
           F' = (if null_test
                 then upd F (dst x) (\<lambda>r. r\<lparr>reg_type := if opc = jmp_code JEQ then MAP_VALUE_PTR else NULL_VALUE\<rparr>)
                 else F)
       in Inr (other\<lparr>regs := T', pkt_range := tp\<rparr>, st\<lparr>regs := F', pkt_range := fp\<rparr>))))"

section \<open>Arithmetic\<close>

text \<open>The two calls of \<^verbatim>\<open>validate_reg_access\<close> at the top of \<^verbatim>\<open>validate_alu_op\<close> discard their results.\<close>

definition validate_alu_op :: "u64 \<Rightarrow> bpf_state \<Rightarrow> ebpf_inst \<Rightarrow> stop + bpf_state" where
  "validate_alu_op nr_max st x =
     (let opc = EBPF_OP (opcode x); R = regs st; d = R (dst x);
          is64 = (EBPF_CLASS (opcode x) = EBPF_CLS_ALU64); by_reg = (EBPF_SRC (opcode x) = EBPF_SRC_REG) in
      if opc = EBPF_ALU_END \<or> opc = EBPF_ALU_NEG then Inr st
      else if opc = alu_code MOV then
        Inr (set_reg_state st (dst x)
               (if by_reg then (if is64 then R (src x) else mark_bpf_reg_as_unknown d)
                else mark_bpf_reg_as_imm d (imm x)))
      else if \<not> ((opc = alu_code SUB \<or> opc = alu_code ADD) \<and> is64
                  \<and> (reg_type d = STACK_PTR \<and> \<not> by_reg \<or> reg_type d = PKT_PTR
                     \<or> reg_type d = MAP_VALUE_PTR \<and> \<not> by_reg))
              \<and> (is_pointer_type (reg_type d) \<or> by_reg \<and> is_pointer_type (reg_type (R (src x))))
      then Inl (Reject (Forbidden_pointer_arithmetic (instno st)))
      else (case update_min_max_alu_op nr_max R x of
              None \<Rightarrow> Inl (Crash Undefined_Arithmetic)
            | Some R' \<Rightarrow> Inr (st\<lparr>regs := R'\<rparr>)))"

section \<open>Loads and stores\<close>

definition size_in_bytes :: "u8 \<Rightarrow> int" where
  "size_in_bytes opc =
     (let z = EBPF_SIZE opc in
      if z = size_code SZ_B then 1 else if z = size_code SZ_H then 2
      else if z = size_code SZ_W then 4 else if z = size_code SZ_DW then 8 else -1)"

text \<open>The bytes of the stack array an access names; the array ends at \<open>STACK_SIZE\<close>.\<close>

definition stack_bytes :: "ebpf_inst \<Rightarrow> nat list" where
  "stack_bytes x =
     (let lo = nat (1024 + sint (offset x)) in [lo..<lo + nat (size_in_bytes (opcode x))])"

fun write_slots :: "(nat \<Rightarrow> bpf_reg_state) \<Rightarrow> nat list \<Rightarrow> stop + (nat \<Rightarrow> bpf_reg_state)" where
  "write_slots S [] = Inr S"
| "write_slots S (i # js) =
     (if i \<ge> STACK_SIZE then Inl (Crash Stack_Overrun)
      else write_slots (S(i := (S i)\<lparr>reg_type := UNKNOWN\<rparr>)) js)"

fun read_slots :: "(nat \<Rightarrow> bpf_reg_state) \<Rightarrow> u32 \<Rightarrow> nat list \<Rightarrow> stop + unit" where
  "read_slots S insn [] = Inr ()"
| "read_slots S insn (i # js) =
     (if i \<ge> STACK_SIZE then Inl (Crash Stack_Overrun)
      else if reg_type (S i) = UNINIT then Inl (Reject (Uninitialized_stack insn))
      else read_slots S insn js)"

text \<open>The second loop of the write case, which looks for a spilled register, starts above its own bound
  and does nothing.\<close>

definition validate_mem_access ::
  "map_table \<Rightarrow> bpf_state \<Rightarrow> 4 word \<Rightarrow> ebpf_inst \<Rightarrow> access_type \<Rightarrow> stop + bpf_state" where
  "validate_mem_access maps st regno x t =
     (let r = regs st regno; ty = reg_type r; insn = instno st; min_val = s_min r; max_val = u_max r;
          off = scast (offset x); sz = of_int (size_in_bytes (opcode x)) in
      if ty = PKT_PTR then
        (if off + min_val <s 0 \<or> off + max_val + sz > pkt_range st
         then Inl (Reject (Invalid_packet_access insn)) else Inr st)
      else if ty = STACK_PTR then
        (if sint (offset x) \<ge> 0 \<or> sint (offset x) < - 1024 then Inl (Reject (Invalid_stack_access insn))
         else if t = WRITE
         then (case write_slots (slots st) (stack_bytes x) of
                 Inl e \<Rightarrow> Inl e
               | Inr S \<Rightarrow> Inr (st\<lparr>slots := S\<rparr>))
         else (case read_slots (slots st) insn (stack_bytes x) of
                 Inl e \<Rightarrow> Inl e
               | Inr _ \<Rightarrow> Inr st))
      else if ty = MAP_VALUE_PTR then
        (if max_val = REGISTER_MAX_RANGE then Inl (Reject (Unbounded_map_access insn))
         else if reg_map r = 0 then Inl (Reject (R_not_a_map (unat regno) insn))
         else (case maps (reg_map r) of
                 None \<Rightarrow> Inl (Crash Bad_Map_Pointer)
               | Some m \<Rightarrow>
                   (if off + min_val <s 0 \<or> off + sz + max_val > ucast (value_size m)
                    then Inl (Reject (Invalid_map_access insn)) else Inr st)))
      else if ty \<in> {UNINIT, UNKNOWN, NULL_VALUE, IMM, MAP_PTR, PKT_SIZE, CTX_PTR}
      then Inl (Reject (Invalid_memory_access insn))
      else Inr st)"


section \<open>One instruction\<close>

definition advance :: "bpf_state \<Rightarrow> bpf_state" where
  "advance st = st\<lparr>instno := instno st + 1\<rparr>"

definition fetch :: "ebpf_inst list \<Rightarrow> u32 \<Rightarrow> stop + ebpf_inst" where
  "fetch is n = (if unat n < length is then Inr (is ! unat n) else Inl (Crash Instruction_Out_Of_Range))"

text \<open>Sequencing of checks that may stop the verification.\<close>

fun check :: "stop + 'a \<Rightarrow> ('a \<Rightarrow> stop + 'b) \<Rightarrow> stop + 'b" where
  "check (Inl e) k = Inl e"
| "check (Inr v) k = k v"

definition access_store :: "map_table \<Rightarrow> bpf_state \<Rightarrow> ebpf_inst \<Rightarrow> stop + bpf_state" where
  "access_store maps st x =
     check (validate_reg_access (regs st) (dst x) (instno st) READ) (\<lambda>_.
     check (validate_reg_access (regs st) (src x) (instno st) READ) (\<lambda>_.
     check (validate_mem_access maps st (dst x) x WRITE) (\<lambda>st.
       Inr (if EBPF_SIZE (opcode x) = size_code SZ_DW \<and> reg_type (regs st (dst x)) = STACK_PTR
            then st\<lparr>slots := (slots st)(nat (1024 + sint (offset x)) := regs st (src x))\<rparr>
            else st))))"

definition access_load :: "map_table \<Rightarrow> ebpf_inst list \<Rightarrow> bpf_state \<Rightarrow> ebpf_inst \<Rightarrow> stop + bpf_state" where
  "access_load maps is st x =
     check (validate_reg_access (regs st) (dst x) (instno st) WRITE) (\<lambda>_.
     if opcode x = opcode_of OP_LDDW \<and> src x = BPF_PSEUDO_MAP_FD
     then (let st = advance st in
           check (fetch is (instno st)) (\<lambda>y.
             Inr (set_reg_state st (dst x)
               (set_bounds0 MAP_PTR (push_bit 32 (scast (imm y)) OR ucast (imm x)) (regs st (dst x))))))
     else
       check (validate_reg_access (regs st) (src x) (instno st) READ) (\<lambda>_.
       check (validate_mem_access maps st (src x) x READ) (\<lambda>st.
       check (if EBPF_SIZE (opcode x) = size_code SZ_DW \<and> reg_type (regs st (src x)) = STACK_PTR
              then Inr (set_reg_state st (dst x) (slots st (nat (1024 + sint (offset x)))))
              else check (if opcode x = opcode_of OP_LDDW
                          then check (fetch is (instno st + 1))
                                 (\<lambda>y. Inr (scast (imm x) OR push_bit 32 (scast (imm y))))
                          else Inr (scast (imm x)))
                     (\<lambda>val. Inr (set_reg_state st (dst x)
                        ((set_const (regs st (dst x)) val)\<lparr>reg_type := IMM, reg_map := 0\<rparr>)))) (\<lambda>st.
         Inr (if opcode x = opcode_of OP_LDDW then advance st else st)))))"

text \<open>One iteration of the main loop on the current state: the states to continue with, first the one the
  loop keeps, then the one it pushes; none after an exit.\<close>

definition acc_step ::
  "ubpf_vm \<Rightarrow> map_table \<Rightarrow> (u32 \<Rightarrow> u64) \<Rightarrow> ebpf_inst list \<Rightarrow> bpf_state \<Rightarrow> stop + bpf_state list" where
  "acc_step vm maps nr is st =
     check (fetch is (instno st)) (\<lambda>x.
     let cls = EBPF_CLASS (opcode x) in
     if cls = EBPF_CLS_JMP then
       (if opcode x = opcode_of OP_JA
        then Inr [st\<lparr>instno := instno st + (scast (offset x) + 1)\<rparr>]
        else if opcode x = opcode_of OP_CALL
        then check (validate_call vm maps st (imm x)) (\<lambda>st. Inr [advance st])
        else if opcode x = opcode_of OP_EXIT
        then check (validate_reg_access (regs st) 0 (instno st) READ) (\<lambda>_. Inr [])
        else check (validate_jump st x) (\<lambda>(other, st). Inr [advance st, other]))
     else if cls = EBPF_CLS_ST \<or> cls = EBPF_CLS_STX
     then check (access_store maps st x) (\<lambda>st. Inr [advance st])
     else if cls = EBPF_CLS_LD \<or> cls = EBPF_CLS_LDX
     then check (access_load maps is st x) (\<lambda>st. Inr [advance st])
     else if cls = EBPF_CLS_ALU \<or> cls = EBPF_CLS_ALU64
     then check (validate_alu_op (nr (instno st)) st x) (\<lambda>st. Inr [advance st])
     else Inr [advance st])"

section \<open>The loop\<close>

text \<open>The list of states is the current one and the stack of states to explore, top first.\<close>

partial_function (option) acc_loop ::
  "ubpf_vm \<Rightarrow> map_table \<Rightarrow> (u32 \<Rightarrow> u64) \<Rightarrow> ebpf_inst list \<Rightarrow> bpf_state list \<Rightarrow> (stop + unit) option" where
  "acc_loop vm maps nr is todo =
     (case todo of
        [] \<Rightarrow> Some (Inr ())
      | st # rest \<Rightarrow>
          (case acc_step vm maps nr is st of
             Inl e \<Rightarrow> Some (Inl e)
           | Inr next \<Rightarrow> acc_loop vm maps nr is (next @ rest)))"

declare acc_loop.simps [code]

definition zero_reg :: bpf_reg_state where
  "zero_reg = \<lparr>reg_type = UNINIT, reg_map = 0, s_min = 0, s_max = 0, u_min = 0, u_max = 0\<rparr>"

definition acc_init :: bpf_state where
  "acc_init = \<lparr>regs = (\<lambda>r. zero_reg)(1 := zero_reg\<lparr>reg_type := CTX_PTR\<rparr>,
       2 := zero_reg\<lparr>reg_type := PKT_SIZE, u_max := UINT64_MAX, u_min := 0, s_max := INT64_MAX, s_min := INT64_MIN\<rparr>,
       10 := zero_reg\<lparr>reg_type := STACK_PTR\<rparr>),
     slots = (\<lambda>i. zero_reg), instno = 0, pkt_range = 0\<rparr>"

definition validate_accesses ::
  "ubpf_vm \<Rightarrow> map_table \<Rightarrow> (u32 \<Rightarrow> u64) \<Rightarrow> ebpf_inst list \<Rightarrow> (stop + unit) option" where
  "validate_accesses vm maps nr is = acc_loop vm maps nr is [acc_init]"

section \<open>The verifier follows the control flow\<close>

lemma check_Inr: "check m k = Inr v \<longleftrightarrow> (\<exists>u. m = Inr u \<and> k u = Inr v)"
  by (cases m) auto

lemma check_Inl: "check m k = Inl e \<longleftrightarrow> m = Inl e \<or> (\<exists>u. m = Inr u \<and> k u = Inl e)"
  by (cases m) auto

lemma instno_set_reg_state [simp]: "instno (set_reg_state st r v) = instno st"
  by (simp add: set_reg_state_def)

lemma instno_advance [simp]: "instno (advance st) = instno st + 1"
  by (simp add: advance_def)

lemma invalidate_instno [simp]: "instno (invalidate_pkt_pointers st) = instno st"
  by (simp add: invalidate_pkt_pointers_def)

lemma validate_call_instno: "validate_call vm maps st fn = Inr st' \<Longrightarrow> instno st' = instno st"
  by (auto simp: validate_call_def Let_def split: if_splits sum.splits)

lemma validate_jump_instno:
  "validate_jump st x = Inr (other, st') \<Longrightarrow>
     instno st' = instno st \<and> instno other = instno st + (scast (offset x) + 1)"
  by (auto simp: validate_jump_def Let_def split: sum.splits prod.splits)

lemma validate_alu_instno: "validate_alu_op n st x = Inr st' \<Longrightarrow> instno st' = instno st"
  by (auto simp: validate_alu_op_def Let_def split: if_splits option.splits)

lemma validate_mem_instno: "validate_mem_access maps st r x t = Inr st' \<Longrightarrow> instno st' = instno st"
  by (auto simp: validate_mem_access_def Let_def split: if_splits option.splits sum.splits)

lemma access_store_instno: "access_store maps st x = Inr st' \<Longrightarrow> instno st' = instno st"
  by (auto simp: access_store_def check_Inr dest!: validate_mem_instno split: if_splits)

lemma access_load_instno:
  "access_load maps is st x = Inr st' \<Longrightarrow>
     instno st' = (if opcode x = opcode_of OP_LDDW then instno st + 1 else instno st)"
  by (auto simp: access_load_def check_Inr Let_def dest!: validate_mem_instno split: if_splits)

lemma unat_Suc_u32: "unat (a :: u32) < 65536 \<Longrightarrow> unat (a + 1) = Suc (unat a)"
  by (simp add: unat_word_ariths)

lemma fetch_Inr: "fetch is n = Inr x \<longleftrightarrow> unat n < length is \<and> x = is ! unat n"
  by (auto simp: fetch_def)

lemma unat_jump_u32:
  assumes "int t = int (unat n) + 1 + sint (off :: u16)" "t < 65536"
  shows "unat (n + (scast off + 1) :: u32) = t"
proof -
  have "n + (scast off + 1) = (of_int (int t) :: u32)"
    unfolding assms(1) by (simp add: algebra_simps)
  then show ?thesis using assms(2) by (simp add: unat_of_nat)
qed

text \<open>The states a step leaves stand at the successors of the instruction, all of them and in order.\<close>

lemma acc_step_next:
  assumes wf: "well_formed vm is" and n: "length is < 65536"
    and step: "acc_step vm maps nr is st = Inr sts"
  shows "map (\<lambda>s. unat (instno s)) sts = next_pcs is (unat (instno st))"
proof -
  let ?v = "unat (instno st)"
  let ?x = "is ! ?v"
  have v: "?v < length is" using step by (auto simp: acc_step_def check_Inr fetch_Inr)
  have Suc: "unat (instno st + 1) = Suc ?v" using v n by (intro unat_Suc_u32) simp
  have jump: "unat (instno st + (scast (offset ?x) + 1)) = nat (int ?v + 1 + sint (offset ?x))" if "jump_ok is ?v ?x"
    using that n unat_jump_u32 [of _ "instno st" "offset ?x"] by (elim jump_okE) simp
  from wf v show ?thesis
  proof (cases rule: well_formed_cases)
    case tail
    then show ?thesis using step Suc v
      by (auto simp: acc_step_def check_Inr fetch_Inr next_pcs_def dest!: access_load_instno)
  next
    case (inst p)
    consider "op_class p \<noteq> EBPF_CLS_JMP" | "p = OP_JA" | "p = OP_CALL" | "p = OP_EXIT"
      | j where "p = OP_JMP_IMM j \<or> p = OP_JMP_REG j"
      by (cases p) auto
    then show ?thesis
    proof cases
      case 1
      show ?thesis
      proof (cases "p = OP_LDDW")
        case True
        then have "Suc ?v < length is" using inst by simp
        then have "unat (instno st + 1 + 1) = Suc (Suc ?v)" using Suc n by (subst unat_Suc_u32) auto
        then show ?thesis using True step inst
          by (auto simp: acc_step_def check_Inr fetch_Inr next_pcs_def dest!: access_load_instno)
      next
        case False
        then have "next_pcs is ?v = [Suc ?v]" using inst 1 by (cases p) (auto simp: next_pcs_def)
        moreover have "\<exists>st'. sts = [advance st'] \<and> instno st' = instno st"
          using step inst 1 False
          by (auto simp: acc_step_def check_Inr fetch_Inr Let_def split: if_splits
              dest!: access_load_instno access_store_instno validate_alu_instno)
        ultimately show ?thesis using Suc by auto
      qed
    next
      case 2
      then show ?thesis using step inst jump by (auto simp: acc_step_def check_Inr fetch_Inr next_pcs_def)
    next
      case 3
      then show ?thesis using step inst Suc
        by (auto simp: acc_step_def check_Inr fetch_Inr next_pcs_def dest!: validate_call_instno)
    next
      case 4
      then show ?thesis using step inst by (auto simp: acc_step_def check_Inr fetch_Inr next_pcs_def)
    next
      case 5
      then show ?thesis using step inst jump Suc
        by (auto simp: acc_step_def check_Inr fetch_Inr next_pcs_def dest!: validate_jump_instno)
    qed
  qed
qed

section \<open>Every path is explored\<close>

definition acc_rel ::
  "ubpf_vm \<Rightarrow> map_table \<Rightarrow> (u32 \<Rightarrow> u64) \<Rightarrow> ebpf_inst list \<Rightarrow> (bpf_state \<times> bpf_state) set" where
  "acc_rel vm maps nr is = {(st, st'). \<exists>sts. acc_step vm maps nr is st = Inr sts \<and> st' \<in> set sts}"

definition passes :: "ubpf_vm \<Rightarrow> map_table \<Rightarrow> (u32 \<Rightarrow> u64) \<Rightarrow> ebpf_inst list \<Rightarrow> bpf_state \<Rightarrow> bool" where
  "passes vm maps nr is st \<longleftrightarrow>
     (\<forall>st'. (st, st') \<in> (acc_rel vm maps nr is)\<^sup>* \<longrightarrow> (\<exists>sts. acc_step vm maps nr is st' = Inr sts))"

lemma passes_step:
  "passes vm maps nr is st \<longleftrightarrow>
     (\<exists>sts. acc_step vm maps nr is st = Inr sts \<and> (\<forall>st' \<in> set sts. passes vm maps nr is st'))"
proof
  assume p: "passes vm maps nr is st"
  then obtain sts where sts: "acc_step vm maps nr is st = Inr sts" by (auto simp: passes_def)
  then have "(st, st') \<in> acc_rel vm maps nr is" if "st' \<in> set sts" for st'
    using that by (auto simp: acc_rel_def)
  then have "\<forall>st' \<in> set sts. passes vm maps nr is st'"
    using p unfolding passes_def by (meson converse_rtrancl_into_rtrancl)
  with sts show "\<exists>sts. acc_step vm maps nr is st = Inr sts \<and> (\<forall>st' \<in> set sts. passes vm maps nr is st')"
    by blast
next
  assume "\<exists>sts. acc_step vm maps nr is st = Inr sts \<and> (\<forall>st' \<in> set sts. passes vm maps nr is st')"
  then obtain sts where sts: "acc_step vm maps nr is st = Inr sts" "\<forall>st' \<in> set sts. passes vm maps nr is st'"
    by blast
  show "passes vm maps nr is st"
    unfolding passes_def
  proof (intro allI impI)
    fix st'
    assume "(st, st') \<in> (acc_rel vm maps nr is)\<^sup>*"
    then show "\<exists>sts. acc_step vm maps nr is st' = Inr sts"
    proof (cases rule: converse_rtranclE)
      case base
      then show ?thesis using sts by blast
    next
      case (step u)
      then have "u \<in> set sts" using sts(1) by (auto simp: acc_rel_def)
      then show ?thesis using sts(2) step(2) by (auto simp: passes_def)
    qed
  qed
qed

text \<open>The weight of the states to explore: a state at rank k may still branch k times.\<close>

definition weight :: "(nat \<Rightarrow> nat) \<Rightarrow> bpf_state list \<Rightarrow> nat" where
  "weight r sts = (\<Sum>s\<leftarrow>sts. 3 ^ r (unat (instno s)))"

lemma weight_branch:
  assumes "\<And>u. u \<in> set us \<Longrightarrow> r u < r v" "length us \<le> 2"
  shows "(\<Sum>u\<leftarrow>us. 3 ^ r u) < (3 :: nat) ^ r v"
proof -
  consider "us = []" | u where "us = [u]" | u w where "us = [u, w]"
    using assms(2) by (cases us; cases "tl us"; cases "tl (tl us)") auto
  then show ?thesis
  proof cases
    case 3
    have "(3 :: nat) ^ r u \<le> 3 ^ (r v - 1)" "(3 :: nat) ^ r w \<le> 3 ^ (r v - 1)"
      using assms(1) [of u] assms(1) [of w] 3 by (auto intro!: power_increasing)
    moreover have "(3 :: nat) ^ r v = 3 * 3 ^ (r v - 1)"
      using assms(1) [of u] 3 by (cases "r v") auto
    moreover have "(0 :: nat) < 3 ^ (r v - 1)" by simp
    moreover have "(\<Sum>u\<leftarrow>us. 3 ^ r u) = (3 :: nat) ^ r u + 3 ^ r w" using 3 by simp
    ultimately show ?thesis by linarith
  qed (use assms(1) in \<open>auto intro: power_strict_increasing\<close>)
qed

lemma length_next_pcs: "length (next_pcs is v) \<le> 2"
proof -
  have "length (op_next p v x) \<le> 2" for p x by (cases p) auto
  then show ?thesis by (simp add: next_pcs_def split: option.split)
qed


section \<open>What can go wrong inside the verifier\<close>

fun verifier_fault :: "stop \<Rightarrow> bool" where
  "verifier_fault (Reject e) = True"
| "verifier_fault (Crash f) = (f \<in> {Stack_Overrun, Bad_Map_Pointer, Undefined_Arithmetic})"

lemma reg_access_fault: "validate_reg_access R r n t = Inl e \<Longrightarrow> verifier_fault e"
  by (auto simp: validate_reg_access_def split: if_splits)

lemma arg_range_fault: "check_arg_range maps st i sz = Inl e \<Longrightarrow> verifier_fault e"
  by (auto simp: check_arg_range_def Let_def split: if_splits option.splits)

lemma arg_fault: "check_arg maps proto st fn i = Inl e \<Longrightarrow> verifier_fault e"
  by (auto simp: check_arg_def call_arg_size_def Let_def dest: arg_range_fault
      split: if_splits option.splits sum.splits)

lemma args_fault: "check_args maps proto st fn js = Inl e \<Longrightarrow> verifier_fault e"
  by (induction js) (auto dest: arg_fault split: sum.splits)

lemma jump_fault: "validate_jump st x = Inl e \<Longrightarrow> verifier_fault e"
  by (auto simp: validate_jump_def Let_def dest: reg_access_fault split: sum.splits if_splits prod.splits)

lemma slots_fault:
  "write_slots S js = Inl e \<Longrightarrow> verifier_fault e"
  "read_slots S n js = Inl e \<Longrightarrow> verifier_fault e"
  by (induction js arbitrary: S) (auto split: if_splits)

lemma mem_fault: "validate_mem_access maps st r x t = Inl e \<Longrightarrow> verifier_fault e"
  by (auto simp: validate_mem_access_def Let_def dest: slots_fault split: if_splits option.splits sum.splits)

lemma alu_fault: "validate_alu_op n st x = Inl e \<Longrightarrow> verifier_fault e"
  by (auto simp: validate_alu_op_def Let_def split: if_splits option.splits)

lemma store_fault: "access_store maps st x = Inl e \<Longrightarrow> verifier_fault e"
  by (auto simp: access_store_def check_Inl dest: reg_access_fault mem_fault split: if_splits)

lemma call_fault:
  "vm_wf vm \<Longrightarrow> op_ok vm is v x OP_CALL \<Longrightarrow> validate_call vm maps st (imm x) = Inl e \<Longrightarrow> verifier_fault e"
  by (auto simp: validate_call_def Let_def vm_wf_def dest: args_fault split: if_splits sum.splits)

lemma load_fault:
  assumes "opcode x = opcode_of OP_LDDW \<Longrightarrow> unat (instno st + 1) < length is"
  shows "access_load maps is st x = Inl e \<Longrightarrow> verifier_fault e"
  using assms
  by (auto simp: access_load_def check_Inl check_Inr Let_def fetch_def
      dest: reg_access_fault mem_fault validate_mem_instno split: if_splits)

lemma acc_step_fault:
  assumes wf: "vm_wf vm" "well_formed vm is" and n: "length is < 65536" and v: "unat (instno st) < length is"
    and step: "acc_step vm maps nr is st = Inl e"
  shows "verifier_fault e"
proof -
  let ?v = "unat (instno st)"
  let ?x = "is ! ?v"
  have f: "fetch is (instno st) = Inr ?x" using v by (simp add: fetch_def)
  have ld: "access_load maps is st ?x = Inl e \<Longrightarrow> verifier_fault e"
  proof (rule load_fault)
    assume opc: "opcode ?x = opcode_of OP_LDDW"
    with wf(2) v have "Suc ?v < length is" by (cases rule: well_formed_cases) auto
    then show "unat (instno st + 1) < length is" using v n by (subst unat_Suc_u32) auto
  qed
  have ca: "validate_call vm maps st (imm ?x) = Inl e \<Longrightarrow> verifier_fault e" if "opcode ?x = opcode_of OP_CALL"
  proof (rule call_fault [OF wf(1)])
    show "op_ok vm is ?v ?x OP_CALL" using wf(2) v that by (cases rule: well_formed_cases) auto
  qed
  show ?thesis using step f ld ca
    by (auto simp: acc_step_def Let_def check_Inl
        dest: reg_access_fault jump_fault store_fault alu_fault split: if_splits prod.splits)
qed

section \<open>The verdict\<close>

lemma acc_loop_verdict:
  assumes wf: "vm_wf vm" "well_formed vm is" and n: "length is < 65536"
    and X: "X \<subseteq> {..<length is}"
    and r: "\<And>v u. v \<in> X \<Longrightarrow> (v, u) \<in> cfg is \<Longrightarrow> u \<in> X \<and> r u < (r v :: nat)"
  shows "\<forall>s \<in> set todo. unat (instno s) \<in> X \<Longrightarrow>
    \<exists>res. acc_loop vm maps nr is todo = Some res \<and> (res = Inr () \<longleftrightarrow> (\<forall>s \<in> set todo. passes vm maps nr is s))
      \<and> (\<forall>e. res = Inl e \<longrightarrow> verifier_fault e)"
proof (induction "weight r todo" arbitrary: todo rule: less_induct)
  case less
  show ?case
  proof (cases todo)
    case Nil
    then show ?thesis by (subst acc_loop.simps) simp
  next
    case (Cons st rest)
    let ?v = "unat (instno st)"
    have vX: "?v \<in> X" and v: "?v < length is" using less.prems Cons X by auto
    show ?thesis
    proof (cases "acc_step vm maps nr is st")
      case (Inl e)
      then have "\<not> passes vm maps nr is st" by (subst passes_step) simp
      then show ?thesis using Cons Inl acc_step_fault [OF wf n v Inl] by (subst acc_loop.simps) simp
    next
      case (Inr sts)
      have pcs: "map (\<lambda>s. unat (instno s)) sts = next_pcs is ?v" using acc_step_next [OF wf(2) n Inr] .
      have nx: "u \<in> X \<and> r u < r ?v" if "u \<in> set (next_pcs is ?v)" for u
      proof -
        have "(?v, u) \<in> (cfg is)\<^sup>+" using next_pcs_cfg [OF wf(2) n v that] .
        then show ?thesis by (induction rule: trancl_induct) (use r vX in force)+
      qed
      have "weight r sts < 3 ^ r ?v"
        using weight_branch [of "next_pcs is ?v" r ?v] nx length_next_pcs [of "is" ?v]
        by (simp add: weight_def pcs [symmetric] comp_def)
      then have "weight r (sts @ rest) < weight r todo" by (simp add: weight_def Cons)
      moreover have "\<forall>s \<in> set (sts @ rest). unat (instno s) \<in> X"
      proof -
        have "set (map (\<lambda>s. unat (instno s)) sts) \<subseteq> X" unfolding pcs using nx by blast
        then show ?thesis using less.prems Cons by auto
      qed
      ultimately obtain res where "acc_loop vm maps nr is (sts @ rest) = Some res"
        "res = Inr () \<longleftrightarrow> (\<forall>s \<in> set (sts @ rest). passes vm maps nr is s)" "\<forall>e. res = Inl e \<longrightarrow> verifier_fault e"
        using less.hyps by blast
      moreover have "passes vm maps nr is st \<longleftrightarrow> (\<forall>s \<in> set sts. passes vm maps nr is s)"
        using Inr by (subst passes_step) simp
      ultimately show ?thesis using Cons Inr by (subst acc_loop.simps) auto
    qed
  qed
qed

lemma validate_accesses_verdict:
  assumes wf: "vm_wf vm" "length is < 65536"
    and acc: "validate_instructions vm is = Inr ()" "validate_cfg is = Some Cfg_Accepted"
  shows "\<exists>res. validate_accesses vm maps nr is = Some res
    \<and> (res = Inr () \<longleftrightarrow> passes vm maps nr is acc_init) \<and> (\<forall>e. res = Inl e \<longrightarrow> verifier_fault e)"
proof -
  obtain X r where X: "0 \<in> X" "X \<subseteq> {..<length is}" "r 0 < length is"
    and r: "\<forall>v u. v \<in> X \<longrightarrow> (v, u) \<in> cfg is \<longrightarrow> u \<in> X \<and> r u < (r v :: nat)"
    using accepted_ranked [OF acc(2)] by blast
  have "well_formed vm is" using acc(1) by (simp add: validate_instructions_iff)
  moreover have "unat (instno acc_init) = 0" by (simp add: acc_init_def)
  ultimately show ?thesis using acc_loop_verdict [OF wf(1) _ wf(2) X(2), of r "[acc_init]" maps nr] r X(1)
    unfolding validate_accesses_def by simp
qed

section \<open>The verifier sees every run\<close>

definition exec_rel :: "ubpf_vm \<Rightarrow> exec_ctx \<Rightarrow> ebpf_inst list \<Rightarrow> (exec_state \<times> exec_state) set" where
  "exec_rel vm c is = {(st, st'). exec_step vm c is st = Step st'}"

text \<open>Whatever instruction a run of an accepted program reaches, the verifier has checked it, in a state it
  reached along the same instructions.\<close>

lemma accepted_covers:
  assumes wf: "well_formed vm is" and n: "length is < 65536" and p: "passes vm maps nr is acc_init"
    and run: "(init_state c junk h, st) \<in> (exec_rel vm c is)\<^sup>*"
  shows "\<exists>a. (acc_init, a) \<in> (acc_rel vm maps nr is)\<^sup>* \<and> unat (instno a) = unat (pc st)"
  using run
proof (induction rule: rtrancl_induct)
  case base
  have "unat (instno acc_init) = unat (pc (init_state c junk h))" by (simp add: acc_init_def init_state_def)
  then show ?case by blast
next
  case (step st st')
  then obtain a where a: "(acc_init, a) \<in> (acc_rel vm maps nr is)\<^sup>*" "unat (instno a) = unat (pc st)" by blast
  from p a(1) obtain sts where sts: "acc_step vm maps nr is a = Inr sts" by (auto simp: passes_def)
  then have v: "unat (pc st) < length is" using a(2) by (auto simp: acc_step_def check_Inr fetch_Inr)
  have "unat (pc st') \<in> set (next_pcs is (unat (pc st)))"
    using exec_step_next [OF wf n v] step(2) by (simp add: exec_rel_def)
  then have "unat (pc st') \<in> (\<lambda>s. unat (instno s)) ` set sts"
    using acc_step_next [OF wf n sts] a(2) by (metis list.set_map)
  then obtain a' where "a' \<in> set sts" "unat (instno a') = unat (pc st')" by auto
  moreover from this(1) sts have "(a, a') \<in> acc_rel vm maps nr is" by (auto simp: acc_rel_def)
  ultimately show ?case using a(1) by (meson rtrancl.rtrancl_into_rtrancl)
qed

end
