(* ===== verification/Ubpf_Load.thy ===== *)
theory Ubpf_Load
  imports Ubpf_Access
begin

text \<open>
  Loading a program: the byte format of the instructions, the verifier \<^verbatim>\<open>validate\<close> that composes the three
  stages, and \<^verbatim>\<open>ubpf_load\<close> of \<^verbatim>\<open>ubpf_vm.c\<close>.
\<close>

section \<open>The instruction format\<close>

text \<open>The eight bytes of \<^verbatim>\<open>struct ebpf_inst\<close>: the opcode, the two register fields in one byte (destination in
  the low half), the offset and the immediate.\<close>

definition inst_of_bytes :: "u8 list \<Rightarrow> ebpf_inst" where
  "inst_of_bytes b =
     inst (b ! 0) (ucast (b ! 1)) (ucast (drop_bit 4 (b ! 1)))
       (ucast (of_le_bytes (take 2 (drop 2 b)))) (ucast (of_le_bytes (take 4 (drop 4 b))))"

definition bytes_of_inst :: "ebpf_inst \<Rightarrow> u8 list" where
  "bytes_of_inst x =
     [opcode x, ucast (dst x) OR push_bit 4 (ucast (src x))] @ le_bytes 2 (ucast (offset x)) @ le_bytes 4 (ucast (imm x))"

fun insts_of_code :: "u8 list \<Rightarrow> ebpf_inst list" where
  "insts_of_code (b0 # b1 # b2 # b3 # b4 # b5 # b6 # b7 # bs) =
     inst_of_bytes [b0, b1, b2, b3, b4, b5, b6, b7] # insts_of_code bs"
| "insts_of_code bs = []"

lemma length_bytes_of_inst [simp]: "length (bytes_of_inst x) = 8"
  by (simp add: bytes_of_inst_def)

lemma inst_of_bytes_of_inst: "inst_of_bytes (bytes_of_inst x) = x"
proof -
  have "ucast (ucast d OR push_bit 4 (ucast s :: u8)) = d" for d s :: "4 word"
    by (rule bit_word_eqI) (auto simp: bit_simps)
  moreover have "ucast (drop_bit 4 (ucast d OR push_bit 4 (ucast s :: u8))) = s" for d s :: "4 word"
    by (rule bit_word_eqI) (auto simp: bit_simps dest: bit_imp_le_length)
  moreover have "ucast (take_bit 16 (ucast w :: u64)) = w" for w :: u16
    by (rule bit_word_eqI) (auto simp: bit_simps)
  moreover have "ucast (take_bit 32 (ucast w :: u64)) = w" for w :: u32
    by (rule bit_word_eqI) (auto simp: bit_simps)
  ultimately show ?thesis
    using of_le_bytes_le_bytes [of 2 "ucast (offset x)"] of_le_bytes_le_bytes [of 4 "ucast (imm x)"]
    by (simp add: inst_of_bytes_def bytes_of_inst_def del: of_le_bytes_le_bytes)
qed

lemma length_insts_of_code: "length (insts_of_code bs) = length bs div 8"
  by (induction bs rule: insts_of_code.induct) auto

lemma insts_of_code_append:
  "length b = 8 \<Longrightarrow> insts_of_code (b @ bs) = inst_of_bytes b # insts_of_code bs"
  by (auto simp: length_Suc_conv numeral_eq_Suc)

lemma insts_of_code_concat: "insts_of_code (concat (map bytes_of_inst is)) = is"
  by (induction "is") (simp_all add: insts_of_code_append inst_of_bytes_of_inst)

lemma le_bytes_take_bit: "le_bytes n (take_bit (8 * n) v) = le_bytes n v"
proof (rule nth_equalityI)
  fix i
  assume i: "i < length (le_bytes n (take_bit (8 * n) v))"
  then have "8 * i + k < 8 * n" if "k < 8" for k using that by simp
  then show "le_bytes n (take_bit (8 * n) v) ! i = le_bytes n v ! i"
    using i by (intro bit_word_eqI) (auto simp: nth_le_bytes bit_ucast_iff bit_drop_bit_eq bit_take_bit_iff)
qed simp

lemma bytes_of_inst_of_bytes: "length b = 8 \<Longrightarrow> bytes_of_inst (inst_of_bytes b) = b"
proof -
  assume "length b = 8"
  then obtain b0 b1 b2 b3 b4 b5 b6 b7 where b: "b = [b0, b1, b2, b3, b4, b5, b6, b7]"
    by (auto simp: length_Suc_conv numeral_eq_Suc)
  have "ucast (ucast b1 :: 4 word) OR push_bit 4 (ucast (ucast (drop_bit 4 b1) :: 4 word)) = b1"
    by (rule bit_word_eqI) (auto simp: bit_simps)
  moreover have "ucast (ucast v :: u16) = take_bit (8 * 2) v" for v :: u64
    by (rule bit_word_eqI) (auto simp: bit_simps)
  then have "le_bytes 2 (ucast (ucast (of_le_bytes [b2, b3]) :: u16)) = [b2, b3]"
    using le_bytes_of_le_bytes [of "[b2, b3]"] by (simp only: le_bytes_take_bit) (simp add: numeral_2_eq_2)
  moreover have "ucast (ucast v :: u32) = take_bit (8 * 4) v" for v :: u64
    by (rule bit_word_eqI) (auto simp: bit_simps)
  then have "le_bytes 4 (ucast (ucast (of_le_bytes [b4, b5, b6, b7]) :: u32)) = [b4, b5, b6, b7]"
    using le_bytes_of_le_bytes [of "[b4, b5, b6, b7]"] by (simp only: le_bytes_take_bit) (simp add: numeral_eq_Suc)
  ultimately show ?thesis by (simp add: b bytes_of_inst_def inst_of_bytes_def)
qed

section \<open>The verifier\<close>

abbreviation MAX_INSTS :: nat where "MAX_INSTS \<equiv> 65536"

text \<open>The verdict of \<^verbatim>\<open>validate\<close>: acceptance, an error message, or undefined behaviour inside the verifier.\<close>

datatype verdict = Accepted | Invalid verror | Invalid_access aerror | Verifier_undefined

fun access_verdict :: "stop + unit \<Rightarrow> verdict" where
  "access_verdict (Inr _) = Accepted"
| "access_verdict (Inl (Reject e)) = Invalid_access e"
| "access_verdict (Inl (Crash f)) = Verifier_undefined"

definition validate :: "ubpf_vm \<Rightarrow> map_table \<Rightarrow> (u32 \<Rightarrow> u64) \<Rightarrow> ebpf_inst list \<Rightarrow> verdict option" where
  "validate vm maps nr is =
     (if length is \<ge> MAX_INSTS then Some (Invalid Too_many_instructions)
      else case validate_instructions vm is of
        Inl e \<Rightarrow> Some (Invalid e)
      | Inr _ \<Rightarrow>
          (case validate_cfg is of
             None \<Rightarrow> None
           | Some (Cfg_Rejected e) \<Rightarrow> Some (Invalid e)
           | Some Cfg_Out_Of_Range \<Rightarrow> Some Verifier_undefined
           | Some Cfg_Accepted \<Rightarrow> map_option access_verdict (validate_accesses vm maps nr is)))"

datatype load_error = Already_loaded | Bad_code_length | Rejected verdict

text \<open>\<^verbatim>\<open>ubpf_load\<close> at wall-clock time \<open>now\<close>: the error if there is one, and the VM.  \<open>None\<close> would be a verifier
  that does not return.\<close>

definition ubpf_load ::
  "map_table \<Rightarrow> (u32 \<Rightarrow> u64) \<Rightarrow> u64 \<Rightarrow> ubpf_vm \<Rightarrow> u8 list \<Rightarrow> (load_error option \<times> ubpf_vm) option" where
  "ubpf_load maps nr now vm code =
     (if insts vm \<noteq> None then Some (Some Already_loaded, vm)
      else if length code mod 8 \<noteq> 0 then Some (Some Bad_code_length, vm)
      else (case validate vm maps nr (insts_of_code code) of
              None \<Rightarrow> None
            | Some v \<Rightarrow>
                Some (if v = Accepted
                      then (None, vm\<lparr>insts := Some (insts_of_code code),
                                     num_insts := of_nat (length code div 8), loaded_at := now\<rparr>)
                      else (Some (Rejected v), vm))))"

lemma validate_total: "vm_wf vm \<Longrightarrow> \<exists>v. validate vm maps nr is = Some v"
proof -
  assume wf: "vm_wf vm"
  show ?thesis
  proof (cases "length is < MAX_INSTS \<and> validate_instructions vm is = Inr ()")
    case True
    have "\<exists>r. validate_cfg is = Some r"
      using validate_cfg_total [of "is"] by (cases "is = []") (auto simp: validate_cfg_def)
    then obtain r where r: "validate_cfg is = Some r" by blast
    show ?thesis
    proof (cases r)
      case Cfg_Accepted
      then obtain res where "validate_accesses vm maps nr is = Some res"
        using validate_accesses_verdict [OF wf, of "is"] True r by blast
      then show ?thesis using True r Cfg_Accepted by (simp add: validate_def)
    qed (use True r in \<open>simp_all add: validate_def\<close>)
  next
    case False
    then show ?thesis by (auto simp: validate_def split: sum.splits)
  qed
qed

lemma validate_Accepted:
  assumes wf: "vm_wf vm"
  shows "validate vm maps nr is = Some Accepted \<longleftrightarrow>
     length is < MAX_INSTS \<and> validate_instructions vm is = Inr () \<and> validate_cfg is = Some Cfg_Accepted
     \<and> passes vm maps nr is acc_init"
proof -
  have acc: "access_verdict r = Accepted \<longleftrightarrow> r = Inr ()" for r
    by (cases r rule: access_verdict.cases) auto
  have "validate vm maps nr is = Some Accepted \<longleftrightarrow>
     length is < MAX_INSTS \<and> validate_instructions vm is = Inr () \<and> validate_cfg is = Some Cfg_Accepted
     \<and> validate_accesses vm maps nr is = Some (Inr ())"
    by (auto simp: validate_def acc split: sum.splits option.splits cfg_verdict.splits)
  also have "\<dots> \<longleftrightarrow> length is < MAX_INSTS \<and> validate_instructions vm is = Inr ()
     \<and> validate_cfg is = Some Cfg_Accepted \<and> passes vm maps nr is acc_init"
    using validate_accesses_verdict [OF wf, of "is" maps nr] by fastforce
  finally show ?thesis .
qed

section \<open>Loading\<close>

lemma ubpf_load_total: "vm_wf vm \<Longrightarrow> \<exists>e vm'. ubpf_load maps nr now vm code = Some (e, vm')"
  using validate_total [of vm maps nr "insts_of_code code"] by (auto simp: ubpf_load_def)

lemma ubpf_load_error: "ubpf_load maps nr now vm code = Some (Some e, vm') \<Longrightarrow> vm' = vm"
  by (auto simp: ubpf_load_def split: if_splits option.splits)

lemma ubpf_load_ok:
  assumes "vm_wf vm" "ubpf_load maps nr now vm code = Some (None, vm')"
  shows "insts vm = None" "length code mod 8 = 0"
    "vm' = vm\<lparr>insts := Some (insts_of_code code), num_insts := of_nat (length code div 8), loaded_at := now\<rparr>"
    "validate vm maps nr (insts_of_code code) = Some Accepted"
  using assms(2) by (auto simp: ubpf_load_def split: if_splits option.splits)

lemma well_formed_cong: "ext_funcs vm = ext_funcs vm' \<Longrightarrow> well_formed vm is \<longleftrightarrow> well_formed vm' is"
proof -
  assume e: "ext_funcs vm = ext_funcs vm'"
  then have "op_ok vm is i x p = op_ok vm' is i x p" for i x p by (cases p) simp_all
  then show ?thesis by (simp add: well_formed_def inst_ok_def)
qed

lemma loaded_runs:
  assumes wf: "vm_wf vm" and ld: "ubpf_load maps nr now vm code = Some (None, vm')"
  shows "\<exists>res. exec_bounded (length code div 8) vm' c (insts_of_code code) (init_state c junk h) = Some res
    \<and> ubpf_exec vm' c junk h = Some res \<and> (\<forall>f. res = Inl f \<longrightarrow> residual_fault (insts_of_code code) f)"
proof -
  let ?is = "insts_of_code code"
  note ok = ubpf_load_ok [OF wf ld]
  have acc: "length ?is < MAX_INSTS" "validate_instructions vm ?is = Inr ()" "validate_cfg ?is = Some Cfg_Accepted"
    using ok(4) by (simp_all add: validate_Accepted [OF wf])
  have "vm_wf vm'" using wf by (simp add: ok(3) vm_wf_def)
  moreover have "validate_instructions vm' ?is = Inr ()"
    using acc(2) well_formed_cong [of vm vm'] by (simp add: validate_instructions_iff ok(3))
  ultimately obtain res where "exec_bounded (length ?is) vm' c ?is (init_state c junk h) = Some res"
    "\<forall>f. res = Inl f \<longrightarrow> residual_fault ?is f"
    using accepted_runs [of vm' ?is "init_state c junk h" c] acc by (auto simp: init_state_def)
  moreover have "insts vm' = Some ?is" by (simp add: ok(3))
  ultimately show ?thesis
    using exec_bounded_loop by (fastforce simp: ubpf_exec_def length_insts_of_code)
qed

section \<open>Properties\<close>





end
