(* ===== verification/Ubpf_Alu.thy ===== *)
theory Ubpf_Alu
  imports Ubpf_Exec
begin

text \<open>
  What the arithmetic of the interpreter computes: the 32-bit instructions, which the code performs on
  64-bit registers and masks, are the operations on 32-bit words, and the byte-order instructions
  reverse or truncate the bytes of a register.
\<close>

section \<open>Arithmetic of 32-bit instructions\<close>

text \<open>The 32-bit instructions as operations on 32-bit words.\<close>

fun alu32_word :: "alu_op \<Rightarrow> u32 \<Rightarrow> u32 \<Rightarrow> u32" where
  "alu32_word ADD d s = d + s"
| "alu32_word SUB d s = d - s"
| "alu32_word MUL d s = d * s"
| "alu32_word DIV d s = d div s"
| "alu32_word OR_OP d s = d OR s"
| "alu32_word AND_OP d s = d AND s"
| "alu32_word LSH d s = push_bit (unat s) d"
| "alu32_word RSH d s = drop_bit (unat s) d"
| "alu32_word MOD d s = d mod s"
| "alu32_word XOR_OP d s = d XOR s"
| "alu32_word MOV d s = s"
| "alu32_word ARSH d s = signed_drop_bit (unat s) d"

lemma mask32_ucast: "mask32 v = ucast (u32 v)"
proof -
  have "(0xffffffff :: u64) = mask 32" by (simp add: mask_eq_exp_minus_1)
  then have "mask32 v = take_bit 32 v" by (simp add: mask32_def take_bit_eq_mask)
  also have "\<dots> = ucast (u32 v)" by (rule bit_word_eqI) (auto simp: u32_def bit_simps)
  finally show ?thesis .
qed

lemma u32_arith [simp]:
  "u32 (a + b) = u32 a + u32 b" "u32 (a - b) = u32 a - u32 b" "u32 (a * b) = u32 a * u32 b"
  "u32 (- a) = - u32 a"
  unfolding u32_def 
  by (simp_all add: word_uint_eq_iff unsigned_ucast_eq uint_word_ariths take_bit_eq_mod mod_simps mod_mod_cancel)

lemma u32_bits [simp]:
  "u32 (ucast (w :: u32)) = w" "u32 (scast (w :: u32)) = w" "u32 (push_bit n a) = push_bit n (u32 a)"
  "u32 (a OR b) = u32 a OR u32 b" "u32 (a AND b) = u32 a AND u32 b" "u32 (a XOR b) = u32 a XOR u32 b"
  unfolding u32_def by (intro bit_word_eqI; auto simp: bit_simps)+

lemmas alu32_defs = mask32_ucast shl64_def shr32_def sar32_def

lemma uint_less_unat: "uint w < int n \<longleftrightarrow> unat w < n"
  unfolding uint_nat by (rule of_nat_less_iff)

lemma sint_small: "unat (i :: u32) < 32 \<Longrightarrow> sint i = uint i"
proof -
  assume "unat i < 32"
  then have "uint i < 32" using uint_less_unat [of i 32] by simp
  moreover have "0 \<le> uint i" by simp
  ultimately show ?thesis unfolding sint_uint by (intro signed_take_bit_int_eq_self; simp; linarith)
qed

lemma unat_u32: "unat (u32 s) = unat s mod 2 ^ 32"
  by (simp add: u32_def unsigned_ucast_eq take_bit_eq_mod)

lemma u32_eq_0: "u32 s = 0 \<longleftrightarrow> unat s mod 2 ^ 32 = 0"
  unfolding unat_u32 [symmetric] by (rule unat_eq_zero [symmetric])

definition alu32_defined :: "alu_op \<Rightarrow> nat \<Rightarrow> bool" where
  "alu32_defined a s \<longleftrightarrow> (a \<in> {DIV, MOD} \<longrightarrow> s mod 2 ^ 32 \<noteq> 0) \<and> (a \<in> {LSH, RSH, ARSH} \<longrightarrow> s < 32)"

lemma alu32_imm_word:
  assumes "alu32_defined a (unat i)"
  shows "alu32_imm a d i = Inr (ucast (alu32_word a (u32 d) i))"
  using assms sint_small [of i] uint_less_unat [of i 32] uint_less_unat [of i 64]
  by (cases a) (auto simp: alu32_defs alu32_defined_def)

lemma alu32_reg_word:
  assumes "alu32_defined a (unat s)"
  shows "alu32_reg a d s = Some (Inr (ucast (alu32_word a (u32 d) (u32 s))))"
  using assms unat_u32 [of s] u32_eq_0 [of s] uint_less_unat [of s 32] uint_less_unat [of s 64]
    uint_less_unat [of "u32 s" 32]
  by (cases a) (auto simp: alu32_defs alu32_defined_def)

section \<open>Byte order\<close>

lemma le_bytes_htobe: "n \<le> 8 \<Longrightarrow> le_bytes n (htobe n v) = rev (le_bytes n v)"
  using le_bytes_of_le_bytes [of "rev (le_bytes n v)"] by (simp add: htobe_def del: le_bytes_of_le_bytes)

lemma htobe_htobe: "n \<le> 8 \<Longrightarrow> htobe n (htobe n v) = take_bit (8 * n) v"
  by (simp add: htobe_def [of n "htobe n v"] le_bytes_htobe)

lemma htole_eq: "htole n v = take_bit (8 * n) v"
  by (simp add: htole_def)

section \<open>Properties\<close>

text \<open>(C12) The 32-bit arithmetic instructions, which the interpreter performs on 64-bit registers, compute the
  operation on 32-bit words and leave its zero-extended result, for immediate and register operands,
  whenever the operation is defined.\<close>

theorem alu32_is_word_arithmetic:
  assumes "alu32_defined a (unat s)" "alu32_defined a (unat i)"
  shows "alu32_imm a d i = Inr (ucast (alu32_word a (u32 d) i))
    \<and> alu32_reg a d s = Some (Inr (ucast (alu32_word a (u32 d) (u32 s))))"
  using alu32_imm_word [OF assms(2)] alu32_reg_word [OF assms(1)] by blast

theorem alu32_is_word_arithmetic_witness:
  "alu32_imm ARSH 0xffffffff80000000 4 = Inr 0xf8000000
   \<and> alu32_reg ARSH 0xffffffff80000000 4 = Some (Inr 0xf8000000)"
proof -
  have "ucast (alu32_word ARSH (u32 0xffffffff80000000) 4) = (0xf8000000 :: u64)" by code_simp
  moreover have "u32 4 = 4" by (simp add: u32_def)
  ultimately show ?thesis
    using alu32_is_word_arithmetic [of ARSH 4 4 "0xffffffff80000000"] by (simp add: alu32_defined_def)
qed



end
