(* ===== verification/Lookup3.thy ===== *)
theory Lookup3
  imports Ubpf_Prelude
begin

text \<open>
  The hash functions of \<^verbatim>\<open>lookup3.c\<close>: the mixing macros, the hashes of word arrays, and the
  hashes of keys in memory, which read a key through pointers to words, halves or bytes
  depending on its alignment.  A reference definition on byte strings states what they
  compute, and the locale \<open>block_reader\<close> is the contract under which a way of reading a block
  gives the reference hash.
\<close>

section \<open>Mixing\<close>

type_synonym hstate = "u32 \<times> u32 \<times> u32"

definition rot :: "u32 \<Rightarrow> nat \<Rightarrow> u32" where
  "rot x k = push_bit k x OR drop_bit (32 - k) x"

text \<open>One line of \<^verbatim>\<open>mix\<close>: \<^verbatim>\<open>x -= z; x ^= rot(z, k); z += y\<close>.\<close>

definition mix_line :: "nat \<Rightarrow> u32 \<Rightarrow> u32 \<Rightarrow> u32 \<Rightarrow> u32 \<times> u32" where
  "mix_line k x z y = ((x - z) XOR rot z k, z + y)"

definition mix :: "hstate \<Rightarrow> hstate" where
  "mix = (\<lambda>(a, b, c).
     (let (a, c) = mix_line 4 a c b;
          (b, a) = mix_line 6 b a c;
          (c, b) = mix_line 8 c b a;
          (a, c) = mix_line 16 a c b;
          (b, a) = mix_line 19 b a c;
          (c, b) = mix_line 4 c b a
      in (a, b, c)))"

text \<open>One line of \<^verbatim>\<open>final\<close>: \<^verbatim>\<open>x ^= z; x -= rot(z, k)\<close>.\<close>

definition final_line :: "nat \<Rightarrow> u32 \<Rightarrow> u32 \<Rightarrow> u32" where
  "final_line k x z = (x XOR z) - rot z k"

definition final :: "hstate \<Rightarrow> hstate" where
  "final = (\<lambda>(a, b, c).
     (let c = final_line 14 c b;
          a = final_line 11 a c;
          b = final_line 25 b a;
          c = final_line 16 c b;
          a = final_line 4 a c;
          b = final_line 14 b a;
          c = final_line 24 c b
      in (a, b, c)))"

section \<open>Keys that are arrays of words\<close>

function hashword_loop :: "u32 list \<Rightarrow> hstate \<Rightarrow> u32 list \<times> hstate" where
  "hashword_loop k (a, b, c) =
     (if length k > 3
      then hashword_loop (drop 3 k) (mix (a + k ! 0, b + k ! 1, c + k ! 2))
      else (k, (a, b, c)))"
  by pat_completeness auto
termination
  by (relation "measure (\<lambda>(k, s). length k)") auto

declare hashword_loop.simps [simp del]

text \<open>The final \<^verbatim>\<open>switch\<close>, whose cases fall through.\<close>

definition hashword_tail :: "u32 list \<Rightarrow> hstate \<Rightarrow> hstate" where
  "hashword_tail k s =
     (let (a, b, c) = s;
          c = (if length k \<ge> 3 then c + k ! 2 else c);
          b = (if length k \<ge> 2 then b + k ! 1 else b)
      in if length k \<ge> 1 then final (a + k ! 0, b, c) else (a, b, c))"

definition hashword :: "u32 list \<Rightarrow> u32 \<Rightarrow> u32" where
  "hashword k initval =
     (let i = 0xdeadbeef + push_bit 2 (of_nat (length k)) + initval;
          (k, s) = hashword_loop k (i, i, i); (a, b, c) = hashword_tail k s in c)"

text \<open>The values of \<^verbatim>\<open>*pc\<close> and \<^verbatim>\<open>*pb\<close> after the call.\<close>

definition hashword2 :: "u32 list \<Rightarrow> u32 \<Rightarrow> u32 \<Rightarrow> u32 \<times> u32" where
  "hashword2 k pc pb =
     (let i = 0xdeadbeef + ucast (push_bit 2 (of_nat (length k)) :: u64) + pc;
          (k, s) = hashword_loop k (i, i, i + pb); (a, b, c) = hashword_tail k s in (c, b))"

section \<open>Keys in memory\<close>

definition rd8 :: "heap \<Rightarrow> u64 \<Rightarrow> nat \<Rightarrow> u32" where
  "rd8 h k i = ucast (h (k + of_nat i))"

definition rd16 :: "heap \<Rightarrow> u64 \<Rightarrow> nat \<Rightarrow> u32" where
  "rd16 h k i = ucast (load_le 2 h (k + of_nat (2 * i)))"

definition rd32 :: "heap \<Rightarrow> u64 \<Rightarrow> nat \<Rightarrow> u32" where
  "rd32 h k i = ucast (load_le 4 h (k + of_nat (4 * i)))"

text \<open>Adding a block of twelve bytes to the state, through pointers to words, to halves and to bytes.\<close>

definition absorb32 :: "heap \<Rightarrow> u64 \<Rightarrow> hstate \<Rightarrow> hstate" where
  "absorb32 h k = (\<lambda>(a, b, c). (a + rd32 h k 0, b + rd32 h k 1, c + rd32 h k 2))"

definition absorb16 :: "heap \<Rightarrow> u64 \<Rightarrow> hstate \<Rightarrow> hstate" where
  "absorb16 h k = (\<lambda>(a, b, c).
     (a + (rd16 h k 0 + push_bit 16 (rd16 h k 1)),
      b + (rd16 h k 2 + push_bit 16 (rd16 h k 3)),
      c + (rd16 h k 4 + push_bit 16 (rd16 h k 5))))"

definition absorb8 :: "heap \<Rightarrow> u64 \<Rightarrow> hstate \<Rightarrow> hstate" where
  "absorb8 h k = (\<lambda>(a, b, c).
     (a + rd8 h k 0 + push_bit 8 (rd8 h k 1) + push_bit 16 (rd8 h k 2) + push_bit 24 (rd8 h k 3),
      b + rd8 h k 4 + push_bit 8 (rd8 h k 5) + push_bit 16 (rd8 h k 6) + push_bit 24 (rd8 h k 7),
      c + rd8 h k 8 + push_bit 8 (rd8 h k 9) + push_bit 16 (rd8 h k 10) + push_bit 24 (rd8 h k 11)))"

text \<open>The last block of one to twelve bytes.  The word version reads whole words and masks.\<close>

definition tail32 :: "heap \<Rightarrow> u64 \<Rightarrow> nat \<Rightarrow> hstate \<Rightarrow> hstate" where
  "tail32 h k n = (\<lambda>(a, b, c).
     (let k0 = rd32 h k 0; k1 = rd32 h k 1; k2 = rd32 h k 2 in
      if n = 12 then (a + k0, b + k1, c + k2)
      else if n = 11 then (a + k0, b + k1, c + (k2 AND 0xffffff))
      else if n = 10 then (a + k0, b + k1, c + (k2 AND 0xffff))
      else if n = 9 then (a + k0, b + k1, c + (k2 AND 0xff))
      else if n = 8 then (a + k0, b + k1, c)
      else if n = 7 then (a + k0, b + (k1 AND 0xffffff), c)
      else if n = 6 then (a + k0, b + (k1 AND 0xffff), c)
      else if n = 5 then (a + k0, b + (k1 AND 0xff), c)
      else if n = 4 then (a + k0, b, c)
      else if n = 3 then (a + (k0 AND 0xffffff), b, c)
      else if n = 2 then (a + (k0 AND 0xffff), b, c)
      else if n = 1 then (a + (k0 AND 0xff), b, c)
      else (a, b, c)))"

definition tail16 :: "heap \<Rightarrow> u64 \<Rightarrow> nat \<Rightarrow> hstate \<Rightarrow> hstate" where
  "tail16 h k n = (\<lambda>(a, b, c).
     (let w0 = rd16 h k 0 + push_bit 16 (rd16 h k 1); w1 = rd16 h k 2 + push_bit 16 (rd16 h k 3);
          w2 = rd16 h k 4 + push_bit 16 (rd16 h k 5) in
      if n = 12 then (a + w0, b + w1, c + w2)
      else if n = 11 then (a + w0, b + w1, c + push_bit 16 (rd8 h k 10) + rd16 h k 4)
      else if n = 10 then (a + w0, b + w1, c + rd16 h k 4)
      else if n = 9 then (a + w0, b + w1, c + rd8 h k 8)
      else if n = 8 then (a + w0, b + w1, c)
      else if n = 7 then (a + w0, b + push_bit 16 (rd8 h k 6) + rd16 h k 2, c)
      else if n = 6 then (a + w0, b + rd16 h k 2, c)
      else if n = 5 then (a + w0, b + rd8 h k 4, c)
      else if n = 4 then (a + w0, b, c)
      else if n = 3 then (a + push_bit 16 (rd8 h k 2) + rd16 h k 0, b, c)
      else if n = 2 then (a + rd16 h k 0, b, c)
      else if n = 1 then (a + rd8 h k 0, b, c)
      else (a, b, c)))"

text \<open>All cases of the byte version fall through.\<close>

definition tail8 :: "heap \<Rightarrow> u64 \<Rightarrow> nat \<Rightarrow> hstate \<Rightarrow> hstate" where
  "tail8 h k n = (\<lambda>(a, b, c).
     (let c = (if n \<ge> 12 then c + push_bit 24 (rd8 h k 11) else c);
          c = (if n \<ge> 11 then c + push_bit 16 (rd8 h k 10) else c);
          c = (if n \<ge> 10 then c + push_bit 8 (rd8 h k 9) else c);
          c = (if n \<ge> 9 then c + rd8 h k 8 else c);
          b = (if n \<ge> 8 then b + push_bit 24 (rd8 h k 7) else b);
          b = (if n \<ge> 7 then b + push_bit 16 (rd8 h k 6) else b);
          b = (if n \<ge> 6 then b + push_bit 8 (rd8 h k 5) else b);
          b = (if n \<ge> 5 then b + rd8 h k 4 else b);
          a = (if n \<ge> 4 then a + push_bit 24 (rd8 h k 3) else a);
          a = (if n \<ge> 3 then a + push_bit 16 (rd8 h k 2) else a);
          a = (if n \<ge> 2 then a + push_bit 8 (rd8 h k 1) else a);
          a = (if n \<ge> 1 then a + rd8 h k 0 else a)
      in (a, b, c)))"

text \<open>The loop over the blocks before the last one, and the whole body on an initial state.\<close>

fun hash_loop ::
  "(heap \<Rightarrow> u64 \<Rightarrow> hstate \<Rightarrow> hstate) \<Rightarrow> heap \<Rightarrow> u64 \<Rightarrow> nat \<Rightarrow> hstate \<Rightarrow> u64 \<times> nat \<times> hstate" where
  "hash_loop absorb h k n s =
     (if n > 12 then hash_loop absorb h (k + 12) (n - 12) (mix (absorb h k s)) else (k, n, s))"

declare hash_loop.simps [simp del]

definition hash_body ::
  "(heap \<Rightarrow> u64 \<Rightarrow> hstate \<Rightarrow> hstate) \<Rightarrow> (heap \<Rightarrow> u64 \<Rightarrow> nat \<Rightarrow> hstate \<Rightarrow> hstate)
   \<Rightarrow> heap \<Rightarrow> u64 \<Rightarrow> nat \<Rightarrow> hstate \<Rightarrow> hstate" where
  "hash_body absorb tail h key n s =
     (let (k, n, s) = hash_loop absorb h key n s in if n = 0 then s else final (tail h k n s))"

definition hash_dispatch :: "heap \<Rightarrow> u64 \<Rightarrow> nat \<Rightarrow> hstate \<Rightarrow> hstate" where
  "hash_dispatch h key n s =
     (if key AND 3 = 0 then hash_body absorb32 tail32 h key n s
      else if key AND 1 = 0 then hash_body absorb16 tail16 h key n s
      else hash_body absorb8 tail8 h key n s)"

definition hashlittle :: "heap \<Rightarrow> u64 \<Rightarrow> nat \<Rightarrow> u32 \<Rightarrow> u32" where
  "hashlittle h key len initval =
     (let i = 0xdeadbeef + of_nat len + initval; (a, b, c) = hash_dispatch h key len (i, i, i) in c)"

definition hashlittle2 :: "heap \<Rightarrow> u64 \<Rightarrow> nat \<Rightarrow> u32 \<Rightarrow> u32 \<Rightarrow> u32 \<times> u32" where
  "hashlittle2 h key len pc pb =
     (let i = 0xdeadbeef + of_nat len + pc; (a, b, c) = hash_dispatch h key len (i, i, i + pb) in (c, b))"

text \<open>\<^verbatim>\<open>hashbig\<close> on a little-endian host, where only its byte version is compiled in.\<close>

definition absorb_be :: "heap \<Rightarrow> u64 \<Rightarrow> hstate \<Rightarrow> hstate" where
  "absorb_be h k = (\<lambda>(a, b, c).
     (a + push_bit 24 (rd8 h k 0) + push_bit 16 (rd8 h k 1) + push_bit 8 (rd8 h k 2) + rd8 h k 3,
      b + push_bit 24 (rd8 h k 4) + push_bit 16 (rd8 h k 5) + push_bit 8 (rd8 h k 6) + rd8 h k 7,
      c + push_bit 24 (rd8 h k 8) + push_bit 16 (rd8 h k 9) + push_bit 8 (rd8 h k 10) + rd8 h k 11))"

definition tail_be :: "heap \<Rightarrow> u64 \<Rightarrow> nat \<Rightarrow> hstate \<Rightarrow> hstate" where
  "tail_be h k n = (\<lambda>(a, b, c).
     (let c = (if n \<ge> 12 then c + rd8 h k 11 else c);
          c = (if n \<ge> 11 then c + push_bit 8 (rd8 h k 10) else c);
          c = (if n \<ge> 10 then c + push_bit 16 (rd8 h k 9) else c);
          c = (if n \<ge> 9 then c + push_bit 24 (rd8 h k 8) else c);
          b = (if n \<ge> 8 then b + rd8 h k 7 else b);
          b = (if n \<ge> 7 then b + push_bit 8 (rd8 h k 6) else b);
          b = (if n \<ge> 6 then b + push_bit 16 (rd8 h k 5) else b);
          b = (if n \<ge> 5 then b + push_bit 24 (rd8 h k 4) else b);
          a = (if n \<ge> 4 then a + rd8 h k 3 else a);
          a = (if n \<ge> 3 then a + push_bit 8 (rd8 h k 2) else a);
          a = (if n \<ge> 2 then a + push_bit 16 (rd8 h k 1) else a);
          a = (if n \<ge> 1 then a + push_bit 24 (rd8 h k 0) else a)
      in (a, b, c)))"

definition hashbig :: "heap \<Rightarrow> u64 \<Rightarrow> nat \<Rightarrow> u32 \<Rightarrow> u32" where
  "hashbig h key len initval =
     (let i = 0xdeadbeef + of_nat len + initval; (a, b, c) = hash_body absorb_be tail_be h key len (i, i, i) in c)"

section \<open>Reference definition\<close>

text \<open>The hash of a byte string: little-endian words of the string padded with zero bytes to
  whole blocks of three words, each block added to the state and mixed.\<close>

definition le32 :: "u8 \<Rightarrow> u8 \<Rightarrow> u8 \<Rightarrow> u8 \<Rightarrow> u32" where
  "le32 w x y z = ucast w + push_bit 8 (ucast x) + push_bit 16 (ucast y) + push_bit 24 (ucast z)"

definition byte_or_0 :: "u8 list \<Rightarrow> nat \<Rightarrow> u8" where
  "byte_or_0 bs i = (if i < length bs then bs ! i else 0)"

definition word_or_0 :: "u8 list \<Rightarrow> nat \<Rightarrow> u32" where
  "word_or_0 bs i = le32 (byte_or_0 bs (4 * i)) (byte_or_0 bs (4 * i + 1)) (byte_or_0 bs (4 * i + 2)) (byte_or_0 bs (4 * i + 3))"

fun add_block :: "hstate \<Rightarrow> (nat \<Rightarrow> u32) \<Rightarrow> hstate" where
  "add_block (a, b, c) w = (a + w 0, b + w 1, c + w 2)"

function spec_hash :: "(u8 list \<Rightarrow> nat \<Rightarrow> u32) \<Rightarrow> u8 list \<Rightarrow> hstate \<Rightarrow> hstate" where
  "spec_hash rd bs s =
     (if length bs > 12 then spec_hash rd (drop 12 bs) (mix (add_block s (rd bs)))
      else if bs = [] then s else final (add_block s (rd bs)))"
  by pat_completeness auto
termination
  by (relation "measure (\<lambda>(rd, bs, s). length bs)") auto

declare spec_hash.simps [simp del]

definition bytes_at :: "heap \<Rightarrow> u64 \<Rightarrow> nat \<Rightarrow> u8 list" where
  "bytes_at h a n = map (\<lambda>i. h (a + of_nat i)) [0..<n]"

lemma length_bytes_at [simp]: "length (bytes_at h a n) = n"
  by (simp add: bytes_at_def)

lemma bytes_at_Nil [simp]: "bytes_at h a n = [] \<longleftrightarrow> n = 0"
  by (simp add: bytes_at_def)

lemma byte_or_0_bytes_at [simp]: "byte_or_0 (bytes_at h a n) i = (if i < n then h (a + of_nat i) else 0)"
  by (simp add: byte_or_0_def bytes_at_def)

lemma drop_bytes_at: "drop m (bytes_at h a n) = bytes_at h (a + of_nat m) (n - m)"
  by (rule nth_equalityI) (auto simp: bytes_at_def add.assoc less_diff_conv add.commute [of _ m] simp flip: of_nat_add)

subsection \<open>Words and their bytes\<close>

lemma bit_u8_high: "bit (x :: u8) i \<Longrightarrow> i < 8"
  using bit_imp_le_length [of x i] by simp

lemma le32_or:
  "le32 w x y z = ucast w OR push_bit 8 (ucast x) OR push_bit 16 (ucast y) OR push_bit 24 (ucast z)"
proof -
  have 1: "(ucast w :: u32) AND push_bit 8 (ucast x) = 0"
    by (rule bit_word_eqI) (auto simp: bit_and_iff bit_push_bit_iff bit_ucast_iff dest!: bit_u8_high)
  have 2: "((ucast w :: u32) OR push_bit 8 (ucast x)) AND push_bit 16 (ucast y) = 0"
    by (rule bit_word_eqI) (auto simp: bit_and_iff bit_or_iff bit_push_bit_iff bit_ucast_iff dest!: bit_u8_high)
  have 3: "((ucast w :: u32) OR push_bit 8 (ucast x) OR push_bit 16 (ucast y)) AND push_bit 24 (ucast z) = 0"
    by (rule bit_word_eqI) (auto simp: bit_and_iff bit_or_iff bit_push_bit_iff bit_ucast_iff dest!: bit_u8_high)
  show ?thesis unfolding le32_def
    by (simp add: disjunctive_add_eq_or 1 2 3 or.assoc)
qed

lemma bit_le32:
  "bit (le32 w x y z) i \<longleftrightarrow> i < 32 \<and> (bit w i \<or> 8 \<le> i \<and> bit x (i - 8) \<or> 16 \<le> i \<and> bit y (i - 16) \<or> 24 \<le> i \<and> bit z (i - 24))"
  by (auto simp: le32_or bit_or_iff bit_push_bit_iff bit_ucast_iff dest: bit_u8_high)

lemma le32_mask [simp]:
  "le32 w x y z AND 0xffffff = le32 w x y 0"
  "le32 w x y z AND 0xffff = le32 w x 0 0"
  "le32 w x y z AND 0xff = le32 w 0 0 0"
proof -
  have m: "(0xffffff :: u32) = mask 24" "(0xffff :: u32) = mask 16" "(0xff :: u32) = mask 8"
    by (simp_all add: mask_eq_exp_minus_1)
  show "le32 w x y z AND 0xffffff = le32 w x y 0" unfolding m
    by (rule bit_word_eqI) (auto simp: bit_and_iff bit_le32 bit_mask_iff dest: bit_u8_high)
  show "le32 w x y z AND 0xffff = le32 w x 0 0" unfolding m
    by (rule bit_word_eqI) (auto simp: bit_and_iff bit_le32 bit_mask_iff dest: bit_u8_high)
  show "le32 w x y z AND 0xff = le32 w 0 0 0" unfolding m
    by (rule bit_word_eqI) (auto simp: bit_and_iff bit_le32 bit_mask_iff dest: bit_u8_high)
qed

lemma load_le_unfold:
  "load_le 2 h a = ucast (h a) OR push_bit 8 (ucast (h (a + 1)))"
  "load_le 4 h a = ucast (h a) OR push_bit 8 (ucast (h (a + 1))) OR push_bit 16 (ucast (h (a + 2))) OR push_bit 24 (ucast (h (a + 3)))"
  by (simp_all add: numeral_eq_Suc or.assoc add.assoc)

lemma ucast_shifted_byte: "k \<le> 24 \<Longrightarrow> ucast (push_bit k (ucast (x :: u8)) :: u64) = (push_bit k (ucast x) :: u32)"
  by (rule bit_word_eqI) (auto simp: bit_ucast_iff bit_push_bit_iff)

lemma ucast_byte: "ucast (ucast (x :: u8) :: u64) = (ucast x :: u32)"
  using ucast_shifted_byte [of 0 x] by simp

lemma rd32_le32:
  "rd32 h k i = le32 (h (k + of_nat (4 * i))) (h (k + of_nat (4 * i) + 1)) (h (k + of_nat (4 * i) + 2)) (h (k + of_nat (4 * i) + 3))"
  by (simp add: rd32_def load_le_unfold le32_or unsigned_or_eq ucast_shifted_byte ucast_byte)

lemma rd16_le32:
  "rd16 h k i = le32 (h (k + of_nat (2 * i))) (h (k + of_nat (2 * i) + 1)) 0 0"
  by (simp add: rd16_def load_le_unfold le32_or unsigned_or_eq ucast_shifted_byte ucast_byte)

subsection \<open>The three readings of a block agree\<close>

lemma rd8_bytes [simp]: "rd8 h k i = ucast (h (k + of_nat i))"
  by (simp add: rd8_def)

lemma le32_0 [simp]: "le32 0 0 0 0 = 0"
  by (simp add: le32_def)

lemma push_le32: "push_bit 16 (le32 w x 0 0) = le32 0 0 w x"
  by (simp add: le32_def push_bit_add)

lemma le32_halves: "le32 w x 0 0 + le32 0 0 y z = le32 w x y z"
  by (simp add: le32_def add.assoc)

lemmas block_simps = rd32_le32 rd16_le32 push_le32 le32_halves word_or_0_def add.assoc

lemma absorb32_block: "12 \<le> n \<Longrightarrow> absorb32 h k s = add_block s (word_or_0 (bytes_at h k n))"
  by (cases s) (simp add: absorb32_def block_simps)

lemma absorb16_block: "12 \<le> n \<Longrightarrow> absorb16 h k s = add_block s (word_or_0 (bytes_at h k n))"
  by (cases s) (simp add: absorb16_def block_simps)

lemma absorb8_block: "12 \<le> n \<Longrightarrow> absorb8 h k s = add_block s (word_or_0 (bytes_at h k n))"
  by (cases s) (simp add: absorb8_def block_simps le32_def)

lemma tail_cases:
  fixes n :: nat
  assumes "0 < n" "n \<le> 12"
    and "P 1" "P 2" "P 3" "P 4" "P 5" "P 6" "P 7" "P 8" "P 9" "P 10" "P 11" "P 12"
  shows "P n"
proof -
  have "n \<in> {1, 2, 3, 4, 5, 6, 7, 8, 9, 10, 11, 12}" using assms(1,2) unfolding insert_iff empty_iff by presburger
  then show ?thesis using assms(3-) by blast
qed

lemma tail32_block:
  "0 < n \<Longrightarrow> n \<le> 12 \<Longrightarrow> tail32 h k n s = add_block s (word_or_0 (bytes_at h k n))"
  by (rule tail_cases [of n]; cases s) (simp_all add: tail32_def block_simps)

lemma tail16_block:
  "0 < n \<Longrightarrow> n \<le> 12 \<Longrightarrow> tail16 h k n s = add_block s (word_or_0 (bytes_at h k n))"
  by (rule tail_cases [of n]; cases s) (simp_all add: tail16_def block_simps, (simp_all add: le32_def)?)

lemma tail8_block:
  "0 < n \<Longrightarrow> n \<le> 12 \<Longrightarrow> tail8 h k n s = add_block s (word_or_0 (bytes_at h k n))"
  by (rule tail_cases [of n]; cases s) (simp_all add: tail8_def block_simps le32_def add.left_commute add.commute)

definition word_be_or_0 :: "u8 list \<Rightarrow> nat \<Rightarrow> u32" where
  "word_be_or_0 bs i = le32 (byte_or_0 bs (4 * i + 3)) (byte_or_0 bs (4 * i + 2)) (byte_or_0 bs (4 * i + 1)) (byte_or_0 bs (4 * i))"

lemma absorb_be_block: "12 \<le> n \<Longrightarrow> absorb_be h k s = add_block s (word_be_or_0 (bytes_at h k n))"
  by (cases s) (simp add: absorb_be_def word_be_or_0_def le32_def ac_simps)

lemma tail_be_block:
  "0 < n \<Longrightarrow> n \<le> 12 \<Longrightarrow> tail_be h k n s = add_block s (word_be_or_0 (bytes_at h k n))"
  by (rule tail_cases [of n]; cases s) (simp_all add: tail_be_def word_be_or_0_def le32_def ac_simps)

section \<open>The contract of a block reader\<close>

text \<open>Whatever way a reader gets at the bytes of a key, it adds the words of the zero-padded
  block to the state.  The loop around it then computes the reference hash.\<close>

locale block_reader =
  fixes absorb :: "heap \<Rightarrow> u64 \<Rightarrow> hstate \<Rightarrow> hstate"
    and tail :: "heap \<Rightarrow> u64 \<Rightarrow> nat \<Rightarrow> hstate \<Rightarrow> hstate"
    and rd :: "u8 list \<Rightarrow> nat \<Rightarrow> u32"
  assumes absorb: "12 \<le> n \<Longrightarrow> absorb h k s = add_block s (rd (bytes_at h k n))"
    and tail: "0 < n \<Longrightarrow> n \<le> 12 \<Longrightarrow> tail h k n s = add_block s (rd (bytes_at h k n))"
begin

lemma body_spec: "hash_body absorb tail h k n s = spec_hash rd (bytes_at h k n) s"
proof (induction n arbitrary: k s rule: less_induct)
  case (less n)
  show ?case
  proof (cases "12 < n")
    case True
    then have "hash_body absorb tail h k n s =
        hash_body absorb tail h (k + 12) (n - 12) (mix (absorb h k s))"
      by (simp add: hash_body_def hash_loop.simps [of absorb h k n])
    also have "\<dots> = spec_hash rd (bytes_at h (k + 12) (n - 12)) (mix (absorb h k s))"
      using less True by simp
    finally show ?thesis
      using True by (simp add: spec_hash.simps [of rd "bytes_at h k n"] drop_bytes_at absorb [of n h k s])
  next
    case False
    then show ?thesis
      by (simp add: hash_body_def hash_loop.simps spec_hash.simps [of rd "bytes_at h k n"] tail)
  qed
qed

end

interpretation words: block_reader absorb32 tail32 word_or_0
  by unfold_locales (rule absorb32_block tail32_block; assumption)+

interpretation halves: block_reader absorb16 tail16 word_or_0
  by unfold_locales (rule absorb16_block tail16_block; assumption)+

interpretation octets: block_reader absorb8 tail8 word_or_0
  by unfold_locales (rule absorb8_block tail8_block; assumption)+

interpretation big: block_reader absorb_be tail_be word_be_or_0
  by unfold_locales (rule absorb_be_block tail_be_block; assumption)+

lemma dispatch_spec: "hash_dispatch h k n s = spec_hash word_or_0 (bytes_at h k n) s"
  by (simp add: hash_dispatch_def words.body_spec halves.body_spec octets.body_spec)

definition first_hash :: "hstate \<Rightarrow> u32" where
  "first_hash s = snd (snd s)"

definition both_hashes :: "hstate \<Rightarrow> u32 \<times> u32" where
  "both_hashes s = (snd (snd s), fst (snd s))"

lemma hashlittle_eq:
  "hashlittle h k n iv = first_hash (let i = 0xdeadbeef + of_nat n + iv in spec_hash word_or_0 (bytes_at h k n) (i, i, i))"
  by (simp add: hashlittle_def dispatch_spec first_hash_def Let_def split_beta)

lemma hashlittle2_eq:
  "hashlittle2 h k n pc pb = both_hashes (let i = 0xdeadbeef + of_nat n + pc in spec_hash word_or_0 (bytes_at h k n) (i, i, i + pb))"
  by (simp add: hashlittle2_def dispatch_spec both_hashes_def Let_def split_beta)

section \<open>Arrays of words\<close>

definition words_at :: "heap \<Rightarrow> u64 \<Rightarrow> nat \<Rightarrow> u32 list" where
  "words_at h k n = map (rd32 h k) [0..<n]"

lemma length_words_at [simp]: "length (words_at h k n) = n"
  by (simp add: words_at_def)

lemma drop_words_at: "drop m (words_at h k n) = words_at h (k + of_nat (4 * m)) (n - m)"
  by (rule nth_equalityI)
    (auto simp: words_at_def rd32_def add.assoc less_diff_conv distrib_left add.commute [of _ m])

lemma nth_words_at [simp]: "i < n \<Longrightarrow> words_at h k n ! i = word_or_0 (bytes_at h k (4 * n)) i"
  by (simp add: words_at_def word_or_0_def rd32_le32 add.assoc)
     (simp add: add.commute)

lemma word_beyond [simp]: "n \<le> i \<Longrightarrow> word_or_0 (bytes_at h k (4 * n)) i = 0"
  by (simp add: word_or_0_def)

lemma hashword_spec:
  "(case hashword_loop (words_at h k n) s of (r, s) \<Rightarrow> hashword_tail r s)
   = spec_hash word_or_0 (bytes_at h k (4 * n)) s"
proof (induction n arbitrary: k s rule: less_induct)
  case (less n)
  obtain a b c where s: "s = (a, b, c)" by (cases s)
  show ?case
  proof (cases "3 < n")
    case True
    then have "4 * n - 12 = 4 * (n - 3)" by simp
    then show ?thesis
      using True less [of "n - 3" "k + 12"]
      by (simp add: s hashword_loop.simps [of "words_at h k n"] drop_words_at
          spec_hash.simps [of word_or_0 "bytes_at h k (4 * n)"] drop_bytes_at)
  next
    case False
    then have "n = 0 \<or> n = 1 \<or> n = 2 \<or> n = 3" by auto
    then show ?thesis
      using word_beyond [of n 0 h k] word_beyond [of n 1 h k] word_beyond [of n 2 h k]
      by (auto simp: s hashword_loop.simps hashword_tail_def spec_hash.simps [of word_or_0 "bytes_at h k (4 * n)"])
  qed
qed

section \<open>Reversibility\<close>

definition mix_line_inv :: "nat \<Rightarrow> u32 \<Rightarrow> u32 \<Rightarrow> u32 \<Rightarrow> u32 \<times> u32" where
  "mix_line_inv k x z y = (let z = z - y in ((x XOR rot z k) + z, z))"

lemma mix_line_inverse: "mix_line k x z y = (x', z') \<longleftrightarrow> mix_line_inv k x' z' y = (x, z)"
  by (auto simp: mix_line_def mix_line_inv_def Let_def xor.assoc)

definition mix_inv :: "hstate \<Rightarrow> hstate" where
  "mix_inv = (\<lambda>(a, b, c).
     (let (c, b) = mix_line_inv 4 c b a;
          (b, a) = mix_line_inv 19 b a c;
          (a, c) = mix_line_inv 16 a c b;
          (c, b) = mix_line_inv 8 c b a;
          (b, a) = mix_line_inv 6 b a c;
          (a, c) = mix_line_inv 4 a c b
      in (a, b, c)))"

lemma mix_inv_mix: "mix_inv (mix s) = s"
proof -
  obtain a b c where s: "s = (a, b, c)" by (cases s)
  obtain a1 c1 where 1: "mix_line 4 a c b = (a1, c1)" by fastforce
  obtain b1 a2 where 2: "mix_line 6 b a1 c1 = (b1, a2)" by fastforce
  obtain c2 b2 where 3: "mix_line 8 c1 b1 a2 = (c2, b2)" by fastforce
  obtain a3 c3 where 4: "mix_line 16 a2 c2 b2 = (a3, c3)" by fastforce
  obtain b3 a4 where 5: "mix_line 19 b2 a3 c3 = (b3, a4)" by fastforce
  obtain c4 b4 where 6: "mix_line 4 c3 b3 a4 = (c4, b4)" by fastforce
  have "mix s = (a4, b4, c4)" by (simp add: s mix_def 1 2 3 4 5 6)
  then show ?thesis
    using 1 2 3 4 5 6 by (simp add: s mix_inv_def mix_line_inverse)
qed

lemma mix_mix_inv: "mix (mix_inv s) = s"
proof -
  obtain a b c where s: "s = (a, b, c)" by (cases s)
  obtain c1 b1 where 1: "mix_line_inv 4 c b a = (c1, b1)" by fastforce
  obtain b2 a1 where 2: "mix_line_inv 19 b1 a c1 = (b2, a1)" by fastforce
  obtain a2 c2 where 3: "mix_line_inv 16 a1 c1 b2 = (a2, c2)" by fastforce
  obtain c3 b3 where 4: "mix_line_inv 8 c2 b2 a2 = (c3, b3)" by fastforce
  obtain b4 a3 where 5: "mix_line_inv 6 b3 a2 c3 = (b4, a3)" by fastforce
  obtain a4 c4 where 6: "mix_line_inv 4 a3 c3 b4 = (a4, c4)" by fastforce
  have "mix_inv s = (a4, b4, c4)" by (simp add: s mix_inv_def 1 2 3 4 5 6)
  then show ?thesis
    using 1 2 3 4 5 6 by (simp add: s mix_def flip: mix_line_inverse)
qed

definition final_line_inv :: "nat \<Rightarrow> u32 \<Rightarrow> u32 \<Rightarrow> u32" where
  "final_line_inv k x z = (x + rot z k) XOR z"

lemma final_line_inverse [simp]:
  "final_line_inv k (final_line k x z) z = x"
  "final_line k (final_line_inv k x z) z = x"
  by (simp_all add: final_line_def final_line_inv_def xor.assoc)

definition final_inv :: "hstate \<Rightarrow> hstate" where
  "final_inv = (\<lambda>(a, b, c).
     (let c = final_line_inv 24 c b;
          b = final_line_inv 14 b a;
          a = final_line_inv 4 a c;
          c = final_line_inv 16 c b;
          b = final_line_inv 25 b a;
          a = final_line_inv 11 a c;
          c = final_line_inv 14 c b
      in (a, b, c)))"

lemma final_inv_final: "final_inv (final s) = s"
  by (cases s) (simp add: final_def final_inv_def Let_def)

lemma final_final_inv: "final (final_inv s) = s"
  by (cases s) (simp add: final_def final_inv_def Let_def)

section \<open>Properties\<close>

lemma hashword2_init: "(ucast (push_bit 2 (of_nat n :: u64)) :: u32) = push_bit 2 (of_nat n)"
  by transfer (auto simp: bit_eq_iff bit_take_bit_iff bit_push_bit_iff bit_of_nat_iff)

lemma hashword_eq:
  "hashword (words_at h k n) iv =
   first_hash (let i = 0xdeadbeef + of_nat (4 * n) + iv in spec_hash word_or_0 (bytes_at h k (4 * n)) (i, i, i))"
  unfolding hashword_def Let_def hashword_spec [symmetric]
  by (simp add: first_hash_def split_beta push_bit_eq_mult mult.commute)

text \<open>(C16) The hash of a key in memory is the reference hash of the bytes of the key, for each of the
  three ways the code reads it: word reads with a masked last block at an address that is a
  multiple of four, half-word reads at an even address, byte reads otherwise.  The two-result
  version computes both results from the same state.\<close>

theorem hashlittle_reference:
  "hashlittle h key n iv =
     first_hash (let i = 0xdeadbeef + of_nat n + iv in spec_hash word_or_0 (bytes_at h key n) (i, i, i)) \<and>
   hashlittle2 h key n pc pb =
     both_hashes (let i = 0xdeadbeef + of_nat n + pc in spec_hash word_or_0 (bytes_at h key n) (i, i, i + pb))"
  by (rule conjI [OF hashlittle_eq hashlittle2_eq])

text \<open>(C17) Two keys with the same bytes have the same hash, wherever they are stored: neither the
  alignment of the key nor the bytes after its end, which the word reads touch, change a result.\<close>

theorem hash_depends_on_key_bytes:
  assumes "bytes_at h key n = bytes_at h' key' n"
  shows "hashlittle h key n iv = hashlittle h' key' n iv \<and>
    hashlittle2 h key n pc pb = hashlittle2 h' key' n pc pb \<and>
    hashbig h key n iv = hashbig h' key' n iv"
  using assms by (simp add: hashlittle_eq hashlittle2_eq hashbig_def big.body_spec)

text \<open>A three-byte key at an aligned and at an odd address, with different bytes behind it.\<close>

theorem hash_depends_on_key_bytes_witness:
  "hashlittle ((\<lambda>_. 1)(0 := 7, 1 := 8, 2 := 9)) 0 3 0 =
   hashlittle ((\<lambda>_. 5)(101 := 7, 102 := 8, 103 := 9)) 101 3 0"
proof -
  have "bytes_at ((\<lambda>_. 1)(0 := 7, 1 := 8, 2 := 9)) 0 3 = bytes_at ((\<lambda>_. 5)(101 := 7, 102 := 8, 103 := 9)) 101 3"
    by code_simp
  then show ?thesis by (rule hash_depends_on_key_bytes [THEN conjunct1])
qed

text \<open>(C18) On a little-endian host, hashing an array of n words and hashing the memory it occupies
  as 4n bytes give the same value.\<close>

theorem hashword_is_hashlittle:
  "hashword (words_at h key n) iv = hashlittle h key (4 * n) iv"
  by (simp only: hashword_eq hashlittle_eq)

text \<open>(C19) With a zero second seed, the first result of each two-result hash is the result of the
  one-result hash.\<close>

theorem two_result_hashes_extend:
  "fst (hashlittle2 h key n pc 0) = hashlittle h key n pc \<and> fst (hashword2 ks pc 0) = hashword ks pc"
  by (simp add: hashlittle_eq hashlittle2_eq both_hashes_def first_hash_def hashword_def hashword2_def
      hashword2_init Let_def split_beta)

text \<open>(C20) The mixing steps lose no information: both are bijections on the state, so that two
  states that differ stay different.\<close>

theorem mixing_reversible: "bij mix \<and> bij final"
  by (intro conjI) (rule o_bij [of mix_inv] o_bij [of final_inv],
      simp_all add: fun_eq_iff mix_inv_mix mix_mix_inv final_inv_final final_final_inv)+

end
