(* ===== verification/Ubpf_Map.thy ===== *)
theory Ubpf_Map
  imports Ubpf_Vm Lookup3
begin

text \<open>
  What the map types of \<^verbatim>\<open>ubpf_int.h\<close> share: the definition a program gives of a map, and the copying of
  byte strings that all of them use to move keys and values.
\<close>

record ubpf_map_def =
  def_type :: u32
  def_key_size :: u32
  def_value_size :: u32
  def_max_entries :: u32
  def_nb_hash_functions :: u32

section \<open>Copying bytes\<close>

text \<open>\<^verbatim>\<open>memcpy\<close> to an address, of the bytes at its source.\<close>

fun write_bytes :: "u64 \<Rightarrow> u8 list \<Rightarrow> heap \<Rightarrow> heap" where
  "write_bytes a [] h = h"
| "write_bytes a (b # bs) h = write_bytes (a + 1) bs (h(a := b))"

definition memcpy :: "u64 \<Rightarrow> u64 \<Rightarrow> nat \<Rightarrow> heap \<Rightarrow> heap" where
  "memcpy d s n h = write_bytes d (bytes_at h s n) h"

lemma write_bytes_other: "x \<notin> touched a (length bs) \<Longrightarrow> write_bytes a bs h x = h x"
  by (induction a bs h rule: write_bytes.induct) (auto simp: touched_Suc)

lemma bytes_at_Suc: "bytes_at h a (Suc n) = h a # bytes_at h (a + 1) n"
  by (simp add: bytes_at_def upt_conv_Cons map_Suc_upt [symmetric] add.assoc del: upt_Suc)

lemma bytes_at_0 [simp]: "bytes_at h a 0 = []"
  by (simp add: bytes_at_def)

lemma bytes_at_cong: "(\<And>x. x \<in> touched a n \<Longrightarrow> h x = h' x) \<Longrightarrow> bytes_at h a n = bytes_at h' a n"
  by (auto simp: bytes_at_def touched_def)

lemma bytes_at_add: "bytes_at h a (m + n) = bytes_at h a m @ bytes_at h (a + of_nat m) n"
  by (induction m arbitrary: a) (auto simp: bytes_at_Suc add.assoc)

lemma write_bytes_append: "write_bytes a (xs @ ys) h = write_bytes (a + of_nat (length xs)) ys (write_bytes a xs h)"
  by (induction xs arbitrary: a h) (simp_all add: add.assoc)

lemma bytes_at_write_bytes:
  "length bs \<le> 2 ^ 64 \<Longrightarrow> bytes_at (write_bytes a bs h) a (length bs) = bs"
proof (induction bs arbitrary: a h)
  case (Cons b bs)
  then have "a \<notin> touched (a + 1) (length bs)" by (intro not_touched_next) simp
  then show ?case using Cons by (simp add: bytes_at_Suc write_bytes_other)
qed simp

lemma bytes_at_write_other:
  "touched c n \<inter> touched a (length bs) = {} \<Longrightarrow> bytes_at (write_bytes a bs h) c n = bytes_at h c n"
  by (rule bytes_at_cong) (blast intro: write_bytes_other)

lemma touched_interval:
  assumes "unat a + n \<le> 2 ^ 64"
  shows "x \<in> touched a n \<longleftrightarrow> unat a \<le> unat x \<and> unat x < unat a + n"
proof
  assume "x \<in> touched a n"
  then obtain i where i: "i < n" "x = a + of_nat i" by (auto simp: touched_def)
  then have "unat x = unat a + i" using assms by (simp add: unat_word_ariths unat_of_nat)
  then show "unat a \<le> unat x \<and> unat x < unat a + n" using i by simp
next
  assume x: "unat a \<le> unat x \<and> unat x < unat a + n"
  then have "x = a + of_nat (unat x - unat a)" by simp
  then show "x \<in> touched a n" using x unfolding touched_def by (intro image_eqI [of _ _ "unat x - unat a"]) auto
qed

lemma unat_ucast_u32: "unat (ucast (x :: u32) :: u64) = unat x"
proof -
  have "unat x < 2 ^ 64" using unsigned_less [of x, where 'a = nat] by simp
  then show ?thesis by (simp add: unsigned_ucast_eq take_bit_nat_eq_self)
qed

lemma unat_Suc_lt: "(i :: u32) < n \<Longrightarrow> unat (i + 1) = Suc (unat i)"
  using unsigned_less [of n, where 'a = nat] by (simp add: unat_word_ariths word_less_nat_alt)

end
