(* ===== verification/Ovs_List.thy ===== *)
theory Ovs_List
  imports Ubpf_Prelude "HOL-Library.Monad_Syntax"
begin

text \<open>
  The doubly linked lists of \<^verbatim>\<open>include/openvswitch/list.h\<close>.  A node is a pair of pointers in a store from
  addresses to nodes; every operation is the sequence of pointer assignments of the source.  The predicate
  \<open>is_list\<close> relates a head to the sequence of its elements.  The locale \<open>node_list\<close> is what
  the hash map needs of a list, with the lemmas on arrays of such lists.
\<close>

section \<open>List nodes\<close>

record ovs_list =
  lprev :: u64
  lnext :: u64

type_synonym lheap = "u64 \<Rightarrow> ovs_list"

definition set_prev :: "u64 \<Rightarrow> u64 \<Rightarrow> lheap \<Rightarrow> lheap" where
  "set_prev p v h = h(p := (h p)\<lparr>lprev := v\<rparr>)"

definition set_next :: "u64 \<Rightarrow> u64 \<Rightarrow> lheap \<Rightarrow> lheap" where
  "set_next p v h = h(p := (h p)\<lparr>lnext := v\<rparr>)"

definition OVS_LIST_POISON :: ovs_list where
  "OVS_LIST_POISON = \<lparr>lprev = (- 1) div 0xf * 0xc, lnext = (- 1) div 0xf * 0xc\<rparr>"

section \<open>Operations\<close>

definition ovs_list_init :: "u64 \<Rightarrow> lheap \<Rightarrow> lheap" where
  "ovs_list_init l h = set_next l l (set_prev l l h)"

definition ovs_list_poison :: "u64 \<Rightarrow> lheap \<Rightarrow> lheap" where
  "ovs_list_poison l h = h(l := OVS_LIST_POISON)"

definition ovs_list_insert :: "u64 \<Rightarrow> u64 \<Rightarrow> lheap \<Rightarrow> lheap" where
  "ovs_list_insert before elem h =
     (let h = set_prev elem (lprev (h before)) h;
          h = set_next elem before h;
          h = set_next (lprev (h before)) elem h
      in set_prev before elem h)"

definition ovs_list_splice :: "u64 \<Rightarrow> u64 \<Rightarrow> u64 \<Rightarrow> lheap \<Rightarrow> lheap" where
  "ovs_list_splice before first last' h =
     (if first = last' then h
      else
        let last' = lprev (h last');
            h = set_next (lprev (h first)) (lnext (h last')) h;
            h = set_prev (lnext (h last')) (lprev (h first)) h;
            h = set_prev first (lprev (h before)) h;
            h = set_next last' before h;
            h = set_next (lprev (h before)) first h
        in set_prev before last' h)"

definition ovs_list_push_front :: "u64 \<Rightarrow> u64 \<Rightarrow> lheap \<Rightarrow> lheap" where
  "ovs_list_push_front l elem h = ovs_list_insert (lnext (h l)) elem h"

definition ovs_list_push_back :: "u64 \<Rightarrow> u64 \<Rightarrow> lheap \<Rightarrow> lheap" where
  "ovs_list_push_back l elem h = ovs_list_insert l elem h"

definition ovs_list_replace :: "u64 \<Rightarrow> u64 \<Rightarrow> lheap \<Rightarrow> lheap" where
  "ovs_list_replace element position h =
     (let h = set_next element (lnext (h position)) h;
          h = set_prev (lnext (h element)) element h;
          h = set_prev element (lprev (h position)) h
      in set_next (lprev (h element)) element h)"

definition ovs_list_moved :: "u64 \<Rightarrow> u64 \<Rightarrow> lheap \<Rightarrow> lheap" where
  "ovs_list_moved l orig h =
     (if lnext (h l) = orig then ovs_list_init l h
      else let h = set_prev (lnext (h l)) l h in set_next (lprev (h l)) l h)"

definition ovs_list_move :: "u64 \<Rightarrow> u64 \<Rightarrow> lheap \<Rightarrow> lheap" where
  "ovs_list_move dst src h = ovs_list_moved dst src (h(dst := h src))"

definition ovs_list_remove :: "u64 \<Rightarrow> lheap \<Rightarrow> u64 \<times> lheap" where
  "ovs_list_remove elem h =
     (let h = set_next (lprev (h elem)) (lnext (h elem)) h;
          h = set_prev (lnext (h elem)) (lprev (h elem)) h
      in (lnext (h elem), h))"

definition ovs_list_pop_front :: "u64 \<Rightarrow> lheap \<Rightarrow> u64 \<times> lheap" where
  "ovs_list_pop_front l h = (let front = lnext (h l) in (front, snd (ovs_list_remove front h)))"

definition ovs_list_pop_back :: "u64 \<Rightarrow> lheap \<Rightarrow> u64 \<times> lheap" where
  "ovs_list_pop_back l h = (let back = lprev (h l) in (back, snd (ovs_list_remove back h)))"

definition ovs_list_is_empty :: "u64 \<Rightarrow> lheap \<Rightarrow> bool" where
  "ovs_list_is_empty l h \<longleftrightarrow> lnext (h l) = l"

definition ovs_list_is_short :: "u64 \<Rightarrow> lheap \<Rightarrow> bool" where
  "ovs_list_is_short l h \<longleftrightarrow> lnext (h l) = lprev (h l)"

definition ovs_list_is_singleton :: "u64 \<Rightarrow> lheap \<Rightarrow> bool" where
  "ovs_list_is_singleton l h \<longleftrightarrow> ovs_list_is_short l h \<and> \<not> ovs_list_is_empty l h"

text \<open>A failing \<^verbatim>\<open>ovs_assert\<close> is None.\<close>

definition ovs_list_front :: "u64 \<Rightarrow> lheap \<Rightarrow> u64 option" where
  "ovs_list_front l h = (if ovs_list_is_empty l h then None else Some (lnext (h l)))"

definition ovs_list_back :: "u64 \<Rightarrow> lheap \<Rightarrow> u64 option" where
  "ovs_list_back l h = (if ovs_list_is_empty l h then None else Some (lprev (h l)))"

text \<open>The loops run until they are back at the head: on a structure that never leads back they do
  not return, which is None.\<close>

partial_function (option) list_size_loop :: "lheap \<Rightarrow> u64 \<Rightarrow> u64 \<Rightarrow> u64 \<Rightarrow> u64 option" where
  "list_size_loop h l e cnt = (if e = l then Some cnt else list_size_loop h l (lnext (h e)) (cnt + 1))"

definition ovs_list_size :: "u64 \<Rightarrow> lheap \<Rightarrow> u64 option" where
  "ovs_list_size l h = list_size_loop h l (lnext (h l)) 0"

text \<open>The nodes \<^verbatim>\<open>LIST_FOR_EACH\<close> and \<^verbatim>\<open>LIST_FOR_EACH_REVERSE\<close> visit, in their order.\<close>

partial_function (option) walk :: "(ovs_list \<Rightarrow> u64) \<Rightarrow> lheap \<Rightarrow> u64 \<Rightarrow> u64 \<Rightarrow> u64 list option" where
  "walk dir h l e =
     (if e = l then Some [] else do { xs \<leftarrow> walk dir h l (dir (h e)); Some (e # xs) })"

definition list_for_each :: "u64 \<Rightarrow> lheap \<Rightarrow> u64 list option" where
  "list_for_each l h = walk lnext h l (lnext (h l))"

definition list_for_each_reverse :: "u64 \<Rightarrow> lheap \<Rightarrow> u64 list option" where
  "list_for_each_reverse l h = walk lprev h l (lprev (h l))"

definition ovs_list_push_back_all :: "u64 \<Rightarrow> u64 \<Rightarrow> lheap \<Rightarrow> lheap" where
  "ovs_list_push_back_all dst src h = ovs_list_splice dst (lnext (h src)) src h"

declare walk.simps [code] list_size_loop.simps [code]

section \<open>Representation\<close>

text \<open>\<open>links h a xs b\<close>: from node \<open>a\<close> through the nodes \<open>xs\<close> to node \<open>b\<close>, the links agree in both
  directions.  A list is such a chain from its head back to its head.\<close>

fun links :: "lheap \<Rightarrow> u64 \<Rightarrow> u64 list \<Rightarrow> u64 \<Rightarrow> bool" where
  "links h a [] b \<longleftrightarrow> lnext (h a) = b \<and> lprev (h b) = a"
| "links h a (x # xs) b \<longleftrightarrow> lnext (h a) = x \<and> lprev (h x) = a \<and> links h x xs b"

definition is_list :: "lheap \<Rightarrow> u64 \<Rightarrow> u64 list \<Rightarrow> bool" where
  "is_list h l xs \<longleftrightarrow> distinct (l # xs) \<and> links h l xs l"

lemma links_append: "links h a (xs @ y # ys) b \<longleftrightarrow> links h a xs y \<and> links h y ys b"
  by (induction xs arbitrary: a) auto

lemma links_last: "links h a xs b \<Longrightarrow> lprev (h b) = last (a # xs)"
  by (induction xs arbitrary: a) auto

lemma links_first: "links h a xs b \<Longrightarrow> lnext (h a) = hd (xs @ [b])"
  by (cases xs) auto

lemma link_simps [simp]:
  "lprev (set_next p v h x) = lprev (h x)"
  "lnext (set_prev p v h x) = lnext (h x)"
  "lnext (set_next p v h x) = (if x = p then v else lnext (h x))"
  "lprev (set_prev p v h x) = (if x = p then v else lprev (h x))"
  by (simp_all add: set_prev_def set_next_def)

lemma links_cong:
  assumes "\<And>x. x \<in> set (a # xs) \<Longrightarrow> lnext (h' x) = lnext (h x)"
    and "\<And>x. x \<in> set (b # xs) \<Longrightarrow> lprev (h' x) = lprev (h x)"
  shows "links h' a xs b = links h a xs b"
  using assms by (induction xs arbitrary: a) auto

lemma links_set [simp]:
  "p \<notin> set (a # xs) \<Longrightarrow> links (set_next p v h) a xs b = links h a xs b"
  "p \<notin> set (b # xs) \<Longrightarrow> links (set_prev p v h) a xs b = links h a xs b"
  by (rule links_cong; auto)+

text \<open>Splitting a list at its last node gives the node before its head.\<close>

lemma links_snocE:
  assumes "links h a xs b"
  obtains "xs = []" "lnext (h a) = b" "lprev (h b) = a"
  | ys p where "xs = ys @ [p]" "links h a ys p" "lnext (h p) = b" "lprev (h b) = p"
  using assms by (cases xs rule: rev_cases) (auto simp: links_append)

section \<open>Operations on chains\<close>

lemma links_insert:
  assumes "links h a xs b" "distinct (a # xs)" "b \<notin> set xs" "e \<notin> set (a # b # xs)"
  shows "links (ovs_list_insert b e h) a (xs @ [e]) b"
  using assms(1)
proof (cases rule: links_snocE)
  case 1
  then show ?thesis using assms by (auto simp: ovs_list_insert_def Let_def)
next
  case (2 ys p)
  then show ?thesis using assms by (auto simp: ovs_list_insert_def Let_def links_append)
qed

lemma links_insert_other:
  assumes "links h c ys d" "b \<notin> set (d # ys)" "lprev (h b) \<notin> set (c # ys)" "e \<notin> set (c # d # ys)"
  shows "links (ovs_list_insert b e h) c ys d"
  using assms by (auto simp: ovs_list_insert_def Let_def)

lemma links_insert_after:
  assumes "links h b ys d" "b \<notin> set (d # ys)" "lprev (h b) \<notin> set (b # ys)" "e \<notin> set (b # d # ys)"
  shows "links (ovs_list_insert b e h) b ys d"
  using assms by (rule links_insert_other)

lemma is_list_insert:
  assumes "is_list h l (xs @ ys)" "b = hd (ys @ [l])" "e \<notin> set (l # xs @ ys)"
  shows "is_list (ovs_list_insert b e h) l (xs @ e # ys)"
proof (cases ys)
  case Nil
  then show ?thesis using assms links_insert [of h l xs l e] by (auto simp: is_list_def)
next
  case (Cons y zs)
  then have l: "links h l xs y" "links h y zs l" and b: "b = y"
    using assms by (auto simp: is_list_def links_append)
  have "lprev (h y) = last (l # xs)" by (rule links_last [OF l(1)])
  moreover have "last (l # xs) \<in> set (l # xs)" by (rule last_in_set) simp
  ultimately have "lprev (h y) \<notin> set (y # zs)" using assms Cons by (auto simp: is_list_def)
  then have "links (ovs_list_insert y e h) y zs l"
    using l(2) assms Cons by (intro links_insert_other) (auto simp: is_list_def)
  moreover have "links (ovs_list_insert y e h) l (xs @ [e]) y"
    using l(1) assms Cons by (intro links_insert) (auto simp: is_list_def)
  ultimately show ?thesis using assms Cons by (auto simp: is_list_def links_append b)
qed

lemma is_list_remove:
  assumes "is_list h l (xs @ e # ys)"
  shows "is_list (snd (ovs_list_remove e h)) l (xs @ ys) \<and> fst (ovs_list_remove e h) = hd (ys @ [l])"
proof -
  have l: "links h l xs e" "links h e ys l" and d: "distinct (l # xs @ e # ys)"
    using assms by (auto simp: is_list_def links_append)
  have n: "lnext (h e) = hd (ys @ [l])" by (rule links_first [OF l(2)])
  show ?thesis
    using l(1)
  proof (cases rule: links_snocE)
    case 1
    then show ?thesis using l d n
      by (cases ys) (auto simp: ovs_list_remove_def Let_def is_list_def)
  next
    case (2 us p)
    then show ?thesis using l d n
      by (cases ys) (auto simp: ovs_list_remove_def Let_def is_list_def links_append)
  qed
qed

subsection \<open>Splicing\<close>

definition edge :: "lheap \<Rightarrow> u64 \<Rightarrow> u64 \<Rightarrow> bool" where
  "edge h a b \<longleftrightarrow> lnext (h a) = b \<and> lprev (h b) = a"

fun chain :: "lheap \<Rightarrow> u64 list \<Rightarrow> bool" where
  "chain h (x # y # zs) \<longleftrightarrow> edge h x y \<and> chain h (y # zs)"
| "chain h xs \<longleftrightarrow> True"

lemma links_chain: "links h a xs b \<longleftrightarrow> chain h (a # xs) \<and> edge h (last (a # xs)) b"
  by (induction xs arbitrary: a) (auto simp: edge_def)

lemma is_list_chain:
  "is_list h l xs \<longleftrightarrow> distinct (l # xs) \<and> chain h (l # xs) \<and> edge h (last (l # xs)) l"
  unfolding is_list_def links_chain by simp

lemma chain_append:
  "chain h (xs @ ys) \<longleftrightarrow> chain h xs \<and> chain h ys \<and> (xs \<noteq> [] \<longrightarrow> ys \<noteq> [] \<longrightarrow> edge h (last xs) (hd ys))"
proof (induction xs)
  case (Cons x xs)
  then show ?case by (cases xs; cases ys) auto
qed simp

lemma chain_frame:
  assumes "chain h xs"
    and "\<And>x. x \<in> set (butlast xs) \<Longrightarrow> lnext (h' x) = lnext (h x)"
    and "\<And>x. x \<in> set (tl xs) \<Longrightarrow> lprev (h' x) = lprev (h x)"
  shows "chain h' xs"
  using assms by (induction h xs rule: chain.induct) (auto simp: edge_def)

lemma last_not_butlast: "distinct xs \<Longrightarrow> xs \<noteq> [] \<Longrightarrow> last xs \<notin> set (butlast xs)"
  by (metis append_butlast_last_id distinct_append disjoint_iff list.set_intros(1))

lemma hd_not_tl: "distinct xs \<Longrightarrow> xs \<noteq> [] \<Longrightarrow> hd xs \<notin> set (tl xs)"
  by (cases xs) auto

lemma chain_frame2:
  assumes "chain h xs" "distinct xs" "\<forall>x. x \<notin> N \<longrightarrow> lnext (h' x) = lnext (h x)"
    "\<forall>x. x \<notin> P \<longrightarrow> lprev (h' x) = lprev (h x)" "N \<inter> set xs \<subseteq> {last xs}" "P \<inter> set xs \<subseteq> {hd xs}"
  shows "chain h' xs"
proof (rule chain_frame [OF assms(1)])
  fix x
  assume x: "x \<in> set (butlast xs)"
  then have "xs \<noteq> []" "x \<in> set xs" by (auto dest: in_set_butlastD)
  then have "x \<notin> N" using x assms(5) last_not_butlast [OF assms(2)] by auto
  then show "lnext (h' x) = lnext (h x)" using assms(3) by simp
next
  fix x
  assume x: "x \<in> set (tl xs)"
  then have "xs \<noteq> []" "x \<in> set xs" by (cases xs; simp)+
  then have "x \<notin> P" using x assms(6) hd_not_tl [OF assms(2)] by auto
  then show "lprev (h' x) = lprev (h x)" using assms(4) by simp
qed

lemma splice_links:
  assumes "f \<noteq> n" "lprev (h n) = q" "lprev (h f) = p" "lnext (h q) = n" "lprev (h b) = r"
    and "b \<noteq> n" "b \<noteq> f" "q \<noteq> p" "r \<noteq> q"
  shows "lnext (ovs_list_splice b f n h x) =
      (if x = r then f else if x = q then b else if x = p then n else lnext (h x))"
    and "lprev (ovs_list_splice b f n h x) =
      (if x = b then q else if x = f then r else if x = n then p else lprev (h x))"
  using assms by (auto simp: ovs_list_splice_def Let_def)

text \<open>A list cut in two or three parts.\<close>

lemma is_list_two:
  "is_list h l (xs @ ys) \<longleftrightarrow> distinct (l # xs @ ys) \<and> chain h (l # xs) \<and> chain h ys \<and>
     edge h (last (l # xs)) (hd (ys @ [l])) \<and> (ys \<noteq> [] \<longrightarrow> edge h (last ys) l)"
  using chain_append [of h "l # xs" ys] by (cases ys) (auto simp: is_list_chain)

lemma is_list_three:
  assumes "ms \<noteq> []"
  shows "is_list h l (xs @ ms @ ys) \<longleftrightarrow> distinct (l # xs @ ms @ ys) \<and> chain h (l # xs) \<and> chain h ms \<and> chain h ys \<and>
     edge h (last (l # xs)) (hd ms) \<and> edge h (last ms) (hd (ys @ [l])) \<and> (ys \<noteq> [] \<longrightarrow> edge h (last ys) l)"
  using assms is_list_two [of h l xs "ms @ ys"] chain_append [of h ms ys] by (cases ys) auto

text \<open>The effect of splicing the nodes from \<open>f\<close> to \<open>q\<close>, between \<open>p\<close> and \<open>n\<close>, to between \<open>r\<close> and \<open>b\<close>.\<close>

lemma splice_edges:
  assumes "edge h p f" "edge h q n" "edge h r b"
    and "p \<in> A" "q \<in> M" "f \<in> M" "r \<in> U" "n \<in> A \<union> Y" "b \<in> U \<union> V"
    and "A \<inter> M = {}" "M \<inter> Y = {}" "(A \<union> M \<union> Y) \<inter> (U \<union> V) = {}"
    and h': "h' = ovs_list_splice b f n h"
  shows "edge h' p n" "edge h' r f" "edge h' q b"
    and "\<forall>x. x \<notin> {r, q, p} \<longrightarrow> lnext (h' x) = lnext (h x)"
    and "\<forall>x. x \<notin> {b, f, n} \<longrightarrow> lprev (h' x) = lprev (h x)"
proof -
  have ne: "f \<noteq> n" "b \<noteq> n" "b \<noteq> f" "q \<noteq> p" "r \<noteq> q" "p \<noteq> r" "n \<noteq> f" using assms(4-12) by blast+
  have e: "lprev (h n) = q" "lprev (h f) = p" "lnext (h q) = n" "lprev (h b) = r"
    using assms(1-3) by (simp_all add: edge_def)
  note N = splice_links(1) [OF ne(1) e ne(2-5), folded h'] and P = splice_links(2) [OF ne(1) e ne(2-5), folded h']
  show "edge h' p n" "edge h' r f" "edge h' q b" using ne by (simp_all add: edge_def N P)
  show "\<forall>x. x \<notin> {r, q, p} \<longrightarrow> lnext (h' x) = lnext (h x)" by (simp add: N)
  show "\<forall>x. x \<notin> {b, f, n} \<longrightarrow> lprev (h' x) = lprev (h x)" by (simp add: P)
qed

lemma is_list_splice:
  assumes l1: "is_list h l1 (xs @ ms @ ys)" and l2: "is_list h l2 (us @ vs)"
    and disj: "set (l1 # xs @ ms @ ys) \<inter> set (l2 # us @ vs) = {}" and ms: "ms \<noteq> []"
    and h': "h' = ovs_list_splice (hd (vs @ [l2])) (hd ms) (hd (ys @ [l1])) h"
  shows "is_list h' l1 (xs @ ys) \<and> is_list h' l2 (us @ ms @ vs)"
proof -
  define b f n where bfn: "b = hd (vs @ [l2])" "f = hd ms" "n = hd (ys @ [l1])"
  define p q r where pqr: "p = last (l1 # xs)" "q = last ms" "r = last (l2 # us)"
  define A M Y U V where s: "A = set (l1 # xs)" "M = set ms" "Y = set ys" "U = set (l2 # us)" "V = set vs"
  note c1 = l1 [unfolded is_list_three [OF ms], folded bfn pqr] and c2 = l2 [unfolded is_list_two, folded bfn pqr]
  have disjoint: "A \<inter> M = {}" "A \<inter> Y = {}" "A \<inter> U = {}" "A \<inter> V = {}" "M \<inter> Y = {}" "M \<inter> U = {}"
    "M \<inter> V = {}" "Y \<inter> U = {}" "Y \<inter> V = {}" "U \<inter> V = {}"
    using c1 c2 disj unfolding s distinct.simps distinct_append set_append list.set by blast+
  have mem: "p \<in> A" "q \<in> M" "f \<in> M" "r \<in> U" "l1 \<in> A" "l2 \<in> U"
    using ms unfolding s bfn pqr by simp_all
  have nn: "n = l1 \<and> Y = {} \<or> n = hd ys \<and> n \<in> Y" and bb: "b = l2 \<and> V = {} \<or> b = hd vs \<and> b \<in> V"
    unfolding s bfn by (cases ys; simp) (cases vs; simp)
  have e: "edge h p f" "edge h q n" "edge h r b"
    using c1 c2 by simp_all
  have in_parts: "n \<in> A \<union> Y" "b \<in> U \<union> V"
    using nn bb mem(5,6) by auto
  have apart: "(A \<union> M \<union> Y) \<inter> (U \<union> V) = {}"
    unfolding Int_Un_distrib Int_Un_distrib2 using disjoint by simp
  note E = splice_edges [OF e mem(1-4) in_parts(1,2) disjoint(1,5) apart h' [folded bfn]]
  have frame: "chain h' zs" if "chain h zs" "distinct zs" "{r, q, p} \<inter> set zs \<subseteq> {last zs}" "{b, f, n} \<inter> set zs \<subseteq> {hd zs}" for zs
    by (rule chain_frame2 [OF that(1,2) E(4,5) that(3,4)])
  have x: "{r, q, p} \<inter> A \<subseteq> {p}" "{r, q, p} \<inter> M \<subseteq> {q}" "{r, q, p} \<inter> Y \<subseteq> {}" "{r, q, p} \<inter> U \<subseteq> {r}" "{r, q, p} \<inter> V \<subseteq> {}"
    using disjoint mem(1-4) by (simp_all only: disjoint_iff) blast+
  have y: "{b, f, n} \<inter> A \<subseteq> {l1}" "{b, f, n} \<inter> M \<subseteq> {f}" "{b, f, n} \<inter> Y \<subseteq> {hd ys}" "{b, f, n} \<inter> U \<subseteq> {l2}" "{b, f, n} \<inter> V \<subseteq> {hd vs}"
    using disjoint mem(3,5,6) nn bb by (auto simp: disjoint_iff)
  have d: "distinct (l1 # xs)" "distinct ms" "distinct ys" "distinct (l2 # us)" "distinct vs"
    using c1 c2 by simp_all
  have ch: "chain h (l1 # xs)" "chain h ms" "chain h ys" "chain h (l2 # us)" "chain h vs"
    using c1 c2 by blast+
  have "chain h' (l1 # xs)" "chain h' ms" "chain h' ys" "chain h' (l2 # us)" "chain h' vs"
    using frame [OF ch(1) d(1)] frame [OF ch(2) d(2)] frame [OF ch(3) d(3)] frame [OF ch(4) d(4)] frame [OF ch(5) d(5)] x y
    unfolding s [symmetric] pqr [symmetric] bfn [symmetric] list.sel by blast+
  moreover have "ys \<noteq> [] \<longrightarrow> edge h' (last ys) l1" 
  proof
    assume "ys \<noteq> []"
    then have "last ys \<in> Y" "n \<in> Y" using nn unfolding s by auto
    then have "last ys \<notin> {r, q, p}" "l1 \<notin> {b, f, n}" using disjoint mem bb by (auto simp: disjoint_iff)
    then show "edge h' (last ys) l1" using E(4,5) c1 \<open>ys \<noteq> []\<close> by (simp add: edge_def)
  qed
  moreover have "vs \<noteq> [] \<longrightarrow> edge h' (last vs) l2" 
  proof
    assume "vs \<noteq> []"
    then have "last vs \<in> V" "b \<in> V" using bb unfolding s by auto
    then have "last vs \<notin> {r, q, p}" "l2 \<notin> {b, f, n}" using disjoint mem nn by (auto simp: disjoint_iff)
    then show "edge h' (last vs) l2" using E(4,5) c2 \<open>vs \<noteq> []\<close> by (simp add: edge_def)
  qed
  moreover have "distinct (l1 # xs @ ys)" "distinct (l2 # us @ ms @ vs)"
    using l1 l2 disj by (auto simp: is_list_def)
  ultimately show ?thesis
    using E(1-3) unfolding is_list_two [of h' l1 xs ys] is_list_three [OF ms, of h' l2 us vs]
    unfolding bfn [symmetric] pqr [symmetric] by blast
qed

subsection \<open>Replacing and moving nodes\<close>

lemma is_list_replace:
  assumes l: "is_list h l (xs @ [p] @ ys)" and e: "e \<notin> set (l # xs @ [p] @ ys)"
  shows "is_list (ovs_list_replace e p h) l (xs @ [e] @ ys)"
proof -
  define a n where an: "a = last (l # xs)" "n = hd (ys @ [l])"
  define h' where h': "h' = ovs_list_replace e p h"
  have c: "distinct (l # xs @ [p] @ ys)" "chain h (l # xs)" "chain h ys" "edge h a p" "edge h p n"
    "ys \<noteq> [] \<longrightarrow> edge h (last ys) l"
    using l unfolding an by (simp_all add: is_list_three del: append_Cons append_Nil)
  have mem: "a \<in> set (l # xs)" "n \<in> set (l # ys)" unfolding an by (auto simp: hd_append)
  then have ne: "p \<noteq> n" "p \<noteq> a" "e \<noteq> p" "e \<noteq> a" "e \<noteq> n" using c(1) e by auto
  have N: "lnext (h' x) = (if x = a then e else if x = e then n else lnext (h x))"
    and P: "lprev (h' x) = (if x = e then a else if x = n then e else lprev (h x))" for x
    using ne c(4,5) unfolding h' by (auto simp: ovs_list_replace_def Let_def edge_def)
  have "chain h' (l # xs)"
    by (rule chain_frame2 [OF c(2), of "{a, e}" _ "{e, n}"]) (use c(1) e mem in \<open>auto simp: N P an\<close>)
  moreover have "chain h' ys"
    by (rule chain_frame2 [OF c(3), of "{a, e}" _ "{e, n}"])
      (use c(1) e mem in \<open>auto simp: N P an(2) hd_append split: if_splits\<close>)
  moreover have "edge h' a e" "edge h' e n" using ne by (auto simp: edge_def N P)
  moreover have "ys \<noteq> [] \<longrightarrow> edge h' (last ys) l"
  proof
    assume "ys \<noteq> []"
    then have "last ys \<in> set ys" "n \<in> set ys" unfolding an by simp_all
    then have "last ys \<notin> {a, e}" "l \<notin> {e, n}" using c(1) e mem(1) by auto
    then show "edge h' (last ys) l" using c(6) \<open>ys \<noteq> []\<close> by (simp add: edge_def N P)
  qed
  ultimately show ?thesis
    using c(1) e unfolding h' [symmetric] by (subst is_list_three) (auto simp: an)
qed

lemma is_list_move:
  assumes l: "is_list h src xs" and d: "dst \<notin> set (src # xs)"
  shows "is_list (ovs_list_move dst src h) dst xs"
proof (cases "xs = []")
  case True
  then show ?thesis using assms
    by (simp add: is_list_def ovs_list_move_def ovs_list_moved_def ovs_list_init_def)
next
  case False
  define h' where h': "h' = ovs_list_move dst src h"
  obtain ys p where ys: "xs = ys @ [p]" using False by (meson rev_exhaust)
  obtain f zs where f: "xs = f # zs" using False by (meson neq_Nil_conv)
  have c: "distinct xs" "chain h xs" "edge h src f" "src \<notin> set xs"
    using l chain_append [of h "[src]" xs] by (auto simp: is_list_chain f)
  have ends: "hd xs = f" "last xs = p" by (simp add: f, simp add: ys)
  have last_edge: "edge h p src" using l unfolding ys by (simp add: is_list_chain)
  have "f \<noteq> src" "f \<noteq> dst" "p \<noteq> dst"
  proof -
    have "f \<in> set xs" "p \<in> set xs" by (simp add: f, simp add: ys)
    then show "f \<noteq> src" "f \<noteq> dst" "p \<noteq> dst" using c(4) d by auto
  qed
  then have N: "lnext (h' x) = (if x = p then dst else if x = dst then f else lnext (h x))"
    and P: "lprev (h' x) = (if x = f then dst else if x = dst then p else lprev (h x))" for x
    using c(3) last_edge unfolding h'
    by (auto simp: ovs_list_move_def ovs_list_moved_def ovs_list_init_def Let_def edge_def)
  have "chain h' xs"
    by (rule chain_frame2 [OF c(2,1), of "{p, dst}" _ "{f, dst}"])
      (use d ends in \<open>auto simp: N P\<close>)
  moreover have "edge h' dst f" "edge h' p dst"
    using \<open>f \<noteq> dst\<close> \<open>p \<noteq> dst\<close> by (auto simp: edge_def N P)
  ultimately show ?thesis
    unfolding h' [symmetric] using d c(1) chain_append [of h' "[dst]" xs] False ends
    by (auto simp: is_list_chain)
qed

section \<open>Loops\<close>

lemma walk_links:
  assumes "links h a xs l" "l \<notin> set xs"
  shows "walk lnext h l (lnext (h a)) = Some xs"
  using assms
proof (induction xs arbitrary: a)
  case Nil
  then show ?case by (simp add: walk.simps)
next
  case (Cons x xs)
  then show ?case by (auto simp: walk.simps [of _ _ _ x])
qed

lemma walk_links_back:
  assumes "links h l xs b" "l \<notin> set xs"
  shows "walk lprev h l (lprev (h b)) = Some (rev xs)"
  using assms
proof (induction xs arbitrary: b rule: rev_induct)
  case Nil
  then show ?case by (simp add: walk.simps)
next
  case (snoc x xs)
  then show ?case by (auto simp: walk.simps [of _ _ _ x] links_append)
qed

lemma size_loop_walk:
  "walk lnext h l e = Some xs \<Longrightarrow> list_size_loop h l e c = Some (c + of_nat (length xs))"
proof (induction xs arbitrary: e c)
  case Nil
  then have "e = l" using walk.simps [of lnext h l e] by (auto split: if_splits bind_splits)
  then show ?case by (simp add: list_size_loop.simps)
next
  case (Cons x xs)
  then have "e \<noteq> l" "walk lnext h l (lnext (h e)) = Some xs"
    using walk.simps [of lnext h l e] by (auto split: if_splits bind_splits)
  with Cons.IH [of "lnext (h e)" "c + 1"] show ?case
    by (simp add: list_size_loop.simps [of h l e] add.assoc)
qed

lemma is_list_for_each: "is_list h l xs \<Longrightarrow> list_for_each l h = Some xs"
  by (simp add: is_list_def list_for_each_def walk_links)

lemma is_list_for_each_reverse: "is_list h l xs \<Longrightarrow> list_for_each_reverse l h = Some (rev xs)"
  by (simp add: is_list_def list_for_each_reverse_def walk_links_back)

lemma is_list_size: "is_list h l xs \<Longrightarrow> ovs_list_size l h = Some (of_nat (length xs))"
  using is_list_for_each [of h l xs]
  by (simp add: ovs_list_size_def list_for_each_def size_loop_walk)

lemma is_list_unique: "is_list h l xs \<Longrightarrow> is_list h l ys \<Longrightarrow> xs = ys"
  by (drule is_list_for_each)+ simp

lemma is_list_ends: "is_list h l xs \<Longrightarrow> lnext (h l) = hd (xs @ [l]) \<and> lprev (h l) = last (l # xs)"
  using links_first [of h l xs l] links_last [of h l xs l] by (simp add: is_list_def)

lemma is_list_tests:
  assumes "is_list h l xs"
  shows "ovs_list_is_empty l h \<longleftrightarrow> xs = []"
    and "ovs_list_is_short l h \<longleftrightarrow> length xs \<le> 1"
    and "ovs_list_is_singleton l h \<longleftrightarrow> length xs = 1"
proof -
  show e: "ovs_list_is_empty l h \<longleftrightarrow> xs = []"
    using is_list_ends [OF assms] assms by (cases xs) (auto simp: ovs_list_is_empty_def is_list_def)
  show s: "ovs_list_is_short l h \<longleftrightarrow> length xs \<le> 1"
  proof (cases xs)
    case (Cons x ys)
    then show ?thesis using is_list_ends [OF assms] assms
      by (cases ys rule: rev_cases) (auto simp: ovs_list_is_short_def is_list_def)
  qed (use is_list_ends [OF assms] in \<open>simp add: ovs_list_is_short_def\<close>)
  show "ovs_list_is_singleton l h \<longleftrightarrow> length xs = 1"
    unfolding ovs_list_is_singleton_def e s by (cases xs) auto
qed

section \<open>Frames\<close>

text \<open>Inserting before and removing from one list leaves every disjoint list as it is.\<close>

lemma is_list_cong:
  assumes "\<And>x. x \<in> set (l # xs) \<Longrightarrow> h' x = h x"
  shows "is_list h' l xs = is_list h l xs"
  unfolding is_list_def by (subst links_cong [of l xs h' h]) (use assms in auto)

lemma insert_other:
  assumes "is_list h l xs" "x \<notin> set (e # l # xs)"
  shows "ovs_list_insert l e h x = h x"
proof -
  have "lprev (h l) = last (l # xs)" using is_list_ends [OF assms(1)] by simp
  then have "lprev (h l) \<in> set (l # xs)" using last_in_set [of "l # xs"] by simp
  then show ?thesis using assms(2)
    by (auto simp: ovs_list_insert_def Let_def set_prev_def set_next_def)
qed

lemma remove_other:
  assumes "is_list h l xs" "e \<in> set xs" "x \<notin> set (l # xs)"
  shows "snd (ovs_list_remove e h) x = h x"
proof -
  obtain ys zs where xs: "xs = ys @ e # zs" using assms(2) by (meson split_list)
  then have l: "links h l ys e" "links h e zs l" using assms(1) by (auto simp: is_list_def links_append)
  have "last (l # ys) \<in> set (l # xs)" "hd (zs @ [l]) \<in> set (l # xs)"
    using last_in_set [of "l # ys"] hd_in_set [of "zs @ [l]"] by (auto simp: xs)
  then have "lprev (h e) \<in> set (l # xs)" "lnext (h e) \<in> set (l # xs)"
    unfolding links_last [OF l(1)] links_first [OF l(2)] by simp_all
  then show ?thesis using assms(3)
    by (auto simp: ovs_list_remove_def Let_def set_prev_def set_next_def xs)
qed

section \<open>The contract of a list of nodes, and tables of lists\<close>

definition list_table :: "('h \<Rightarrow> u64 \<Rightarrow> u64 list \<Rightarrow> bool) \<Rightarrow> 'h \<Rightarrow> u64 list \<Rightarrow> u64 list list \<Rightarrow> bool" where
  "list_table rep h heads ess \<longleftrightarrow> length heads = length ess \<and>
     (\<forall>i < length ess. rep h (heads ! i) (ess ! i)) \<and>
     (\<forall>i < length ess. \<forall>j < length ess. i \<noteq> j \<longrightarrow> set (heads ! i # ess ! i) \<inter> set (heads ! j # ess ! j) = {})"

definition table_nodes :: "u64 list \<Rightarrow> u64 list list \<Rightarrow> u64 set" where
  "table_nodes heads ess = set heads \<union> \<Union> (set ` set ess)"

locale node_list =
  fixes rep :: "'h \<Rightarrow> u64 \<Rightarrow> u64 list \<Rightarrow> bool"
    and append_node :: "u64 \<Rightarrow> u64 \<Rightarrow> 'h \<Rightarrow> 'h"
    and remove_node :: "u64 \<Rightarrow> 'h \<Rightarrow> 'h"
    and nodes :: "u64 \<Rightarrow> 'h \<Rightarrow> u64 list option"
  assumes nodes: "rep h l xs \<Longrightarrow> nodes l h = Some xs"
    and distinct: "rep h l xs \<Longrightarrow> distinct (l # xs)"
    and append: "rep h l xs \<Longrightarrow> e \<notin> set (l # xs) \<Longrightarrow> rep (append_node l e h) l (xs @ [e])"
    and remove: "rep h l (xs @ e # ys) \<Longrightarrow> rep (remove_node e h) l (xs @ ys)"
    and append_frame: "rep h l xs \<Longrightarrow> rep h l' ys \<Longrightarrow> set (e # l # xs) \<inter> set (l' # ys) = {} \<Longrightarrow>
      rep (append_node l e h) l' ys"
    and remove_frame: "rep h l xs \<Longrightarrow> e \<in> set xs \<Longrightarrow> rep h l' ys \<Longrightarrow> set (l # xs) \<inter> set (l' # ys) = {} \<Longrightarrow>
      rep (remove_node e h) l' ys"
begin

lemma table_nth: "list_table rep h heads ess \<Longrightarrow> i < length ess \<Longrightarrow> rep h (heads ! i) (ess ! i)"
  by (simp add: list_table_def)

lemma table_append:
  assumes t: "list_table rep h heads ess" and j: "j < length ess" and e: "e \<notin> table_nodes heads ess"
  shows "list_table rep (append_node (heads ! j) e h) heads (ess[j := ess ! j @ [e]])"
proof -
  have out: "e \<notin> set (heads ! i # ess ! i)" if "i < length ess" for i
    using e that t nth_mem [of i heads] nth_mem [of i ess]
    by (auto simp: table_nodes_def list_table_def simp del: nth_mem)
  have "rep (append_node (heads ! j) e h) (heads ! i) (ess[j := ess ! j @ [e]] ! i)" if i: "i < length ess" for i
  proof (cases "i = j")
    case True
    then show ?thesis using append [OF table_nth [OF t j] out [OF j]] j by simp
  next
    case False
    have "set (e # heads ! j # ess ! j) \<inter> set (heads ! i # ess ! i) = {}"
      using t i j False out [OF i] by (auto simp: list_table_def)
    then show ?thesis using append_frame [OF table_nth [OF t j] table_nth [OF t i]] False by simp
  qed
  moreover have "set (heads ! i # ess[j := ess ! j @ [e]] ! i) \<inter> set (heads ! k # ess[j := ess ! j @ [e]] ! k) = {}"
    if "i < length ess" "k < length ess" "i \<noteq> k" for i k
  proof -
    have "set (heads ! i # ess ! i) \<inter> set (heads ! k # ess ! k) = {}" using t that by (simp add: list_table_def)
    then show ?thesis using that out [of i] out [of k] j by (auto simp: nth_list_update)
  qed
  ultimately show ?thesis using t by (simp add: list_table_def)
qed

lemma table_remove:
  assumes t: "list_table rep h heads ess" and j: "j < length ess" and e: "ess ! j = xs @ e # ys"
  shows "list_table rep (remove_node e h) heads (ess[j := xs @ ys])"
proof -
  have "rep (remove_node e h) (heads ! i) (ess[j := xs @ ys] ! i)" if i: "i < length ess" for i
  proof (cases "i = j")
    case True
    then show ?thesis using remove [of h "heads ! j" xs e ys] table_nth [OF t j] e j by simp
  next
    case False
    have "set (heads ! j # ess ! j) \<inter> set (heads ! i # ess ! i) = {}"
      using t i j False by (auto simp: list_table_def)
    then show ?thesis using remove_frame [OF table_nth [OF t j] _ table_nth [OF t i]] e False by simp
  qed
  moreover have "set (heads ! i # ess[j := xs @ ys] ! i) \<inter> set (heads ! k # ess[j := xs @ ys] ! k) = {}"
    if "i < length ess" "k < length ess" "i \<noteq> k" for i k
  proof -
    have "set (heads ! i # ess ! i) \<inter> set (heads ! k # ess ! k) = {}" using t that by (simp add: list_table_def)
    then show ?thesis using that e j by (auto simp: nth_list_update)
  qed
  ultimately show ?thesis using t by (simp add: list_table_def)
qed

end

interpretation ovs: node_list is_list ovs_list_insert "\<lambda>e h. snd (ovs_list_remove e h)" list_for_each
proof unfold_locales
  fix h l xs l' ys e
  show "is_list h l xs \<Longrightarrow> list_for_each l h = Some xs" by (rule is_list_for_each)
  show "is_list h l xs \<Longrightarrow> distinct (l # xs)" by (simp add: is_list_def)
  show "is_list (ovs_list_insert l e h) l (xs @ [e])" if "is_list h l xs" "e \<notin> set (l # xs)"
    using is_list_insert [of h l xs "[]" l e] that by simp
  show "is_list h l (xs @ e # ys) \<Longrightarrow> is_list (snd (ovs_list_remove e h)) l (xs @ ys)"
    using is_list_remove by blast
  show "is_list (ovs_list_insert l e h) l' ys"
    if "is_list h l xs" "is_list h l' ys" "set (e # l # xs) \<inter> set (l' # ys) = {}"
    using is_list_cong [of l' ys "ovs_list_insert l e h" h] insert_other [OF that(1), of _ e] that(2,3) by blast
  show "is_list (snd (ovs_list_remove e h)) l' ys"
    if "is_list h l xs" "e \<in> set xs" "is_list h l' ys" "set (l # xs) \<inter> set (l' # ys) = {}"
    using is_list_cong [of l' ys "snd (ovs_list_remove e h)" h] remove_other [OF that(1,2)] that(3,4) by blast
qed

section \<open>Properties\<close>

text \<open>(C21) Inserting and removing at either end refines the operations on sequences: on a well-formed
  list with elements \<open>xs\<close>, a node outside the list can be pushed at the front or at the back, and the pops return
  the first and the last element and leave the rest.\<close>

theorem ovs_list_is_deque:
  assumes "is_list h l xs" "e \<notin> set (l # xs)"
  shows "is_list (ovs_list_push_front l e h) l (e # xs) \<and>
    is_list (ovs_list_push_back l e h) l (xs @ [e]) \<and>
    (xs \<noteq> [] \<longrightarrow>
      fst (ovs_list_pop_front l h) = hd xs \<and> is_list (snd (ovs_list_pop_front l h)) l (tl xs) \<and>
      fst (ovs_list_pop_back l h) = last xs \<and> is_list (snd (ovs_list_pop_back l h)) l (butlast xs))"
proof (intro conjI impI)
  note ends = is_list_ends [OF assms(1)]
  show "is_list (ovs_list_push_front l e h) l (e # xs)"
    using is_list_insert [of h l "[]" xs _ e] assms ends by (simp add: ovs_list_push_front_def)
  show "is_list (ovs_list_push_back l e h) l (xs @ [e])"
    using ovs.append [OF assms] by (simp add: ovs_list_push_back_def)
  assume "xs \<noteq> []"
  then obtain x ys z zs where xs: "xs = x # ys" "xs = zs @ [z]" by (metis neq_Nil_conv rev_exhaust)
  show "fst (ovs_list_pop_front l h) = hd xs" "fst (ovs_list_pop_back l h) = last xs"
    using ends \<open>xs \<noteq> []\<close> by (simp_all add: ovs_list_pop_front_def ovs_list_pop_back_def Let_def)
  show "is_list (snd (ovs_list_pop_front l h)) l (tl xs)"
    using ovs.remove [of h l "[]" x ys] assms(1) ends xs(1) by (simp add: ovs_list_pop_front_def Let_def)
  show "is_list (snd (ovs_list_pop_back l h)) l (butlast xs)"
    using ovs.remove [of h l zs z "[]"] assms(1) ends xs(2) by (simp add: ovs_list_pop_back_def Let_def)
qed

text \<open>(C22) The loops over a well-formed list return: the forward and the backward iteration visit every
  element once, in order, and the size and the tests agree with the number of elements.\<close>

theorem ovs_list_loops_return:
  assumes "is_list h l xs"
  shows "list_for_each l h = Some xs \<and> list_for_each_reverse l h = Some (rev xs) \<and>
    ovs_list_size l h = Some (of_nat (length xs)) \<and>
    ovs_list_is_empty l h = (xs = []) \<and> ovs_list_is_singleton l h = (length xs = 1) \<and>
    ovs_list_is_short l h = (length xs \<le> 1) \<and>
    ovs_list_front l h = (if xs = [] then None else Some (hd xs)) \<and>
    ovs_list_back l h = (if xs = [] then None else Some (last xs))"
  using assms is_list_ends [OF assms]
  by (simp add: is_list_for_each is_list_for_each_reverse is_list_size is_list_tests ovs_list_front_def ovs_list_back_def)

text \<open>(C23) Whole segments change lists without loss: splicing moves a segment from one list to a
  position in another, emptying a list into another appends its elements, and a list whose head is moved
  in memory or one of whose nodes is replaced keeps its sequence.\<close>

theorem ovs_list_transfers:
  assumes "is_list h l1 (xs @ ms @ ys)" "is_list h l2 (us @ vs)" "ms \<noteq> []"
    and "set (l1 # xs @ ms @ ys) \<inter> set (l2 # us @ vs) = {}" "e \<notin> set (l1 # xs @ ms @ ys)"
  shows "(let h' = ovs_list_splice (hd (vs @ [l2])) (hd ms) (hd (ys @ [l1])) h in
      is_list h' l1 (xs @ ys) \<and> is_list h' l2 (us @ ms @ vs)) \<and>
    (let h' = ovs_list_push_back_all l2 l1 h in
      is_list h' l1 [] \<and> is_list h' l2 ((us @ vs) @ xs @ ms @ ys)) \<and>
    is_list (ovs_list_move e l1 h) e (xs @ ms @ ys) \<and>
    (ms = [p] \<longrightarrow> is_list (ovs_list_replace e p h) l1 (xs @ [e] @ ys))"
proof (intro conjI impI)
  show "let h' = ovs_list_splice (hd (vs @ [l2])) (hd ms) (hd (ys @ [l1])) h in
      is_list h' l1 (xs @ ys) \<and> is_list h' l2 (us @ ms @ vs)"
    using is_list_splice [OF assms(1,2,4,3) refl] by (simp add: Let_def)
  have "lnext (h l1) = hd (xs @ ms @ ys)" using is_list_ends [OF assms(1)] assms(3) by (simp add: hd_append)
  then show "let h' = ovs_list_push_back_all l2 l1 h in
      is_list h' l1 [] \<and> is_list h' l2 ((us @ vs) @ xs @ ms @ ys)"
    using is_list_splice [of h l1 "[]" "xs @ ms @ ys" "[]" l2 "us @ vs" "[]"] assms
    by (simp add: ovs_list_push_back_all_def)
  show "is_list (ovs_list_move e l1 h) e (xs @ ms @ ys)" by (rule is_list_move [OF assms(1,5)])
  assume "ms = [p]"
  then show "is_list (ovs_list_replace e p h) l1 (xs @ [e] @ ys)" using is_list_replace assms(1,5) by blast
qed

subsection \<open>Sample lists\<close>

text \<open>A list with head 10 and elements 1, 2, and a list with head 20 and element 3.\<close>

definition sample_lists :: lheap where
  "sample_lists = ovs_list_push_back 20 3 (ovs_list_push_back 10 2 (ovs_list_push_back 10 1
     (ovs_list_init 20 (ovs_list_init 10 (\<lambda>_. OVS_LIST_POISON)))))"

lemma sample_lists: "is_list sample_lists 10 [1, 2] \<and> is_list sample_lists 20 [3]"
  by code_simp

theorem ovs_list_is_deque_witness:
  "is_list (ovs_list_push_front 10 5 sample_lists) 10 [5, 1, 2] \<and> fst (ovs_list_pop_back 10 sample_lists) = 2"
  using ovs_list_is_deque [of sample_lists 10 "[1, 2]" 5] sample_lists by simp

theorem ovs_list_loops_return_witness:
  "list_for_each_reverse 10 sample_lists = Some [2, 1] \<and> ovs_list_size 10 sample_lists = Some 2"
  using ovs_list_loops_return [of sample_lists 10 "[1, 2]"] sample_lists by simp

theorem ovs_list_transfers_witness:
  "is_list (ovs_list_push_back_all 20 10 sample_lists) 20 [3, 1, 2] \<and>
   is_list (ovs_list_replace 7 2 sample_lists) 10 [1, 7]"
  using ovs_list_transfers [of sample_lists 10 "[1]" "[2]" "[]" 20 "[]" "[3]" 7 2] sample_lists
  by (simp add: Let_def)

end
