(* ===== verification/Ubpf_Hashmap.thy ===== *)
theory Ubpf_Hashmap
  imports Ubpf_Map Ovs_List
begin

text \<open>
  The hash map of \<^verbatim>\<open>ubpf_hashmap.c\<close>: an array of buckets, each a doubly linked list of elements.  The nodes are in
  the store of \<open>Ovs_List\<close>, the contents of an element in a second store at the same address, and the key and value
  arguments in byte memory.  The operations refine those of a finite map of bounded size.
\<close>

section \<open>Data\<close>

record hashmap =
  buckets :: u64
  hcount :: u32
  nb_buckets :: u32
  elem_size :: u32

text \<open>An element without its list node, which is in the store of nodes at the same address.\<close>

record hmap_elem =
  ehash :: u32
  ekey :: "u8 list"
  evalue :: "u8 list"

record hstore =
  hmap :: hashmap
  lists :: lheap
  elems :: "u64 \<Rightarrow> hmap_elem"

definition round_up :: "u32 \<Rightarrow> u32 \<Rightarrow> u32" where
  "round_up x y = ((x - 1) OR (y - 1)) + 1"

definition round_up_pow_of_two :: "u32 \<Rightarrow> u32" where
  "round_up_pow_of_two x =
     (let v = x - 1;
          v = v OR drop_bit 1 v;
          v = v OR drop_bit 2 v;
          v = v OR drop_bit 4 v;
          v = v OR drop_bit 8 v;
          v = v OR drop_bit 16 v
      in v + 1)"

section \<open>Operations\<close>

text \<open>The addresses \<^verbatim>\<open>xmalloc\<close> returns are arguments.\<close>

definition bucket_at :: "u64 \<Rightarrow> nat \<Rightarrow> u64" where
  "bucket_at base i = base + of_nat (16 * i)"

definition sizeof_hmap_elem :: u32 where
  "sizeof_hmap_elem = 24"

definition ubpf_hashmap_create :: "ubpf_map_def \<Rightarrow> u64 \<Rightarrow> lheap \<Rightarrow> (u64 \<Rightarrow> hmap_elem) \<Rightarrow> hstore" where
  "ubpf_hashmap_create d base ls es =
     (let nb = round_up_pow_of_two (def_max_entries d) in
      \<lparr>hmap = \<lparr>buckets = base, hcount = 0, nb_buckets = nb,
         elem_size = sizeof_hmap_elem + round_up (def_key_size d) 8 + def_value_size d\<rparr>,
       lists = fold (\<lambda>i. ovs_list_init (bucket_at base i)) [0..<unat nb] ls, elems = es\<rparr>)"

definition ubpf_hashmap_hash :: "heap \<Rightarrow> u64 \<Rightarrow> u32 \<Rightarrow> u32" where
  "ubpf_hashmap_hash h key key_len = hashlittle h key (unat key_len) 0"

definition select_bucket :: "hashmap \<Rightarrow> u32 \<Rightarrow> u64" where
  "select_bucket hm hash = bucket_at (buckets hm) (unat (hash AND (nb_buckets hm - 1)))"

partial_function (option) lookup_elem_loop :: "hstore \<Rightarrow> u64 \<Rightarrow> u32 \<Rightarrow> u8 list \<Rightarrow> u64 \<Rightarrow> u64 option" where
  "lookup_elem_loop st head hash key l =
     (if l = head then Some 0
      else if ehash (elems st l) = hash \<and> ekey (elems st l) = key then Some l
      else lookup_elem_loop st head hash key (lnext (lists st l)))"

declare lookup_elem_loop.simps [code]

definition lookup_elem_raw :: "heap \<Rightarrow> hstore \<Rightarrow> u64 \<Rightarrow> u32 \<Rightarrow> u64 \<Rightarrow> u32 \<Rightarrow> u64 option" where
  "lookup_elem_raw h st head hash key ksize =
     lookup_elem_loop st head hash (bytes_at h key (unat ksize)) (lnext (lists st head))"

definition ubpf_hashmap_size :: "hstore \<Rightarrow> u32" where
  "ubpf_hashmap_size st = hcount (hmap st)"

text \<open>The address of the value of an element: it follows the key, at a multiple of eight bytes.\<close>

definition value_ptr :: "ubpf_map \<Rightarrow> u64 \<Rightarrow> u64" where
  "value_ptr m e = e + ucast sizeof_hmap_elem + ucast (round_up (key_size m) 8)"

definition find_elem :: "heap \<Rightarrow> ubpf_map \<Rightarrow> hstore \<Rightarrow> u64 \<Rightarrow> u64 option" where
  "find_elem h m st key =
     (let hash = ubpf_hashmap_hash h key (key_size m); head = select_bucket (hmap st) hash
      in lookup_elem_raw h st head hash key (key_size m))"

definition ubpf_hashmap_lookup :: "heap \<Rightarrow> ubpf_map \<Rightarrow> hstore \<Rightarrow> u64 \<Rightarrow> u64 option" where
  "ubpf_hashmap_lookup h m st key = do {
     elem \<leftarrow> find_elem h m st key;
     Some (if elem \<noteq> 0 then value_ptr m elem else 0)
   }"

definition ubpf_hashmap_update ::
  "heap \<Rightarrow> ubpf_map \<Rightarrow> u64 \<Rightarrow> hstore \<Rightarrow> u64 \<Rightarrow> u64 \<Rightarrow> (int \<times> hstore) option" where
  "ubpf_hashmap_update h m new_elem st key val = do {
     old_elem \<leftarrow> find_elem h m st key;
     let hash = ubpf_hashmap_hash h key (key_size m);
     let head = select_bucket (hmap st) hash;
     if old_elem = 0 \<and> hcount (hmap st) \<ge> max_entries m then Some (-4, st)
     else do {
       let st = st\<lparr>elems := (elems st)(new_elem :=
           \<lparr>ehash = hash, ekey = bytes_at h key (unat (key_size m)),
            evalue = bytes_at h val (unat (value_size m))\<rparr>)\<rparr>;
       let st = st\<lparr>lists := ovs_list_insert head new_elem (lists st)\<rparr>;
       Some (0,
         if old_elem \<noteq> 0 then st\<lparr>lists := snd (ovs_list_remove old_elem (lists st))\<rparr>
         else st\<lparr>hmap := (hmap st)\<lparr>hcount := hcount (hmap st) + 1\<rparr>\<rparr>)
     }
   }"

definition ubpf_hashmap_delete :: "heap \<Rightarrow> ubpf_map \<Rightarrow> hstore \<Rightarrow> u64 \<Rightarrow> (int \<times> hstore) option" where
  "ubpf_hashmap_delete h m st key = do {
     elem \<leftarrow> find_elem h m st key;
     if elem = 0 then Some (-4, st)
     else Some (0, st\<lparr>lists := snd (ovs_list_remove elem (lists st)),
                      hmap := (hmap st)\<lparr>hcount := hcount (hmap st) - 1\<rparr>\<rparr>)
   }"

text \<open>Copying the keys and values out, bucket by bucket: the position after the bytes written and the memory.\<close>

definition dump_elem :: "hstore \<Rightarrow> u64 \<Rightarrow> u64 \<times> heap \<Rightarrow> u64 \<times> heap" where
  "dump_elem st e = (\<lambda>(data, h).
     (let k = ekey (elems st e); v = evalue (elems st e);
          h = write_bytes data k h; data = data + of_nat (length k);
          h = write_bytes data v h; data = data + of_nat (length v)
      in (data, h)))"

fun dump_buckets :: "hstore \<Rightarrow> nat \<Rightarrow> nat \<Rightarrow> u64 \<times> heap \<Rightarrow> (u64 \<times> heap) option" where
  "dump_buckets st 0 j out = Some out"
| "dump_buckets st (Suc n) j out = do {
     es \<leftarrow> list_for_each (bucket_at (buckets (hmap st)) j) (lists st);
     dump_buckets st n (Suc j) (fold (dump_elem st) es out)
   }"

definition ubpf_hashmap_dump :: "hstore \<Rightarrow> u64 \<Rightarrow> heap \<Rightarrow> (u32 \<times> heap) option" where
  "ubpf_hashmap_dump st data h = do {
     (_, h) \<leftarrow> dump_buckets st (unat (nb_buckets (hmap st))) 0 (data, h);
     Some (hcount (hmap st), h)
   }"

section \<open>Invariant and abstraction\<close>

definition heads :: "hstore \<Rightarrow> u64 list" where
  "heads st = map (bucket_at (buckets (hmap st))) [0..<unat (nb_buckets (hmap st))]"

definition key_hash :: "u8 list \<Rightarrow> u32" where
  "key_hash k = first_hash (let i = 0xdeadbeef + of_nat (length k) in spec_hash word_or_0 k (i, i, i))"

definition bucket_of :: "hstore \<Rightarrow> u8 list \<Rightarrow> nat" where
  "bucket_of st k = unat (key_hash k AND (nb_buckets (hmap st) - 1))"

definition elem_ok :: "ubpf_map \<Rightarrow> hstore \<Rightarrow> nat \<Rightarrow> hmap_elem \<Rightarrow> bool" where
  "elem_ok m st i e \<longleftrightarrow> ehash e = key_hash (ekey e) \<and> bucket_of st (ekey e) = i \<and>
     length (ekey e) = unat (key_size m) \<and> length (evalue e) = unat (value_size m)"

text \<open>The buckets hold the lists of elements \<open>ess\<close>, each element is in the bucket of its hash, no two elements
  have the same key, and the count is right.\<close>

definition hm_inv :: "ubpf_map \<Rightarrow> hstore \<Rightarrow> u64 list list \<Rightarrow> bool" where
  "hm_inv m st ess \<longleftrightarrow>
     0 < unat (nb_buckets (hmap st)) \<and> length ess = unat (nb_buckets (hmap st)) \<and>
     list_table is_list (lists st) (heads st) ess \<and>
     0 \<notin> set (concat ess) \<and>
     (\<forall>i < length ess. \<forall>e \<in> set (ess ! i). elem_ok m st i (elems st e)) \<and>
     inj_on (\<lambda>e. ekey (elems st e)) (set (concat ess)) \<and>
     length (concat ess) \<le> unat (max_entries m) \<and>
     hcount (hmap st) = of_nat (length (concat ess))"

definition hm_abs :: "hstore \<Rightarrow> u64 list list \<Rightarrow> u8 list \<rightharpoonup> u8 list" where
  "hm_abs st ess = map_of (map (\<lambda>e. (ekey (elems st e), evalue (elems st e))) (concat ess))"

subsection \<open>Buckets\<close>

lemma unat_and_le: "unat (x AND y) \<le> unat (y :: u32)"
proof -
  have "uint (x AND y) = uint x AND uint y" by (simp add: unsigned_and_eq)
  also have "\<dots> \<le> uint y" by simp
  finally have "x AND y \<le> y" by (simp add: word_le_def)
  then show ?thesis by (simp add: word_le_nat_alt)
qed

lemma bucket_lt: "0 < unat (nb :: u32) \<Longrightarrow> unat (x AND (nb - 1)) < unat nb"
  using unat_and_le [of x "nb - 1"] unat_minus_one [of nb] by (cases "nb = 0") auto

lemma length_heads [simp]: "length (heads st) = unat (nb_buckets (hmap st))"
  by (simp add: heads_def)

lemma bucket_of_lt: "hm_inv m st ess \<Longrightarrow> bucket_of st k < length ess"
  by (auto simp: hm_inv_def bucket_of_def intro: bucket_lt)

lemma hash_key: "ubpf_hashmap_hash h key n = key_hash (bytes_at h key (unat n))"
  by (simp add: ubpf_hashmap_hash_def hashlittle_eq key_hash_def)

lemma select_bucket_head:
  assumes "hm_inv m st ess"
  shows "select_bucket (hmap st) (key_hash k) = heads st ! bucket_of st k"
  using bucket_of_lt [OF assms, of k] assms
  by (simp add: select_bucket_def heads_def bucket_of_def hm_inv_def)

lemma in_concat_nth: "e \<in> set (concat ess) \<longleftrightarrow> (\<exists>i < length ess. e \<in> set (ess ! i))"
  unfolding set_concat UN_iff by (metis in_set_conv_nth)

lemma elem_okD:
  "hm_inv m st ess \<Longrightarrow> i < length ess \<Longrightarrow> e \<in> set (ess ! i) \<Longrightarrow> elem_ok m st i (elems st e)"
  by (simp add: hm_inv_def)

subsection \<open>Searching a bucket\<close>

lemma lookup_links:
  assumes "links (lists st) a es head" "head \<notin> set es"
  shows "lookup_elem_loop st head hash k (lnext (lists st a)) =
    Some (case find (\<lambda>e. ehash (elems st e) = hash \<and> ekey (elems st e) = k) es of None \<Rightarrow> 0 | Some e \<Rightarrow> e)"
  using assms
proof (induction es arbitrary: a)
  case Nil
  then show ?case by (simp add: lookup_elem_loop.simps)
next
  case (Cons e es)
  then have "lnext (lists st a) = e" "e \<noteq> head" by auto
  then show ?case using Cons by (subst lookup_elem_loop.simps) auto
qed

lemma find_elem_inv:
  assumes inv: "hm_inv m st ess" and k: "k = bytes_at h key (unat (key_size m))"
  shows "find_elem h m st key =
    Some (case find (\<lambda>e. ekey (elems st e) = k) (ess ! bucket_of st k) of None \<Rightarrow> 0 | Some e \<Rightarrow> e)"
proof -
  let ?j = "bucket_of st k"
  have j: "?j < length ess" by (rule bucket_of_lt [OF inv])
  have l: "is_list (lists st) (heads st ! ?j) (ess ! ?j)"
    using inv j by (auto simp: hm_inv_def intro: ovs.table_nth)
  have "find (\<lambda>e. ehash (elems st e) = key_hash k \<and> ekey (elems st e) = k) (ess ! ?j)
      = find (\<lambda>e. ekey (elems st e) = k) (ess ! ?j)"
    using elem_okD [OF inv j] by (intro find_cong) (auto simp: elem_ok_def)
  then show ?thesis
    using l lookup_links [of st "heads st ! ?j" "ess ! ?j" "heads st ! ?j" "key_hash k" k]
    by (simp add: find_elem_def lookup_elem_raw_def hash_key flip: k add: select_bucket_head [OF inv] is_list_def)
qed

lemma map_of_inj_on:
  assumes "inj_on f (set E)"
  shows "map_of (map (\<lambda>e. (f e, g e)) E) k = Some v \<longleftrightarrow> (\<exists>e \<in> set E. f e = k \<and> g e = v)"
  using assms
proof (induction E)
  case (Cons e E)
  then show ?case by (auto simp: inj_on_def)
qed simp

lemma hm_abs_Some:
  assumes "inj_on (\<lambda>e. ekey (elems st e)) (set (concat ess))"
  shows "hm_abs st ess k = Some v \<longleftrightarrow>
    (\<exists>e \<in> set (concat ess). ekey (elems st e) = k \<and> evalue (elems st e) = v)"
  unfolding hm_abs_def by (rule map_of_inj_on [OF assms])

lemma hm_inv_inj: "hm_inv m st ess \<Longrightarrow> inj_on (\<lambda>e. ekey (elems st e)) (set (concat ess))"
  by (simp add: hm_inv_def)

text \<open>Searching for a key ends in one of two ways.\<close>

lemma find_elem_cases:
  assumes inv: "hm_inv m st ess" and k: "k = bytes_at h key (unat (key_size m))"
  obtains (absent) "find_elem h m st key = Some 0" "hm_abs st ess k = None"
      "\<forall>e \<in> set (concat ess). ekey (elems st e) \<noteq> k"
  | (present) e xs ys where "find_elem h m st key = Some e" "e \<noteq> 0" "ess ! bucket_of st k = xs @ e # ys"
      "ekey (elems st e) = k" "hm_abs st ess k = Some (evalue (elems st e))"
proof -
  let ?j = "bucket_of st k"
  have j: "?j < length ess" by (rule bucket_of_lt [OF inv])
  note f = find_elem_inv [OF inv k]
  show thesis
  proof (cases "find (\<lambda>e. ekey (elems st e) = k) (ess ! ?j)")
    case None
    have out: "ekey (elems st e) \<noteq> k" if mem: "e \<in> set (concat ess)" for e
    proof
      assume "ekey (elems st e) = k"
      moreover obtain i where "i < length ess" "e \<in> set (ess ! i)" using mem unfolding in_concat_nth by blast
      ultimately have "e \<in> set (ess ! ?j)" using elem_okD [OF inv] by (auto simp: elem_ok_def)
      then show False using None \<open>ekey (elems st e) = k\<close> by (auto simp: find_None_iff)
    qed
    then have "hm_abs st ess k = None" using hm_abs_Some [OF hm_inv_inj [OF inv]] by (metis not_None_eq)
    then show thesis using absent f None out by simp
  next
    case (Some e)
    then have e: "e \<in> set (ess ! ?j)" "ekey (elems st e) = k" by (auto simp: find_Some_iff)
    then have c: "e \<in> set (concat ess)" unfolding in_concat_nth using j by blast
    obtain xs ys where spl: "ess ! ?j = xs @ e # ys" using e(1) by (meson split_list)
    have nz: "e \<noteq> 0" using c inv by (auto simp: hm_inv_def)
    have abs: "hm_abs st ess k = Some (evalue (elems st e))"
      using hm_abs_Some [OF hm_inv_inj [OF inv]] c e(2) by blast
    have "find_elem h m st key = Some e" using f Some by simp
    then show thesis by (rule present [OF _ nz spl e(2) abs])
  qed
qed

subsection \<open>Changing one bucket\<close>

lemma length_concat_update:
  "j < length ess \<Longrightarrow> length (concat (ess[j := zs])) + length (ess ! j) = length (concat ess) + length zs"
proof (induction ess arbitrary: j)
  case (Cons es ess)
  then show ?case by (cases j) auto
qed simp

lemma heads_update [simp]:
  "heads (st\<lparr>lists := ls\<rparr>) = heads st"
  "heads (st\<lparr>elems := es\<rparr>) = heads st"
  "heads (st\<lparr>hmap := (hmap st)\<lparr>hcount := c\<rparr>\<rparr>) = heads st"
  by (simp_all add: heads_def)

text \<open>Any change of one bucket that adds at most one fresh element with a new key keeps the invariant.\<close>

lemma hm_inv_change:
  assumes inv: "hm_inv m st ess" and j: "j < length ess"
    and sub: "set zs \<subseteq> insert n (set (ess ! j))" and n: "n \<notin> set (concat ess)" "n \<in> set zs \<Longrightarrow> n \<noteq> 0"
    and t: "list_table is_list ls (heads st) (ess[j := zs])"
    and E: "n \<in> set zs \<Longrightarrow> elem_ok m st j E"
      "n \<in> set zs \<Longrightarrow> \<forall>e \<in> set (concat (ess[j := zs])). e \<noteq> n \<longrightarrow> ekey (elems st e) \<noteq> ekey E"
    and len: "length (concat (ess[j := zs])) \<le> unat (max_entries m)"
    and st': "st' = \<lparr>hmap = (hmap st)\<lparr>hcount := of_nat (length (concat (ess[j := zs])))\<rparr>,
       lists = ls, elems = (elems st)(n := E)\<rparr>"
  shows "hm_inv m st' (ess[j := zs])"
proof -
  let ?ess' = "ess[j := zs]"
  have old: "n \<notin> set (ess ! i)" if "i < length ess" for i
    using n(1) that unfolding in_concat_nth by blast
  have part: "?ess' ! i = (if i = j then zs else ess ! i)" if "i < length ess" for i
    using j that by (simp add: nth_list_update)
  have mem: "e \<in> set (concat ess) \<or> e = n \<and> n \<in> set zs" if e: "e \<in> set (concat ?ess')" for e
  proof -
    obtain i where i: "i < length ess" "e \<in> set (?ess' ! i)" using e unfolding in_concat_nth by auto
    then show ?thesis using sub j part [of i] unfolding in_concat_nth by (cases "i = j") auto
  qed
  have ok: "elem_ok m st' i (elems st' e)" if i: "i < length ess" and e: "e \<in> set (?ess' ! i)" for i e
  proof (cases "e = n")
    case True
    then have "i = j" using old [OF i] e part [OF i] by (auto split: if_splits)
    then show ?thesis using E(1) e part [OF i] True by (simp add: st' elem_ok_def bucket_of_def)
  next
    case False
    then have "e \<in> set (ess ! i)" using e part [OF i] sub by (auto split: if_splits)
    then show ?thesis using elem_okD [OF inv i] False by (simp add: st' elem_ok_def bucket_of_def)
  qed
  have new_key: "e = n" if e: "e \<in> set (concat ?ess')" "n \<in> set (concat ?ess')" and k: "ekey (elems st' e) = ekey E" for e
  proof (rule ccontr)
    assume "e \<noteq> n"
    have "n \<in> set zs" using mem [OF e(2)] n(1) by blast
    then show False using E(2) e(1) k \<open>e \<noteq> n\<close> by (auto simp: st' simp del: set_concat)
  qed
  have "inj_on (\<lambda>e. ekey (elems st' e)) (set (concat ?ess'))"
  proof (rule inj_onI)
    fix x y
    assume x: "x \<in> set (concat ?ess')" and y: "y \<in> set (concat ?ess')"
      and eq: "ekey (elems st' x) = ekey (elems st' y)"
    show "x = y"
    proof (cases "x = n \<or> y = n")
      case True
      moreover have "elems st' n = E" by (simp add: st')
      ultimately show ?thesis using new_key [OF x] new_key [OF y] x y eq by metis
    next
      case False
      then show ?thesis using inj_onD [OF hm_inv_inj [OF inv], of x y] mem [OF x] mem [OF y] eq
        by (simp add: st')
    qed
  qed
  moreover have "0 \<notin> set (concat ?ess')"
    using mem [of 0] n(2) inv by (auto simp: hm_inv_def simp del: set_concat)
  moreover have "heads st' = heads st" by (simp add: st' heads_def)
  ultimately show ?thesis
    using inv ok t len unfolding hm_inv_def by (simp add: st')
qed

lemma set_concat_update:
  assumes "j < length ess"
  shows "set (concat (ess[j := zs])) = set zs \<union> {e. \<exists>i < length ess. i \<noteq> j \<and> e \<in> set (ess ! i)}"
  unfolding set_eq_iff in_concat_nth using assms by (auto simp: nth_list_update)

lemma set_concat_split:
  assumes "list_table is_list ls hs ess" "j < length ess" "ess ! j = xs @ e # ys"
  shows "set (concat ess) - {e} = set (xs @ ys) \<union> {e. \<exists>i < length ess. i \<noteq> j \<and> e \<in> set (ess ! i)}"
proof -
  have "set (concat ess) = set (xs @ e # ys) \<union> {e. \<exists>i < length ess. i \<noteq> j \<and> e \<in> set (ess ! i)}"
    using set_concat_update [OF assms(2), of "ess ! j"] unfolding list_update_id unfolding assms(3) .
  moreover have "distinct (xs @ e # ys)"
    using ovs.distinct [OF ovs.table_nth [OF assms(1,2)]] assms(3) by simp
  moreover have "e \<notin> set (ess ! i)" if "i < length ess" "i \<noteq> j" for i
    using assms that by (auto simp: list_table_def)
  ultimately show ?thesis by auto
qed

lemma option_ext: "(\<And>v. a = Some v \<longleftrightarrow> b = Some v) \<Longrightarrow> a = b"
  by (cases a) (cases b; auto)+

lemma hm_abs_insert:
  assumes "inj_on (\<lambda>e. ekey (elems st e)) (set (concat ess))" "inj_on (\<lambda>e. ekey (elems st' e)) (set (concat ess'))"
    and "elems st' = (elems st)(n := E)" "n \<notin> set (concat ess)"
    and "set (concat ess') = insert n {e \<in> set (concat ess). ekey (elems st e) \<noteq> ekey E}"
  shows "hm_abs st' ess' = (hm_abs st ess)(ekey E \<mapsto> evalue E)"
proof (rule ext, rule option_ext)
  fix k v
  show "hm_abs st' ess' k = Some v \<longleftrightarrow> ((hm_abs st ess)(ekey E \<mapsto> evalue E)) k = Some v"
    unfolding fun_upd_apply using assms(3,4) hm_abs_Some [OF assms(1), of k v]
    unfolding hm_abs_Some [OF assms(2)] assms(5) by (cases "k = ekey E") auto
qed

lemma hm_abs_delete:
  assumes "inj_on (\<lambda>e. ekey (elems st e)) (set (concat ess))" "inj_on (\<lambda>e. ekey (elems st' e)) (set (concat ess'))"
    and "elems st' = elems st" "set (concat ess') = {e \<in> set (concat ess). ekey (elems st e) \<noteq> k}"
  shows "hm_abs st' ess' = (hm_abs st ess)(k := None)"
proof (rule ext, rule option_ext)
  fix k' v
  show "hm_abs st' ess' k' = Some v \<longleftrightarrow> ((hm_abs st ess)(k := None)) k' = Some v"
    unfolding fun_upd_apply using hm_abs_Some [OF assms(1), of k' v]
    unfolding hm_abs_Some [OF assms(2)] assms(3,4) by (cases "k' = k") auto
qed

section \<open>The operations refine those of a finite map\<close>

lemma present_elem:
  assumes inv: "hm_inv m st ess" and k: "k = bytes_at h key (unat (key_size m))" and "hm_abs st ess k \<noteq> None"
  obtains e xs ys where "find_elem h m st key = Some e" "e \<noteq> 0" "ess ! bucket_of st k = xs @ e # ys"
    "set (xs @ ys) \<union> {e. \<exists>i < length ess. i \<noteq> bucket_of st k \<and> e \<in> set (ess ! i)} =
     {x \<in> set (concat ess). ekey (elems st x) \<noteq> k}"
  using inv k
proof (cases rule: find_elem_cases)
  case (present e xs ys)
  note j = bucket_of_lt [OF inv, of k]
  have t: "list_table is_list (lists st) (heads st) ess" using inv by (simp add: hm_inv_def)
  have "e \<in> set (concat ess)" unfolding in_concat_nth using j present(3) by force
  then have "set (concat ess) - {e} = {x \<in> set (concat ess). ekey (elems st x) \<noteq> k}"
    using hm_inv_inj [OF inv] present(4) by (auto simp: inj_on_def simp del: set_concat)
  then show thesis
    using that [OF present(1-3)] set_concat_split [OF t j present(3)] by simp
qed (use assms(3) in simp)

lemma lookup_refines:
  assumes inv: "hm_inv m st ess" and k: "k = bytes_at h key (unat (key_size m))"
  shows "case hm_abs st ess k of
      None \<Rightarrow> ubpf_hashmap_lookup h m st key = Some 0
    | Some v \<Rightarrow> \<exists>e \<in> set (concat ess). ubpf_hashmap_lookup h m st key = Some (value_ptr m e) \<and>
        ekey (elems st e) = k \<and> evalue (elems st e) = v"
  using inv k
proof (cases rule: find_elem_cases)
  case absent
  then show ?thesis by (simp add: ubpf_hashmap_lookup_def)
next
  case (present e xs ys)
  then have "e \<in> set (concat ess)" unfolding in_concat_nth using bucket_of_lt [OF inv, of k] by force
  then show ?thesis using present by (auto simp: ubpf_hashmap_lookup_def simp del: set_concat)
qed

lemma update_full:
  assumes "hm_inv m st ess" "k = bytes_at h key (unat (key_size m))"
    and "hm_abs st ess k = None" "hcount (hmap st) \<ge> max_entries m"
  shows "ubpf_hashmap_update h m new st key val = Some (-4, st)"
  using assms(1,2) by (cases rule: find_elem_cases) (use assms(3,4) in \<open>simp_all add: ubpf_hashmap_update_def\<close>)

lemma unat_count: "hm_inv m st ess \<Longrightarrow> unat (hcount (hmap st)) = length (concat ess)"
proof -
  assume inv: "hm_inv m st ess"
  have "unat (max_entries m) < 2 ^ 32" using unsigned_less [of "max_entries m", where 'a = nat] by simp
  then have "length (concat ess) < 2 ^ 32" using inv unfolding hm_inv_def by linarith
  then show ?thesis using inv unfolding hm_inv_def by (simp add: unat_of_nat)
qed

lemma update_new:
  assumes inv: "hm_inv m st ess" and k: "k = bytes_at h key (unat (key_size m))"
    and new: "new \<notin> table_nodes (heads st) ess" "new \<noteq> 0"
    and absent: "hm_abs st ess k = None" and room: "hcount (hmap st) < max_entries m"
  shows "\<exists>st' ess'. ubpf_hashmap_update h m new st key val = Some (0, st') \<and> hm_inv m st' ess' \<and>
    hm_abs st' ess' = (hm_abs st ess)(k \<mapsto> bytes_at h val (unat (value_size m))) \<and>
    heads st' = heads st \<and> set (concat ess') \<subseteq> insert new (set (concat ess))"
proof -
  let ?j = "bucket_of st k"
  define E where "E = \<lparr>ehash = key_hash k, ekey = k, evalue = bytes_at h val (unat (value_size m))\<rparr>"
  define ess' where "ess' = ess[?j := ess ! ?j @ [new]]"
  define ls where "ls = ovs_list_insert (heads st ! ?j) new (lists st)"
  define st' where "st' = \<lparr>hmap = (hmap st)\<lparr>hcount := of_nat (length (concat ess'))\<rparr>,
       lists = ls, elems = (elems st)(new := E)\<rparr>"
  have j: "?j < length ess" by (rule bucket_of_lt [OF inv])
  have out: "new \<notin> set (concat ess)" using new(1) by (auto simp: table_nodes_def)
  have none: "find_elem h m st key = Some 0" "\<forall>e \<in> set (concat ess). ekey (elems st e) \<noteq> k"
    using find_elem_cases [OF inv k] absent by (metis option.distinct(1))+
  have len: "length (concat ess') = Suc (length (concat ess))"
    using length_concat_update [OF j, of "ess ! ?j @ [new]"] by (simp add: ess'_def)
  have t: "list_table is_list ls (heads st) ess'"
    unfolding ls_def ess'_def using inv j new(1) by (intro ovs.table_append) (auto simp: hm_inv_def)
  have S: "set (concat ess') = insert new (set (concat ess))"
    using set_concat_update [OF j, of "ess ! ?j @ [new]"] set_concat_update [OF j, of "ess ! ?j"]
    by (simp add: ess'_def del: set_concat)
  have "length (concat ess') \<le> unat (max_entries m)"
    using room unat_count [OF inv] len by (simp add: word_less_nat_alt)
  then have inv': "hm_inv m st' ess'"
    unfolding ess'_def
    by (intro hm_inv_change [OF inv j _ out new(2), where E = E and ls = ls])
      (use t none(2) S k in \<open>auto simp: st'_def ess'_def E_def elem_ok_def simp del: set_concat\<close>)
  have "hm_abs st' ess' = (hm_abs st ess)(ekey E \<mapsto> evalue E)"
    by (intro hm_abs_insert [OF hm_inv_inj [OF inv] hm_inv_inj [OF inv']])
      (use none(2) S out in \<open>auto simp: st'_def E_def simp del: set_concat\<close>)
  moreover have "ubpf_hashmap_update h m new st key val = Some (0, st')"
    using none(1) room inv len
    by (simp add: ubpf_hashmap_update_def Let_def hash_key select_bucket_head [OF inv] st'_def ls_def E_def
        hm_inv_def not_le flip: k)
  moreover have "heads st' = heads st" "set (concat ess') \<subseteq> insert new (set (concat ess))"
    using S by (auto simp: heads_def st'_def simp del: set_concat)
  ultimately show ?thesis using inv' by (auto simp: E_def simp del: set_concat)
qed

lemma update_present:
  assumes inv: "hm_inv m st ess" and k: "k = bytes_at h key (unat (key_size m))"
    and new: "new \<notin> table_nodes (heads st) ess" "new \<noteq> 0"
    and present: "hm_abs st ess k \<noteq> None"
  shows "\<exists>st' ess'. ubpf_hashmap_update h m new st key val = Some (0, st') \<and> hm_inv m st' ess' \<and>
    hm_abs st' ess' = (hm_abs st ess)(k \<mapsto> bytes_at h val (unat (value_size m))) \<and>
    heads st' = heads st \<and> set (concat ess') \<subseteq> insert new (set (concat ess))"
proof -
  let ?j = "bucket_of st k"
  obtain e xs ys where e: "find_elem h m st key = Some e" "e \<noteq> 0" "ess ! ?j = xs @ e # ys"
    and rest: "set (xs @ ys) \<union> {e. \<exists>i < length ess. i \<noteq> ?j \<and> e \<in> set (ess ! i)} =
      {x \<in> set (concat ess). ekey (elems st x) \<noteq> k}"
    by (rule present_elem [OF inv k present])
  define E where "E = \<lparr>ehash = key_hash k, ekey = k, evalue = bytes_at h val (unat (value_size m))\<rparr>"
  define ess' where "ess' = ess[?j := xs @ ys @ [new]]"
  define ls where "ls = snd (ovs_list_remove e (ovs_list_insert (heads st ! ?j) new (lists st)))"
  define st' where "st' = \<lparr>hmap = (hmap st)\<lparr>hcount := of_nat (length (concat ess'))\<rparr>,
       lists = ls, elems = (elems st)(new := E)\<rparr>"
  have j: "?j < length ess" by (rule bucket_of_lt [OF inv])
  have out: "new \<notin> set (concat ess)" using new(1) by (auto simp: table_nodes_def)
  have t0: "list_table is_list (lists st) (heads st) ess" using inv by (simp add: hm_inv_def)
  have len: "length (concat ess') = length (concat ess)"
    using length_concat_update [OF j, of "xs @ ys @ [new]"] e(3) by (simp add: ess'_def)
  have "list_table is_list (ovs_list_insert (heads st ! ?j) new (lists st)) (heads st) (ess[?j := xs @ e # ys @ [new]])"
    using ovs.table_append [OF t0 j new(1)] e(3) by simp
  from ovs.table_remove [OF this, of ?j xs e "ys @ [new]"]
  have t: "list_table is_list ls (heads st) ess'"
    using j by (simp add: ls_def ess'_def)
  have S: "set (concat ess') = insert new {x \<in> set (concat ess). ekey (elems st x) \<noteq> k}"
    using set_concat_update [OF j, of "xs @ ys @ [new]"] rest by (simp add: ess'_def del: set_concat)
  have "length (concat ess') \<le> unat (max_entries m)" using inv len by (simp add: hm_inv_def)
  then have inv': "hm_inv m st' ess'"
    unfolding ess'_def
    by (intro hm_inv_change [OF inv j _ out new(2), where E = E and ls = ls])
      (use t e(3) S k in \<open>auto simp: st'_def ess'_def E_def elem_ok_def simp del: set_concat\<close>)
  have "hm_abs st' ess' = (hm_abs st ess)(ekey E \<mapsto> evalue E)"
    by (intro hm_abs_insert [OF hm_inv_inj [OF inv] hm_inv_inj [OF inv']])
      (use S out in \<open>auto simp: st'_def E_def simp del: set_concat\<close>)
  moreover have "ubpf_hashmap_update h m new st key val = Some (0, st')"
    using e(1,2) inv len
    by (simp add: ubpf_hashmap_update_def Let_def hash_key select_bucket_head [OF inv] st'_def ls_def E_def
        hm_inv_def flip: k)
  moreover have "heads st' = heads st" "set (concat ess') \<subseteq> insert new (set (concat ess))"
    using S by (auto simp: heads_def st'_def simp del: set_concat)
  ultimately show ?thesis using inv' by (auto simp: E_def simp del: set_concat)
qed

lemma delete_absent:
  assumes "hm_inv m st ess" "k = bytes_at h key (unat (key_size m))" "hm_abs st ess k = None"
  shows "ubpf_hashmap_delete h m st key = Some (-4, st)"
  using assms(1,2) by (cases rule: find_elem_cases) (use assms(3) in \<open>simp_all add: ubpf_hashmap_delete_def\<close>)

lemma delete_present:
  assumes inv: "hm_inv m st ess" and k: "k = bytes_at h key (unat (key_size m))"
    and present: "hm_abs st ess k \<noteq> None"
  shows "\<exists>st' ess'. ubpf_hashmap_delete h m st key = Some (0, st') \<and> hm_inv m st' ess' \<and>
    hm_abs st' ess' = (hm_abs st ess)(k := None) \<and>
    heads st' = heads st \<and> set (concat ess') \<subseteq> set (concat ess)"
proof -
  let ?j = "bucket_of st k"
  obtain e xs ys where e: "find_elem h m st key = Some e" "e \<noteq> 0" "ess ! ?j = xs @ e # ys"
    and rest: "set (xs @ ys) \<union> {e. \<exists>i < length ess. i \<noteq> ?j \<and> e \<in> set (ess ! i)} =
      {x \<in> set (concat ess). ekey (elems st x) \<noteq> k}"
    by (rule present_elem [OF inv k present])
  define ess' where "ess' = ess[?j := xs @ ys]"
  define ls where "ls = snd (ovs_list_remove e (lists st))"
  define st' where "st' = \<lparr>hmap = (hmap st)\<lparr>hcount := of_nat (length (concat ess'))\<rparr>,
       lists = ls, elems = (elems st)(0 := elems st 0)\<rparr>"
  have j: "?j < length ess" by (rule bucket_of_lt [OF inv])
  have t0: "list_table is_list (lists st) (heads st) ess" using inv by (simp add: hm_inv_def)
  have len: "Suc (length (concat ess')) = length (concat ess)"
    using length_concat_update [OF j, of "xs @ ys"] e(3) by (simp add: ess'_def)
  have t: "list_table is_list ls (heads st) ess'"
    using ovs.table_remove [OF t0 j e(3)] by (simp add: ls_def ess'_def)
  have S: "set (concat ess') = {x \<in> set (concat ess). ekey (elems st x) \<noteq> k}"
    using set_concat_update [OF j, of "xs @ ys"] rest by (simp add: ess'_def del: set_concat)
  have "length (concat ess') \<le> unat (max_entries m)" using inv len by (simp add: hm_inv_def)
  moreover have zero: "0 \<notin> set (concat ess)" using inv by (simp add: hm_inv_def)
  ultimately have inv': "hm_inv m st' ess'"
    unfolding ess'_def
    by (intro hm_inv_change [OF inv j, where n = 0 and E = "elems st 0" and ls = ls])
      (use t e(3) zero rest in \<open>auto simp: st'_def ess'_def simp del: set_concat\<close>)
  have "hm_abs st' ess' = (hm_abs st ess)(k := None)"
    by (intro hm_abs_delete [OF hm_inv_inj [OF inv] hm_inv_inj [OF inv']])
      (use S in \<open>auto simp: st'_def simp del: set_concat\<close>)
  moreover have "ubpf_hashmap_delete h m st key = Some (0, st')"
  proof -
    have "hcount (hmap st) = of_nat (Suc (length (concat ess')))" using inv len by (simp add: hm_inv_def)
    then show ?thesis using e(1,2) by (simp add: ubpf_hashmap_delete_def st'_def ls_def)
  qed
  moreover have "heads st' = heads st" "set (concat ess') \<subseteq> set (concat ess)"
    using S by (auto simp: heads_def st'_def simp del: set_concat)
  ultimately show ?thesis using inv' by blast
qed

section \<open>Creation\<close>

text \<open>Spreading the highest bit downwards makes a mask.\<close>

lemma smear_step:
  assumes "\<And>i. bit w i \<longleftrightarrow> (\<exists>d < n. bit v (i + d))"
  shows "bit (w OR drop_bit n w) i \<longleftrightarrow> (\<exists>d < 2 * n. bit (v :: u32) (i + d))"
proof -
  have "bit (w OR drop_bit n w) i \<longleftrightarrow> (\<exists>d < n. bit v (i + d)) \<or> (\<exists>d < n. bit v (n + i + d))"
    by (simp add: bit_or_iff bit_drop_bit_eq assms)
  also have "\<dots> \<longleftrightarrow> (\<exists>d < 2 * n. bit v (i + d))"
  proof
    assume "(\<exists>d < n. bit v (i + d)) \<or> (\<exists>d < n. bit v (n + i + d))"
    then consider d where "d < n" "bit v (i + d)" | d where "d < n" "bit v (n + i + d)" by blast
    then show "\<exists>d < 2 * n. bit v (i + d)"
    proof cases
      case (1 d)
      then show ?thesis by (intro exI [of _ d]) simp
    next
      case (2 d)
      then show ?thesis by (intro exI [of _ "n + d"]) (simp add: ac_simps)
    qed
  next
    assume "\<exists>d < 2 * n. bit v (i + d)"
    then obtain d where d: "d < 2 * n" "bit v (i + d)" by blast
    show "(\<exists>d < n. bit v (i + d)) \<or> (\<exists>d < n. bit v (n + i + d))"
    proof (cases "d < n")
      case False
      then have "d - n < n" "n + i + (d - n) = i + d" using d(1) by auto
      then have "\<exists>d < n. bit v (n + i + d)" using d(2) by (intro exI [of _ "d - n"]) simp
      then show ?thesis by blast
    qed (use d in blast)
  qed
  finally show ?thesis .
qed

definition smear :: "u32 \<Rightarrow> u32" where
  "smear v =
     (let v = v OR drop_bit 1 v; v = v OR drop_bit 2 v; v = v OR drop_bit 4 v; v = v OR drop_bit 8 v
      in v OR drop_bit 16 v)"

lemma bit_smear: "bit (smear v) i \<longleftrightarrow> (\<exists>j \<ge> i. bit v j)"
proof -
  have 0: "bit v i \<longleftrightarrow> (\<exists>d < 1. bit v (i + d))" for i by simp
  note 1 = smear_step [OF 0] note 2 = smear_step [OF 1] note 3 = smear_step [OF 2]
  note 4 = smear_step [OF 3] note 5 = smear_step [OF 4]
  have "bit (smear v) i \<longleftrightarrow> (\<exists>d < 32. bit v (i + d))"
    using 5 by (simp add: smear_def Let_def)
  also have "\<dots> \<longleftrightarrow> (\<exists>j \<ge> i. bit v j)"
  proof
    assume "\<exists>j \<ge> i. bit v j"
    then obtain j where "j \<ge> i" "bit v j" by blast
    then show "\<exists>d < 32. bit v (i + d)" using bit_imp_le_length [of v j] by (intro exI [of _ "j - i"]) simp
  qed (meson le_add1)
  finally show ?thesis .
qed

lemma smear_mask:
  assumes "v < 2 ^ 31"
  obtains n where "n \<le> 31" "smear v = mask n" "unat v < 2 ^ n" "2 ^ n \<le> 2 * unat v \<or> n = 0"
proof -
  define n where "n = (LEAST n. unat v < 2 ^ n)"
  have v: "unat v < 2 ^ 31" using assms by (simp add: word_less_nat_alt)
  have lt: "unat v < 2 ^ n" unfolding n_def by (rule LeastI [of _ 31]) (use v in simp)
  have le: "n \<le> 31" unfolding n_def by (rule Least_le) (use v in simp)
  have top: "2 ^ (n - 1) \<le> unat v" if "n > 0"
  proof (rule ccontr)
    assume "\<not> 2 ^ (n - 1) \<le> unat v"
    then have "n \<le> n - 1" unfolding n_def by (intro Least_le) simp
    then show False using that by simp
  qed
  have hi: "\<not> bit v j" if "j \<ge> n" for j
  proof -
    have "unat v < 2 ^ j" using lt that by (meson less_le_trans one_le_numeral power_increasing)
    then have "\<not> bit (unat v) j" by (simp add: bit_iff_odd)
    then show ?thesis by (simp add: bit_unsigned_iff)
  qed
  have bitn: "bit v (n - 1)" if "n > 0"
  proof -
    have "unat v div 2 ^ (n - 1) = 1"
      using top [OF that] lt that by (intro div_nat_eqI) (auto simp: power_eq_if)
    then have "bit (unat v) (n - 1)" by (simp add: bit_iff_odd)
    then show ?thesis by (simp add: bit_unsigned_iff)
  qed
  have "smear v = mask n"
  proof (rule bit_word_eqI)
    fix i :: nat
    assume "i < LENGTH(32)"
    have "(\<exists>j \<ge> i. bit v j) \<longleftrightarrow> i < n"
    proof
      assume "\<exists>j \<ge> i. bit v j"
      then show "i < n" using hi by (meson le_trans not_le)
    next
      assume "i < n"
      then show "\<exists>j \<ge> i. bit v j" using bitn by (intro exI [of _ "n - 1"]) simp
    qed
    then show "bit (smear v) i = bit (mask n :: u32) i"
      using \<open>i < LENGTH(32)\<close> by (simp add: bit_smear bit_mask_iff)
  qed
  moreover have "2 ^ n \<le> 2 * unat v \<or> n = 0"
    using top by (cases n) auto
  ultimately show thesis using that [of n] le lt by blast
qed

lemma round_up_pow_of_two_smear: "round_up_pow_of_two x = smear (x - 1) + 1"
  by (simp add: round_up_pow_of_two_def smear_def Let_def)

lemma pow_of_two_bounds:
  assumes "0 < x" "x \<le> 2 ^ 31"
  shows "\<exists>n \<le> 31. unat (round_up_pow_of_two x) = 2 ^ n \<and> unat x \<le> 2 ^ n \<and> 2 ^ n < 2 * unat x"
proof -
  have x: "unat (x - 1) = unat x - 1" "0 < unat x" "unat x \<le> 2 ^ 31"
    using assms unat_minus_one [of x] by (auto simp: word_le_nat_alt unat_gt_0)
  then have "x - 1 < 2 ^ 31" by (simp add: word_less_nat_alt)
  then obtain n where n: "n \<le> 31" "smear (x - 1) = mask n" "unat (x - 1) < 2 ^ n" "2 ^ n \<le> 2 * unat (x - 1) \<or> n = 0"
    by (rule smear_mask)
  have "round_up_pow_of_two x = 2 ^ n"
    by (simp add: round_up_pow_of_two_smear n(2) mask_eq_exp_minus_1)
  moreover have "unat (2 ^ n :: u32) = 2 ^ n"
  proof -
    have "(2 :: nat) ^ n < 2 ^ 32" using n(1) by (intro power_strict_increasing) auto
    moreover have "(2 ^ n :: u32) = of_nat (2 ^ n)" by simp
    ultimately show ?thesis by (simp only: unat_of_nat) simp
  qed
  ultimately show ?thesis using n x by (intro exI [of _ n]) auto
qed

lemma init_fold:
  "fold (\<lambda>i. ovs_list_init (f i)) is ls x = (if x \<in> f ` set is then \<lparr>lprev = x, lnext = x\<rparr> else ls x)"
proof (induction "is" arbitrary: ls)
  case (Cons i "is")
  then show ?case by (auto simp: ovs_list_init_def set_prev_def set_next_def)
qed simp

lemma bucket_at_inj: "i < 2 ^ 32 \<Longrightarrow> j < 2 ^ 32 \<Longrightarrow> bucket_at b i = bucket_at b j \<Longrightarrow> i = j"
proof -
  assume ij: "i < 2 ^ 32" "j < 2 ^ 32" and "bucket_at b i = bucket_at b j"
  then have "(of_nat (16 * i) :: u64) = of_nat (16 * j)" by (simp add: bucket_at_def)
  then have "unat (of_nat (16 * i) :: u64) = unat (of_nat (16 * j) :: u64)" by simp
  then show "i = j" using ij by (simp add: unat_of_nat del: of_nat_mult)
qed

lemma create_inv:
  assumes "st = ubpf_hashmap_create d base ls es" "0 < unat (nb_buckets (hmap st))"
  shows "hm_inv m st (replicate (unat (nb_buckets (hmap st))) [])"
proof -
  let ?nb = "unat (nb_buckets (hmap st))"
  have nb: "?nb < 2 ^ 32" using unsigned_less [of "nb_buckets (hmap st)", where 'a = nat] by simp
  have b: "buckets (hmap st) = base" "hcount (hmap st) = 0"
    by (simp_all add: assms(1) ubpf_hashmap_create_def Let_def)
  have hd: "heads st ! i = bucket_at base i" if "i < ?nb" for i using that by (simp add: heads_def b)
  have node: "lists st (bucket_at base i) = \<lparr>lprev = bucket_at base i, lnext = bucket_at base i\<rparr>" if "i < ?nb" for i
    using that by (simp add: assms(1) ubpf_hashmap_create_def Let_def init_fold)
  have "heads st ! i \<noteq> heads st ! j" if "i < ?nb" "j < ?nb" "i \<noteq> j" for i j
  proof -
    have "i < 2 ^ 32" "j < 2 ^ 32" using that(1,2) nb by (meson less_trans)+
    then show ?thesis using bucket_at_inj [of i j base] that hd by auto
  qed
  then have "list_table is_list (lists st) (heads st) (replicate ?nb [])"
    using node hd by (auto simp: list_table_def is_list_def)
  then show ?thesis using assms(2) b by (simp add: hm_inv_def)
qed

section \<open>Reading the whole map\<close>

definition dump_bytes :: "hstore \<Rightarrow> u64 list \<Rightarrow> u8 list" where
  "dump_bytes st es = concat (map (\<lambda>e. ekey (elems st e) @ evalue (elems st e)) es)"

lemma fold_dump_elem:
  "fold (dump_elem st) es (data, h) = (data + of_nat (length (dump_bytes st es)), write_bytes data (dump_bytes st es) h)"
proof (induction es arbitrary: data h)
  case Nil
  then show ?case by (simp add: dump_bytes_def)
next
  case (Cons e es)
  then show ?case
    by (simp add: dump_elem_def Let_def dump_bytes_def write_bytes_append add.assoc)
qed

lemma dump_buckets_inv:
  assumes "hm_inv m st ess"
  shows "n + j = length ess \<Longrightarrow> dump_buckets st n j out = Some (fold (dump_elem st) (concat (drop j ess)) out)"
proof (induction n arbitrary: j out)
  case 0
  then show ?case by simp
next
  case (Suc n)
  then have j: "j < length ess" by simp
  have "is_list (lists st) (heads st ! j) (ess ! j)"
    using assms j by (auto simp: hm_inv_def intro: ovs.table_nth)
  moreover have "heads st ! j = bucket_at (buckets (hmap st)) j"
    using assms j by (simp add: heads_def hm_inv_def)
  ultimately have "list_for_each (bucket_at (buckets (hmap st)) j) (lists st) = Some (ess ! j)"
    by (simp add: is_list_for_each)
  then show ?case using Suc j by (simp add: Cons_nth_drop_Suc [symmetric])
qed

lemma length_dump_bytes:
  assumes "hm_inv m st ess"
  shows "length (dump_bytes st (concat ess)) = length (concat ess) * (unat (key_size m) + unat (value_size m))"
proof -
  have *: "length (dump_bytes st es) = length es * (unat (key_size m) + unat (value_size m))" if "set es \<subseteq> set (concat ess)" for es
    using that
  proof (induction es)
    case Nil
    then show ?case by (simp add: dump_bytes_def)
  next
    case (Cons e es)
    then obtain i where "i < length ess" "e \<in> set (ess ! i)" unfolding set_simps insert_subset in_concat_nth by blast
    then have "elem_ok m st i (elems st e)" by (rule elem_okD [OF assms])
    then show ?case using Cons by (simp add: dump_bytes_def elem_ok_def del: set_concat)
  qed
  then show ?thesis by blast
qed

lemma distinct_concat_nth:
  assumes "\<And>i. i < length ess \<Longrightarrow> distinct (ess ! i)"
    and "\<And>i j. i < length ess \<Longrightarrow> j < length ess \<Longrightarrow> i \<noteq> j \<Longrightarrow> set (ess ! i) \<inter> set (ess ! j) = {}"
  shows "distinct (concat ess)"
  using assms
proof (induction ess)
  case (Cons es ess)
  have "distinct es" using Cons.prems(1) [of 0] by simp
  moreover have "distinct (concat ess)"
    using Cons.prems(1) [of "Suc _"] Cons.prems(2) [of "Suc _" "Suc _"] by (intro Cons.IH) auto
  moreover have "set es \<inter> set (concat ess) = {}"
  proof (rule ccontr)
    assume "set es \<inter> set (concat ess) \<noteq> {}"
    then obtain x where x: "x \<in> set es" "x \<in> set (concat ess)" by blast
    then obtain i where "i < length ess" "x \<in> set (ess ! i)" unfolding in_concat_nth by blast
    then show False using x(1) Cons.prems(2) [of 0 "Suc i"] by auto
  qed
  ultimately show ?case by (simp del: set_concat)
qed simp

lemma count_is_card:
  assumes inv: "hm_inv m st ess"
  shows "unat (hcount (hmap st)) = card (dom (hm_abs st ess))"
proof -
  have t: "list_table is_list (lists st) (heads st) ess" using inv by (simp add: hm_inv_def)
  have "distinct (concat ess)"
  proof (rule distinct_concat_nth)
    fix i j
    assume i: "i < length ess"
    show "distinct (ess ! i)" using ovs.distinct [OF ovs.table_nth [OF t i]] by simp
    assume "j < length ess" "i \<noteq> j"
    then show "set (ess ! i) \<inter> set (ess ! j) = {}" using t i by (auto simp: list_table_def)
  qed
  moreover have "dom (hm_abs st ess) = (\<lambda>e. ekey (elems st e)) ` set (concat ess)"
    using hm_abs_Some [OF hm_inv_inj [OF inv]] by (auto simp del: set_concat)
  ultimately show ?thesis
    using unat_count [OF inv] hm_inv_inj [OF inv] by (simp add: card_image distinct_card del: set_concat)
qed

text \<open>A map defined with no entries has no bucket, and a search then reads the head at whatever index the hash is.\<close>

lemma hashmap_zero_buckets:
  assumes "def_max_entries d = 0" "st = ubpf_hashmap_create d base ls es"
  shows "nb_buckets (hmap st) = 0 \<and> select_bucket (hmap st) hash = bucket_at base (unat hash)"
  using assms by (simp add: ubpf_hashmap_create_def select_bucket_def round_up_pow_of_two_def Let_def)

section \<open>Properties\<close>

text \<open>(C24) Updating a key refines the update of a finite map.  The call returns; it reports -4 and changes
  nothing exactly when the key is new and the map is full, and otherwise it returns 0, keeps the
  invariant (bucket lists, hashes, unique keys, count) and the map it represents has the new value for the key
  and is otherwise the same.\<close>

theorem hashmap_update_refines:
  assumes "hm_inv m st ess" "new \<notin> table_nodes (heads st) ess" "new \<noteq> 0"
  shows "let k = bytes_at h key (unat (key_size m)); v = bytes_at h val (unat (value_size m)) in
    if hm_abs st ess k = None \<and> hcount (hmap st) \<ge> max_entries m
    then ubpf_hashmap_update h m new st key val = Some (-4, st)
    else \<exists>st' ess'. ubpf_hashmap_update h m new st key val = Some (0, st') \<and>
      hm_inv m st' ess' \<and> hm_abs st' ess' = (hm_abs st ess)(k \<mapsto> v)"
  using update_full [OF assms(1) refl] update_new [OF assms(1) refl assms(2,3)]
    update_present [OF assms(1) refl assms(2,3)] unfolding Let_def by (metis not_le)

text \<open>(C25) Deleting a key refines the deletion from a finite map: -4 and no change when the key is
  absent, otherwise 0 and exactly this key is gone.\<close>

theorem hashmap_delete_refines:
  assumes "hm_inv m st ess"
  shows "let k = bytes_at h key (unat (key_size m)) in
    if hm_abs st ess k = None then ubpf_hashmap_delete h m st key = Some (-4, st)
    else \<exists>st' ess'. ubpf_hashmap_delete h m st key = Some (0, st') \<and>
      hm_inv m st' ess' \<and> hm_abs st' ess' = (hm_abs st ess)(k := None)"
  using delete_absent [OF assms refl] delete_present [OF assms refl] unfolding Let_def by metis


text \<open>(C27) Dumping the map returns the number of entries and writes the concatenation of the keys and
  values of all entries to the buffer, each entry once.\<close>

theorem hashmap_dump_exact:
  assumes "hm_inv m st ess" "length (dump_bytes st (concat ess)) \<le> 2 ^ 64"
  shows "\<exists>h'. ubpf_hashmap_dump st data h = Some (hcount (hmap st), h') \<and>
    length (dump_bytes st (concat ess)) = unat (hcount (hmap st)) * (unat (key_size m) + unat (value_size m)) \<and>
    bytes_at h' data (length (dump_bytes st (concat ess))) = dump_bytes st (concat ess) \<and>
    (\<forall>x. x \<notin> touched data (length (dump_bytes st (concat ess))) \<longrightarrow> h' x = h x)"
proof -
  have "unat (nb_buckets (hmap st)) + 0 = length ess" using assms(1) by (simp add: hm_inv_def)
  from dump_buckets_inv [OF assms(1) this] show ?thesis
    using bytes_at_write_bytes [OF assms(2)] write_bytes_other length_dump_bytes [OF assms(1)] unat_count [OF assms(1)]
    by (simp add: ubpf_hashmap_dump_def fold_dump_elem)
qed

text \<open>(C28) A new map with between one and 2^31 entries has a power of two of buckets, at least as many as
  entries and less than twice as many, satisfies the invariant and represents the empty map.\<close>

theorem hashmap_create_empty:
  assumes "0 < def_max_entries d" "def_max_entries d \<le> 2 ^ 31"
  shows "let st = ubpf_hashmap_create d base ls es; ess = replicate (unat (nb_buckets (hmap st))) [] in
    (\<exists>n. unat (nb_buckets (hmap st)) = 2 ^ n) \<and>
    unat (def_max_entries d) \<le> unat (nb_buckets (hmap st)) \<and>
    unat (nb_buckets (hmap st)) < 2 * unat (def_max_entries d) \<and>
    hm_inv m st ess \<and> hm_abs st ess = Map.empty"
proof -
  define st where "st = ubpf_hashmap_create d base ls es"
  obtain n where n: "unat (nb_buckets (hmap st)) = 2 ^ n" "unat (def_max_entries d) \<le> 2 ^ n" "2 ^ n < 2 * unat (def_max_entries d)"
    using pow_of_two_bounds [OF assms] by (auto simp: st_def ubpf_hashmap_create_def Let_def)
  then have "hm_inv m st (replicate (unat (nb_buckets (hmap st))) [])" by (intro create_inv [OF st_def]) simp
  moreover have "hm_abs st (replicate (unat (nb_buckets (hmap st))) []) = Map.empty" by (simp add: hm_abs_def)
  ultimately show ?thesis using n unfolding st_def [symmetric] Let_def by auto
qed

subsection \<open>A sample map\<close>

definition sample_def :: ubpf_map_def where
  "sample_def = \<lparr>def_type = 4, def_key_size = 4, def_value_size = 4, def_max_entries = 3, def_nb_hash_functions = 0\<rparr>"

definition sample_map :: ubpf_map where
  "sample_map = \<lparr>map_type = 4, key_size = 4, value_size = 4, max_entries = 3\<rparr>"

definition sample_store :: hstore where
  "sample_store = ubpf_hashmap_create sample_def 4096 (\<lambda>_. OVS_LIST_POISON) (\<lambda>_. \<lparr>ehash = 0, ekey = [], evalue = []\<rparr>)"

definition sample_heap :: heap where
  "sample_heap = ((\<lambda>_. 0)(100 := 1, 101 := 2, 200 := 9))"

lemma sample_store_inv: "hm_inv sample_map sample_store [[], [], [], []]"
  by code_simp

lemma sample_keys:
  "bytes_at sample_heap 100 (unat (key_size sample_map)) = [1, 2, 0, 0]"
  "bytes_at sample_heap 200 (unat (value_size sample_map)) = [9, 0, 0, 0]"
  by code_simp+

lemma sample_abs: "hm_abs sample_store [[], [], [], []] = Map.empty"
  by (simp add: hm_abs_def)

lemma sample_room:
  "(8192 :: u64) \<notin> table_nodes (heads sample_store) [[], [], [], []]"
  "hcount (hmap sample_store) < max_entries sample_map"
  by code_simp+

text \<open>The same map after one update.\<close>

lemma sample_one:
  "\<exists>st ess. hm_inv sample_map st ess \<and> hm_abs st ess = [[1, 2, 0, 0] \<mapsto> [9, 0, 0, 0]]"
  using update_new [OF sample_store_inv sample_keys(1) [symmetric] sample_room(1) _ _ sample_room(2), of 200]
  by (auto simp: sample_abs sample_keys)

theorem hashmap_update_refines_witness:
  "\<exists>st' ess'. ubpf_hashmap_update sample_heap sample_map 8192 sample_store 100 200 = Some (0, st') \<and>
     hm_inv sample_map st' ess' \<and> hm_abs st' ess' = [[1, 2, 0, 0] \<mapsto> [9, 0, 0, 0]]"
  using hashmap_update_refines [OF sample_store_inv sample_room(1), of sample_heap 100 200] sample_room(2)
  by (simp add: sample_keys sample_abs not_le [symmetric] Let_def)

theorem hashmap_delete_refines_witness:
  "\<exists>st st' ess'. ubpf_hashmap_delete sample_heap sample_map st 100 = Some (0, st') \<and>
     hm_inv sample_map st' ess' \<and> hm_abs st' ess' = Map.empty"
proof -
  obtain st ess where "hm_inv sample_map st ess" "hm_abs st ess = [[1, 2, 0, 0] \<mapsto> [9, 0, 0, 0]]"
    using sample_one by blast
  then show ?thesis
    using hashmap_delete_refines [of sample_map st ess sample_heap 100] by (auto simp: sample_keys Let_def)
qed


theorem hashmap_dump_exact_witness:
  "\<exists>st ess h'. hm_abs st ess = [[1, 2, 0, 0] \<mapsto> [9, 0, 0, 0]] \<and>
     ubpf_hashmap_dump st 300 sample_heap = Some (hcount (hmap st), h') \<and>
     bytes_at h' 300 (length (dump_bytes st (concat ess))) = dump_bytes st (concat ess)"
proof -
  obtain st ess where st: "hm_inv sample_map st ess" "hm_abs st ess = [[1, 2, 0, 0] \<mapsto> [9, 0, 0, 0]]"
    using sample_one by blast
  then have "length (concat ess) \<le> 3" by (simp add: hm_inv_def sample_map_def)
  then have "length (dump_bytes st (concat ess)) \<le> 2 ^ 64"
    unfolding length_dump_bytes [OF st(1)] by (simp add: sample_map_def)
  then show ?thesis using hashmap_dump_exact [OF st(1)] st(2) by blast
qed

theorem hashmap_create_empty_witness:
  "hm_inv sample_map sample_store (replicate (unat (nb_buckets (hmap sample_store))) []) \<and>
   3 \<le> unat (nb_buckets (hmap sample_store))"
proof -
  have "0 < def_max_entries sample_def" "def_max_entries sample_def \<le> 2 ^ 31" "unat (def_max_entries sample_def) = 3"
    by (simp_all add: sample_def_def)
  then show ?thesis using hashmap_create_empty [of sample_def] unfolding sample_store_def Let_def by metis
qed

end
