(* ===== verification/Ubpf_Array.thy ===== *)
theory Ubpf_Array
  imports Ubpf_Map
begin

text \<open>
  The array map of \<^verbatim>\<open>ubpf_array.c\<close>, on byte memory: \<open>data\<close> is the address of the array and the key is a pointer
  to a 64-bit index.  The operations are those of a sequence of \<open>max_entries\<close> entries of \<open>value_size\<close> bytes.
  An update whose value overlaps the entry it writes, which C leaves undefined, copies the old bytes.
\<close>

section \<open>Operations\<close>

definition ubpf_array_create :: "ubpf_map_def \<Rightarrow> u64 \<Rightarrow> heap \<Rightarrow> heap" where
  "ubpf_array_create d data h =
     write_bytes data (replicate (unat (def_max_entries d) * unat (def_value_size d)) 0) h"

definition ubpf_array_lookup :: "heap \<Rightarrow> ubpf_map \<Rightarrow> u64 \<Rightarrow> u64 \<Rightarrow> u64" where
  "ubpf_array_lookup h m data key =
     (let idx = load_le 8 h key in
      if idx \<ge> ucast (max_entries m) then 0 else data + idx * ucast (value_size m))"

definition ubpf_array_update :: "ubpf_map \<Rightarrow> u64 \<Rightarrow> u64 \<Rightarrow> u64 \<Rightarrow> heap \<Rightarrow> int \<times> heap" where
  "ubpf_array_update m data key val h =
     (let idx = load_le 8 h key in
      if idx \<ge> ucast (max_entries m) then (-5, h)
      else let addr = data + ucast (value_size m) * idx in (0, memcpy addr val (unat (value_size m)) h))"

section \<open>The array as a sequence of entries\<close>

definition entry_at :: "ubpf_map \<Rightarrow> u64 \<Rightarrow> nat \<Rightarrow> u64" where
  "entry_at m data i = data + of_nat (i * unat (value_size m))"

definition entry :: "heap \<Rightarrow> ubpf_map \<Rightarrow> u64 \<Rightarrow> nat \<Rightarrow> u8 list" where
  "entry h m data i = bytes_at h (entry_at m data i) (unat (value_size m))"

definition array_fits :: "ubpf_map \<Rightarrow> u64 \<Rightarrow> bool" where
  "array_fits m data \<longleftrightarrow> unat data + unat (max_entries m) * unat (value_size m) \<le> 2 ^ 64"

lemma entry_addr: "i < unat (max_entries m) \<Longrightarrow> i = unat idx \<Longrightarrow> data + idx * ucast (value_size m) = entry_at m data i"
  by (simp add: entry_at_def)

lemma entry_span:
  assumes "array_fits m data" "i < unat (max_entries m)"
  shows "unat data + i * unat (value_size m) + unat (value_size m) \<le> unat data + unat (max_entries m) * unat (value_size m)"
    and "unat (entry_at m data i) + unat (value_size m) \<le> 2 ^ 64 \<and> (unat (value_size m) > 0 \<longrightarrow> unat (entry_at m data i) = unat data + i * unat (value_size m))"
proof -
  have "Suc i * unat (value_size m) \<le> unat (max_entries m) * unat (value_size m)"
    using assms(2) by (intro mult_le_mono1) simp
  then show 1: "unat data + i * unat (value_size m) + unat (value_size m) \<le> unat data + unat (max_entries m) * unat (value_size m)"
    by simp
  show "unat (entry_at m data i) + unat (value_size m) \<le> 2 ^ 64 \<and> (unat (value_size m) > 0 \<longrightarrow> unat (entry_at m data i) = unat data + i * unat (value_size m))"
  proof (cases "unat (value_size m) = 0")
    case True
    have "unat (entry_at m data i) < 2 ^ 64" using unsigned_less [of "entry_at m data i", where 'a = nat] by simp
    then show ?thesis using True by simp
  next
    case False
    then have "unat data + i * unat (value_size m) < 2 ^ 64" using 1 assms(1) unfolding array_fits_def by linarith
    then have "unat (entry_at m data i) = unat data + i * unat (value_size m)"
      by (simp add: entry_at_def unat_word_ariths unat_of_nat del: of_nat_mult)
    then show ?thesis using 1 assms(1) unfolding array_fits_def by linarith
  qed
qed

lemma touched_entry:
  assumes "array_fits m data" "i < unat (max_entries m)"
  shows "x \<in> touched (entry_at m data i) (unat (value_size m)) \<longleftrightarrow>
    unat data + i * unat (value_size m) \<le> unat x \<and> unat x < unat data + i * unat (value_size m) + unat (value_size m)"
  using entry_span(2) [OF assms] touched_interval [of "entry_at m data i" "unat (value_size m)" x]
  by (cases "unat (value_size m) = 0") auto

lemma entries_disjoint:
  assumes "array_fits m data" "i < unat (max_entries m)" "j < unat (max_entries m)" "i \<noteq> j"
  shows "touched (entry_at m data i) (unat (value_size m)) \<inter> touched (entry_at m data j) (unat (value_size m)) = {}"
proof (rule ccontr)
  assume "\<not> ?thesis"
  then obtain x where "x \<in> touched (entry_at m data i) (unat (value_size m))" "x \<in> touched (entry_at m data j) (unat (value_size m))"
    by blast
  then have x: "i * unat (value_size m) \<le> unat x - unat data" "unat x - unat data < Suc i * unat (value_size m)"
    "j * unat (value_size m) \<le> unat x - unat data" "unat x - unat data < Suc j * unat (value_size m)"
    unfolding touched_entry [OF assms(1,2)] touched_entry [OF assms(1,3)] by auto
  then have "i * unat (value_size m) < Suc j * unat (value_size m)" "j * unat (value_size m) < Suc i * unat (value_size m)"
    by linarith+
  then have "i < Suc j" "j < Suc i" by (meson mult_less_cancel2)+
  then show False using assms(4) by simp
qed

section \<open>Properties\<close>

text \<open>(C29) Updating an array refines the update of a sequence of entries.  For an index in range it returns 0,
  the entry holds the bytes of the value, every other entry and every byte outside the array is unchanged; for
  an index out of range it returns -5 and changes nothing.\<close>

theorem array_update_refines:
  assumes "array_fits m data"
  shows "let i = unat (load_le 8 h key); (r, h') = ubpf_array_update m data key val h in
    if i < unat (max_entries m)
    then r = 0 \<and>
      (\<forall>j < unat (max_entries m). entry h' m data j = (if j = i then bytes_at h val (unat (value_size m)) else entry h m data j)) \<and>
      (\<forall>x. \<not> (unat data \<le> unat x \<and> unat x < unat data + unat (max_entries m) * unat (value_size m)) \<longrightarrow> h' x = h x)
    else r = -5 \<and> h' = h"
proof (cases "unat (load_le 8 h key) < unat (max_entries m)")
  case True
  define i vs where i: "i = unat (load_le 8 h key)" and vs: "vs = unat (value_size m)"
  have i_lt: "i < unat (max_entries m)" using True i by simp
  define h' where "h' = write_bytes (entry_at m data i) (bytes_at h val vs) h"
  have up: "ubpf_array_update m data key val h = (0, h')"
    using True by (simp add: ubpf_array_update_def Let_def word_le_nat_alt unat_ucast_u32 memcpy_def h'_def i vs
        mult.commute [of "ucast (value_size m)"] entry_addr)
  have "vs \<le> 2 ^ 64" using entry_span(2) [OF assms i_lt] vs by simp
  then have same: "entry h' m data i = bytes_at h val vs"
    using bytes_at_write_bytes [of "bytes_at h val vs"] by (simp add: entry_def h'_def vs)
  have other: "entry h' m data j = entry h m data j" if "j < unat (max_entries m)" "j \<noteq> i" for j
    using entries_disjoint [OF assms that(1) i_lt that(2)] by (simp add: entry_def h'_def vs bytes_at_write_other)
  have "h' x = h x" if "\<not> (unat data \<le> unat x \<and> unat x < unat data + unat (max_entries m) * vs)" for x
    using touched_entry [OF assms i_lt] entry_span(1) [OF assms i_lt] that
    by (auto simp: h'_def vs intro!: write_bytes_other)
  then show ?thesis using True up same other by (simp add: Let_def i vs)
next
  case False
  then show ?thesis by (simp add: ubpf_array_update_def Let_def word_le_nat_alt unat_ucast_u32 split_def)
qed

text \<open>(C30) A lookup returns NULL exactly for an index out of range, and otherwise the address of the entry, all of
  which is inside the array.\<close>

theorem array_lookup_in_bounds:
  assumes "array_fits m data" "data \<noteq> 0" "value_size m \<noteq> 0"
  shows "let i = unat (load_le 8 h key); p = ubpf_array_lookup h m data key in
    (p = 0 \<longleftrightarrow> unat (max_entries m) \<le> i) \<and>
    (p \<noteq> 0 \<longrightarrow> p = entry_at m data i \<and> unat data \<le> unat p \<and>
      unat p + unat (value_size m) \<le> unat data + unat (max_entries m) * unat (value_size m))"
proof (cases "unat (load_le 8 h key) < unat (max_entries m)")
  case True
  have "0 < unat (value_size m)" "0 < unat data" using assms(2,3) by (simp_all add: unat_gt_0)
  then have a: "unat (entry_at m data (unat (load_le 8 h key))) = unat data + unat (load_le 8 h key) * unat (value_size m)"
    using entry_span(2) [OF assms(1) True] by simp
  moreover have "entry_at m data (unat (load_le 8 h key)) \<noteq> 0"
  proof
    assume "entry_at m data (unat (load_le 8 h key)) = 0"
    then show False using a \<open>0 < unat data\<close> by simp
  qed
  ultimately show ?thesis using True entry_span(1) [OF assms(1) True]
    by (simp add: ubpf_array_lookup_def Let_def word_le_nat_alt unat_ucast_u32 entry_addr)
next
  case False
  then show ?thesis by (simp add: ubpf_array_lookup_def Let_def word_le_nat_alt unat_ucast_u32)
qed

text \<open>A new array holds zero bytes only.\<close>

lemma array_create_zero:
  assumes "array_fits m data" "max_entries m = def_max_entries d" "value_size m = def_value_size d" "i < unat (max_entries m)"
  shows "entry (ubpf_array_create d data h) m data i = replicate (unat (value_size m)) 0"
proof -
  let ?n = "unat (max_entries m) * unat (value_size m)" and ?bs = "\<lambda>n. replicate n (0 :: u8)"
  have "Suc i * unat (value_size m) \<le> ?n" using assms(4) by (intro mult_le_mono1) simp
  then obtain r where r: "?n = i * unat (value_size m) + (unat (value_size m) + r)"
    by (metis add.assoc add.commute le_Suc_ex mult_Suc)
  have "bytes_at (ubpf_array_create d data h) data ?n = ?bs ?n"
    using bytes_at_write_bytes [of "?bs ?n" data h] assms(1-3)
    by (simp add: ubpf_array_create_def array_fits_def)
  then have "bytes_at (ubpf_array_create d data h) (entry_at m data i) (unat (value_size m)) = ?bs (unat (value_size m))"
    unfolding r bytes_at_add replicate_add by (simp add: entry_at_def)
  then show ?thesis by (simp add: entry_def)
qed

subsection \<open>A sample array\<close>

definition sample_array :: ubpf_map where
  "sample_array = \<lparr>map_type = 1, key_size = 8, value_size = 2, max_entries = 3\<rparr>"

definition sample_memory :: heap where
  "sample_memory = (\<lambda>_. 0)(16 := 1, 32 := 7, 33 := 8)"

lemma sample_array_fits: "array_fits sample_array 4096"
  by (simp add: array_fits_def sample_array_def)

lemma sample_index: "load_le 8 sample_memory 16 = 1"
  by code_simp

lemma sample_value: "bytes_at sample_memory 32 2 = [7, 8]"
  by code_simp

theorem array_update_refines_witness:
  "fst (ubpf_array_update sample_array 4096 16 32 sample_memory) = 0 \<and>
   entry (snd (ubpf_array_update sample_array 4096 16 32 sample_memory)) sample_array 4096 1 = [7, 8]"
  using array_update_refines [OF sample_array_fits, of sample_memory 16 32] sample_value
  by (simp add: sample_index Let_def split_def sample_array_def)

theorem array_lookup_in_bounds_witness:
  "ubpf_array_lookup sample_memory sample_array 4096 16 = entry_at sample_array 4096 1"
  using array_lookup_in_bounds [OF sample_array_fits, of sample_memory 16]
  by (simp add: sample_index Let_def sample_array_def)

end
