(* ===== verification/Ubpf_Sketch.thy ===== *)
theory Ubpf_Sketch
  imports Ubpf_Map
begin

text \<open>
  What the two sketches, the Bloom filter and the count-min sketch, have in common: the hashes they derive from a
  value, and the contracts of a set and of a counter that may only overestimate.
\<close>

section \<open>Double hashing\<close>

text \<open>Two hashes of the value, from which the position for every hash function is derived.\<close>

definition sketch_hashes :: "heap \<Rightarrow> u32 \<Rightarrow> ubpf_map \<Rightarrow> u64 \<Rightarrow> u32 \<times> u32" where
  "sketch_hashes h nb m val =
     (if nb = 1 then (hashlittle h val (unat (value_size m)) 0, 0)
      else hashlittle2 h val (unat (value_size m)) 0 0)"

definition nth_hash :: "u32 \<Rightarrow> u32 \<Rightarrow> u32 \<Rightarrow> u32" where
  "nth_hash h1 h2 i = (if i = 0 then h1 else if i = 1 then h2 else h1 + i * h2)"

text \<open>The remainder by zero, which traps, is None.\<close>

definition hash_mod :: "u32 \<Rightarrow> u32 \<Rightarrow> u32 option" where
  "hash_mod hash d = (if d = 0 then None else Some (hash mod d))"

lemma sketch_hashes_cong:
  assumes "bytes_at h' val (unat (value_size m)) = bytes_at h val (unat (value_size m))"
  shows "sketch_hashes h' nb m val = sketch_hashes h nb m val"
  by (simp add: sketch_hashes_def hashlittle_eq hashlittle2_eq assms)

section \<open>Sets that only grow\<close>

text \<open>What a filter without false negatives promises, and what follows for a sequence of insertions.\<close>

locale growing_set =
  fixes ok :: "'s \<Rightarrow> bool" and add :: "'k \<Rightarrow> 's \<Rightarrow> 's" and query :: "'s \<Rightarrow> 'k \<Rightarrow> bool"
  assumes add_ok: "ok s \<Longrightarrow> ok (add k s)"
    and query_added: "ok s \<Longrightarrow> query (add k s) k"
    and query_mono: "ok s \<Longrightarrow> query s k \<Longrightarrow> query (add k' s) k"
begin

lemma fold_mono: "ok s \<Longrightarrow> query s k \<Longrightarrow> query (fold add ks s) k"
  by (induction ks arbitrary: s) (auto intro: add_ok query_mono)

lemma added_found: "ok s \<Longrightarrow> k \<in> set ks \<Longrightarrow> query (fold add ks s) k"
proof (induction ks arbitrary: s)
  case (Cons k' ks)
  then show ?case by (cases "k = k'") (auto intro: add_ok fold_mono query_added)
qed simp

end

section \<open>Counters that never underestimate\<close>

text \<open>\<open>ok n s\<close>: the sketch has room for the counts of \<open>n\<close> additions; up to \<open>cap\<close> of them fit.\<close>

locale count_sketch =
  fixes ok :: "nat \<Rightarrow> 's \<Rightarrow> bool" and add :: "'k \<Rightarrow> 's \<Rightarrow> 's" and est :: "'s \<Rightarrow> 'k \<Rightarrow> nat" and cap :: nat
  assumes ok_step: "ok n s \<Longrightarrow> n < cap \<Longrightarrow> ok (Suc n) (add k s)"
    and est_added: "ok n s \<Longrightarrow> n < cap \<Longrightarrow> Suc (est s k) \<le> est (add k s) k"
    and est_other: "ok n s \<Longrightarrow> n < cap \<Longrightarrow> est s k \<le> est (add k' s) k"
begin

lemma never_underestimates:
  "ok n s \<Longrightarrow> n + length ks \<le> cap \<Longrightarrow> est s k + count_list ks k \<le> est (fold add ks s) k"
proof (induction ks arbitrary: n s)
  case (Cons k' ks)
  then have n: "n < cap" by simp
  have "est (add k' s) k + count_list ks k \<le> est (fold add ks (add k' s)) k"
    using Cons.IH [OF ok_step [OF Cons.prems(1) n]] Cons.prems(2) by simp
  then show ?case
    using est_added [OF Cons.prems(1) n, of k] est_other [OF Cons.prems(1) n, of k k'] by (cases "k = k'") auto
qed simp

end

end
