(* ===== verification/Ubpf_Bf.thy ===== *)
theory Ubpf_Bf
  imports Ubpf_Sketch
begin

text \<open>
  The Bloom filter of \<^verbatim>\<open>ubpf_bf.c\<close>, on byte memory: \<open>bf\<close> is the address of the filter, whose structure has the
  number of hash functions, the two results a lookup points to, and then the bits.  A remainder by zero
  is None.
\<close>

section \<open>Operations\<close>

definition bf_nb_hash_functions :: "heap \<Rightarrow> u64 \<Rightarrow> u32" where
  "bf_nb_hash_functions h bf = ucast (load_le 4 h bf)"

definition bf_ret_true :: "u64 \<Rightarrow> u64" where
  "bf_ret_true bf = bf + 4"

definition bf_ret_false :: "u64 \<Rightarrow> u64" where
  "bf_ret_false bf = bf + 8"

definition bf_bits :: "u64 \<Rightarrow> u64" where
  "bf_bits bf = bf + 12"

definition bf_nb_bytes :: "ubpf_map_def \<Rightarrow> u32" where
  "bf_nb_bytes d = def_max_entries d div 8"

text \<open>The number of bytes the filter is allocated with: the structure, the bits and three integers.\<close>

definition bf_alloc :: "ubpf_map_def \<Rightarrow> u64" where
  "bf_alloc d = 12 + ucast (bf_nb_bytes d) + 4 * 3"

definition ubpf_bf_create :: "ubpf_map_def \<Rightarrow> u64 \<Rightarrow> heap \<Rightarrow> heap" where
  "ubpf_bf_create d bf h =
     (let h = store_le 4 h bf (ucast (def_nb_hash_functions d));
          h = store_le 4 h (bf_ret_true bf) 1;
          h = store_le 4 h (bf_ret_false bf) 0
      in write_bytes (bf_bits bf) (replicate (unat (bf_nb_bytes d)) 0) h)"

definition bf_hash :: "ubpf_map \<Rightarrow> u32 \<Rightarrow> u32 \<Rightarrow> u32 \<Rightarrow> u32 option" where
  "bf_hash m h1 h2 i = hash_mod (nth_hash h1 h2 i) (max_entries m * 8)"

definition bf_byte :: "u64 \<Rightarrow> u32 \<Rightarrow> u64" where
  "bf_byte bf hash = bf_bits bf + ucast (hash div 8)"

definition bf_mask :: "u32 \<Rightarrow> u8" where
  "bf_mask hash = push_bit (unat (hash mod 8)) 1"

function bf_lookup_loop :: "heap \<Rightarrow> ubpf_map \<Rightarrow> u64 \<Rightarrow> u32 \<Rightarrow> u32 \<Rightarrow> u32 \<Rightarrow> u64 option" where
  "bf_lookup_loop h m bf h1 h2 i =
     (if i < bf_nb_hash_functions h bf
      then case bf_hash m h1 h2 i of
        None \<Rightarrow> None
      | Some hash \<Rightarrow>
          if h (bf_byte bf hash) AND bf_mask hash = 0 then Some (bf_ret_false bf)
          else bf_lookup_loop h m bf h1 h2 (i + 1)
      else Some (bf_ret_true bf))"
  by pat_completeness auto
termination
proof (relation "measure (\<lambda>(h, m, bf, h1, h2, i). 2 ^ 32 - unat i)")
  fix h and m :: ubpf_map and bf and h1 h2 i x2 :: u32
  assume "i < bf_nb_hash_functions h bf"
  then show "((h, m, bf, h1, h2, i + 1), h, m, bf, h1, h2, i) \<in> measure (\<lambda>(h, m, bf, h1, h2, i). 2 ^ 32 - unat i)"
    using unat_Suc_lt [of i "bf_nb_hash_functions h bf"] unsigned_less [of i, where 'a = nat] by simp
qed simp

function bf_add_loop :: "ubpf_map \<Rightarrow> u64 \<Rightarrow> u32 \<Rightarrow> u32 \<Rightarrow> u32 \<Rightarrow> heap \<Rightarrow> heap option" where
  "bf_add_loop m bf h1 h2 i h =
     (if i < bf_nb_hash_functions h bf
      then case bf_hash m h1 h2 i of
        None \<Rightarrow> None
      | Some hash \<Rightarrow>
          bf_add_loop m bf h1 h2 (i + 1) (h(bf_byte bf hash := h (bf_byte bf hash) OR bf_mask hash))
      else Some h)"
  by pat_completeness auto
termination
proof (relation "measure (\<lambda>(m, bf, h1, h2, i, h). 2 ^ 32 - unat i)")
  fix m :: ubpf_map and bf h and h1 h2 i x2 :: u32
  assume "i < bf_nb_hash_functions h bf"
  then show "((m, bf, h1, h2, i + 1, h(bf_byte bf x2 := h (bf_byte bf x2) OR bf_mask x2)), m, bf, h1, h2, i, h)
      \<in> measure (\<lambda>(m, bf, h1, h2, i, h). 2 ^ 32 - unat i)"
    using unat_Suc_lt [of i "bf_nb_hash_functions h bf"] unsigned_less [of i, where 'a = nat] by simp
qed simp

declare bf_lookup_loop.simps [simp del] bf_add_loop.simps [simp del]

definition ubpf_bf_lookup :: "heap \<Rightarrow> ubpf_map \<Rightarrow> u64 \<Rightarrow> u64 \<Rightarrow> u64 option" where
  "ubpf_bf_lookup h m bf val =
     (let (h1, h2) = sketch_hashes h (bf_nb_hash_functions h bf) m val in bf_lookup_loop h m bf h1 h2 0)"

definition ubpf_bf_add :: "ubpf_map \<Rightarrow> u64 \<Rightarrow> u64 \<Rightarrow> heap \<Rightarrow> (int \<times> heap) option" where
  "ubpf_bf_add m bf val h =
     (let (h1, h2) = sketch_hashes h (bf_nb_hash_functions h bf) m val in
      map_option (Pair 0) (bf_add_loop m bf h1 h2 0 h))"

section \<open>Bits of the filter\<close>

definition bit_set :: "heap \<Rightarrow> u64 \<Rightarrow> u32 \<Rightarrow> bool" where
  "bit_set h bf hash \<longleftrightarrow> bit (h (bf_byte bf hash)) (unat (hash mod 8))"

text \<open>The bits lie behind the header of the filter and do not reach the end of the address space.\<close>

definition bf_fits :: "ubpf_map \<Rightarrow> u64 \<Rightarrow> bool" where
  "bf_fits m bf \<longleftrightarrow> max_entries m * 8 \<noteq> 0 \<and> unat bf + 12 + unat ((max_entries m * 8) div 8) \<le> 2 ^ 64"

definition bf_region :: "ubpf_map \<Rightarrow> u64 \<Rightarrow> u64 set" where
  "bf_region m bf = {x. unat bf + 12 \<le> unat x \<and> unat x < unat bf + 12 + unat ((max_entries m * 8) div 8)}"

lemma bit_bf_mask: "bit (bf_mask hash) i \<longleftrightarrow> i = unat (hash mod 8)"
proof -
  have "unat (hash mod 8) < 8" by (simp add: unat_mod)
  then show ?thesis by (auto simp: bf_mask_def bit_exp_iff)
qed

lemma and_mask_zero: "w AND bf_mask hash = 0 \<longleftrightarrow> \<not> bit w (unat (hash mod 8))"
proof
  assume "w AND bf_mask hash = 0"
  then have "\<not> bit (w AND bf_mask hash) (unat (hash mod 8))" by simp
  then show "\<not> bit w (unat (hash mod 8))" by (simp add: bit_and_iff bit_bf_mask)
next
  assume "\<not> bit w (unat (hash mod 8))"
  then show "w AND bf_mask hash = 0"
    by (intro bit_word_eqI) (auto simp: bit_and_iff bit_bf_mask)
qed

lemma bit_or_mask: "bit (w OR bf_mask hash) (unat (hash mod 8))"
  by (simp add: bit_or_iff bit_bf_mask)

lemma bf_hash_Some:
  assumes "max_entries m * 8 \<noteq> 0"
  shows "bf_hash m h1 h2 i = Some (nth_hash h1 h2 i mod (max_entries m * 8))"
  using assms by (simp add: bf_hash_def hash_mod_def)

lemma word_div_mono: "a \<le> b \<Longrightarrow> unat (a div (d :: u32)) \<le> unat (b div d)"
  by (simp add: unat_div word_le_nat_alt div_le_mono)

lemma bf_byte_region:
  assumes "bf_fits m bf" "bf_hash m h1 h2 i = Some p"
  shows "bf_byte bf p \<in> bf_region m bf"
proof -
  let ?d = "max_entries m * 8"
  have d: "?d \<noteq> 0" "unat bf + 12 + unat (?d div 8) \<le> 2 ^ 64" using assms(1) by (auto simp: bf_fits_def)
  have "p < ?d" using assms(2) d(1) by (simp add: bf_hash_Some word_mod_less_divisor word_gt_0) (metis word_mod_less_divisor word_gt_0)
  moreover have "unat ?d mod 8 = 0" by (simp add: unat_word_ariths mod_mod_cancel)
  ultimately have p: "unat (p div 8) < unat (?d div 8)" by (simp add: unat_div word_less_nat_alt) presburger
  then have "unat (bf_byte bf p) = unat bf + 12 + unat (p div 8)"
    using d(2) by (simp add: bf_byte_def bf_bits_def unat_word_ariths unat_ucast_u32)
  then show ?thesis using p by (simp add: bf_region_def)
qed

lemma nb_frame:
  assumes "bf_fits m bf" "\<And>x. x \<notin> bf_region m bf \<Longrightarrow> h' x = h x"
  shows "bf_nb_hash_functions h' bf = bf_nb_hash_functions h bf"
proof -
  have "h' (bf + of_nat i) = h (bf + of_nat i)" if "i < 4" for i
  proof (rule assms(2))
    have "unat (bf + of_nat i) = unat bf + i"
      using that assms(1) by (simp add: bf_fits_def unat_word_ariths unat_of_nat)
    then show "bf + of_nat i \<notin> bf_region m bf" using that by (simp add: bf_region_def)
  qed
  then have "map (\<lambda>i. h' (bf + of_nat i)) [0..<4] = map (\<lambda>i. h (bf + of_nat i)) [0..<4]" by (intro map_cong) auto
  then show ?thesis by (simp only: bf_nb_hash_functions_def load_le_bytes)
qed

section \<open>The loops\<close>

abbreviation bf_position :: "ubpf_map \<Rightarrow> u32 \<Rightarrow> u32 \<Rightarrow> u32 \<Rightarrow> u32" where
  "bf_position m h1 h2 i \<equiv> nth_hash h1 h2 i mod (max_entries m * 8)"

definition all_set :: "heap \<Rightarrow> ubpf_map \<Rightarrow> u64 \<Rightarrow> u32 \<Rightarrow> u32 \<Rightarrow> u32 \<Rightarrow> bool" where
  "all_set h m bf h1 h2 i \<longleftrightarrow>
     (\<forall>j. i \<le> j \<and> j < bf_nb_hash_functions h bf \<longrightarrow> bit_set h bf (bf_position m h1 h2 j))"

lemma all_set_step:
  assumes "i < bf_nb_hash_functions h bf"
  shows "all_set h m bf h1 h2 i \<longleftrightarrow> bit_set h bf (bf_position m h1 h2 i) \<and> all_set h m bf h1 h2 (i + 1)"
proof -
  have s: "unat (i + 1) = Suc (unat i)" by (rule unat_Suc_lt [OF assms])
  have "i \<le> j \<longleftrightarrow> i = j \<or> i + 1 \<le> j" for j
    by (auto simp: word_le_nat_alt s) (metis le_antisym not_less_eq_eq unsigned_word_eqI)
  then show ?thesis unfolding all_set_def using assms by auto
qed

lemma lookup_loop_exact:
  assumes "max_entries m * 8 \<noteq> 0"
  shows "bf_lookup_loop h m bf h1 h2 i =
    Some (if all_set h m bf h1 h2 i then bf_ret_true bf else bf_ret_false bf)"
  using assms
proof (induction h m bf h1 h2 i rule: bf_lookup_loop.induct)
  case (1 h m bf h1 h2 i)
  show ?case
  proof (cases "i < bf_nb_hash_functions h bf")
    case True
    then show ?thesis
      using 1 all_set_step [OF True, of m h1 h2]
      by (subst bf_lookup_loop.simps) (simp add: bf_hash_Some and_mask_zero bit_set_def)
  next
    case False
    then show ?thesis by (subst bf_lookup_loop.simps) (auto simp: all_set_def)
  qed
qed

lemma bit_set_or: "bit_set h bf p \<Longrightarrow> bit_set (h(a := h a OR w)) bf p"
  by (auto simp: bit_set_def bit_or_iff)

lemma add_loop_exact:
  assumes "bf_fits m bf"
  shows "\<exists>h'. bf_add_loop m bf h1 h2 i h = Some h' \<and> all_set h' m bf h1 h2 i \<and>
    (\<forall>p. bit_set h bf p \<longrightarrow> bit_set h' bf p) \<and> (\<forall>x. x \<notin> bf_region m bf \<longrightarrow> h' x = h x)"
  using assms
proof (induction m bf h1 h2 i h rule: bf_add_loop.induct)
  case (1 m bf h1 h2 i h)
  note fits = \<open>bf_fits m bf\<close>
  have d: "max_entries m * 8 \<noteq> 0" using fits by (simp add: bf_fits_def)
  show ?case
  proof (cases "i < bf_nb_hash_functions h bf")
    case True
    let ?p = "bf_position m h1 h2 i"
    define g where "g = h(bf_byte bf ?p := h (bf_byte bf ?p) OR bf_mask ?p)"
    have p: "bf_hash m h1 h2 i = Some ?p" by (rule bf_hash_Some [OF d])
    obtain h' where h': "bf_add_loop m bf h1 h2 (i + 1) g = Some h'" "all_set h' m bf h1 h2 (i + 1)"
      "\<forall>p. bit_set g bf p \<longrightarrow> bit_set h' bf p" "\<forall>x. x \<notin> bf_region m bf \<longrightarrow> h' x = g x"
      using 1 True p g_def by blast
    have same: "h' x = h x" if "x \<notin> bf_region m bf" for x
      using h'(4) that bf_byte_region [OF fits p] by (auto simp: g_def)
    have "bit_set g bf ?p" by (simp add: g_def bit_set_def bit_or_mask)
    then have "bit_set h' bf ?p" using h'(3) by blast
    moreover have "i < bf_nb_hash_functions h' bf" using True nb_frame [OF fits, of h' h] same by simp
    ultimately have "all_set h' m bf h1 h2 i" using all_set_step h'(2) by blast
    moreover have "\<forall>p. bit_set h bf p \<longrightarrow> bit_set h' bf p" using h'(3) bit_set_or unfolding g_def by blast
    moreover have "bf_add_loop m bf h1 h2 i h = Some h'"
      using True p h'(1) by (subst bf_add_loop.simps) (simp add: g_def)
    ultimately show ?thesis using same by blast
  next
    case False
    then have "bf_add_loop m bf h1 h2 i h = Some h" by (simp add: bf_add_loop.simps)
    moreover have "all_set h m bf h1 h2 i" using False by (auto simp: all_set_def)
    ultimately show ?thesis by blast
  qed
qed

definition bf_insert :: "ubpf_map \<Rightarrow> u64 \<Rightarrow> u32 \<times> u32 \<Rightarrow> heap \<Rightarrow> heap" where
  "bf_insert m bf hs h = the (bf_add_loop m bf (fst hs) (snd hs) 0 h)"

definition bf_member :: "ubpf_map \<Rightarrow> u64 \<Rightarrow> heap \<Rightarrow> u32 \<times> u32 \<Rightarrow> bool" where
  "bf_member m bf h hs \<longleftrightarrow> bf_lookup_loop h m bf (fst hs) (snd hs) 0 = Some (bf_ret_true bf)"

lemma ret_distinct: "bf_ret_true bf \<noteq> bf_ret_false bf"
  by (simp add: bf_ret_true_def bf_ret_false_def)

lemma bf_member_all_set: "bf_fits m bf \<Longrightarrow> bf_member m bf h hs \<longleftrightarrow> all_set h m bf (fst hs) (snd hs) 0"
  using ret_distinct [of bf] by (simp add: bf_member_def lookup_loop_exact bf_fits_def)

lemma bf_insert_props:
  assumes "bf_fits m bf"
  shows "bf_add_loop m bf (fst hs) (snd hs) 0 h = Some (bf_insert m bf hs h)"
    and "bf_member m bf (bf_insert m bf hs h) hs"
    and "bf_member m bf h hs' \<Longrightarrow> bf_member m bf (bf_insert m bf hs h) hs'"
    and "x \<notin> bf_region m bf \<Longrightarrow> bf_insert m bf hs h x = h x"
proof -
  obtain h' where h': "bf_add_loop m bf (fst hs) (snd hs) 0 h = Some h'" "all_set h' m bf (fst hs) (snd hs) 0"
    "\<forall>p. bit_set h bf p \<longrightarrow> bit_set h' bf p" "\<forall>x. x \<notin> bf_region m bf \<longrightarrow> h' x = h x"
    using add_loop_exact [OF assms] by blast
  then have eq: "bf_insert m bf hs h = h'" by (simp add: bf_insert_def)
  show "bf_add_loop m bf (fst hs) (snd hs) 0 h = Some (bf_insert m bf hs h)" using h'(1) eq by simp
  show "bf_member m bf (bf_insert m bf hs h) hs" using h'(2) eq assms by (simp add: bf_member_all_set)
  show "x \<notin> bf_region m bf \<Longrightarrow> bf_insert m bf hs h x = h x" using h'(4) eq by simp
  have "bf_nb_hash_functions h' bf = bf_nb_hash_functions h bf" using nb_frame [OF assms] h'(4) by blast
  then show "bf_member m bf h hs' \<Longrightarrow> bf_member m bf (bf_insert m bf hs h) hs'"
    using h'(3) eq assms by (simp add: bf_member_all_set all_set_def)
qed

interpretation bloom: growing_set "\<lambda>_. bf_fits m bf" "bf_insert m bf" "bf_member m bf" for m bf
  by unfold_locales (auto intro: bf_insert_props)

section \<open>Values in memory\<close>

definition val_apart :: "ubpf_map \<Rightarrow> u64 \<Rightarrow> u64 \<Rightarrow> bool" where
  "val_apart m bf val \<longleftrightarrow> touched val (unat (value_size m)) \<inter> bf_region m bf = {}"

definition bf_hashes :: "ubpf_map \<Rightarrow> u64 \<Rightarrow> heap \<Rightarrow> u64 \<Rightarrow> u32 \<times> u32" where
  "bf_hashes m bf h val = sketch_hashes h (bf_nb_hash_functions h bf) m val"

lemma bf_hashes_frame:
  assumes "bf_fits m bf" "val_apart m bf val" "\<And>x. x \<notin> bf_region m bf \<Longrightarrow> h' x = h x"
  shows "bf_hashes m bf h' val = bf_hashes m bf h val"
proof -
  have bytes: "bytes_at h' val (unat (value_size m)) = bytes_at h val (unat (value_size m))"
    using assms(2,3) by (intro bytes_at_cong) (auto simp: val_apart_def)
  have nb: "bf_nb_hash_functions h' bf = bf_nb_hash_functions h bf"
    by (rule nb_frame [OF assms(1)]) (rule assms(3))
  show ?thesis by (simp only: bf_hashes_def nb sketch_hashes_cong [OF bytes])
qed

lemma add_is_insert: "bf_fits m bf \<Longrightarrow> ubpf_bf_add m bf val h = Some (0, bf_insert m bf (bf_hashes m bf h val) h)"
  using bf_insert_props(1) [of m bf "bf_hashes m bf h val" h]
  by (simp add: ubpf_bf_add_def bf_hashes_def split_def)

lemma lookup_is_member:
  "bf_fits m bf \<Longrightarrow> ubpf_bf_lookup h m bf val =
     Some (if bf_member m bf h (bf_hashes m bf h val) then bf_ret_true bf else bf_ret_false bf)"
  by (simp add: ubpf_bf_lookup_def bf_hashes_def split_def bf_member_all_set lookup_loop_exact bf_fits_def)

text \<open>A sequence of calls that add values.\<close>

fun bf_add_all :: "ubpf_map \<Rightarrow> u64 \<Rightarrow> u64 list \<Rightarrow> heap \<Rightarrow> heap option" where
  "bf_add_all m bf [] h = Some h"
| "bf_add_all m bf (v # vs) h =
     (case ubpf_bf_add m bf v h of None \<Rightarrow> None | Some (_, h') \<Rightarrow> bf_add_all m bf vs h')"

lemma fold_insert_frame:
  "bf_fits m bf \<Longrightarrow> x \<notin> bf_region m bf \<Longrightarrow> fold (bf_insert m bf) hs h x = h x"
  by (induction hs arbitrary: h) (simp_all add: bf_insert_props(4))

lemma bf_add_all_fold:
  assumes "bf_fits m bf" "\<forall>v \<in> set vs. val_apart m bf v"
  shows "bf_add_all m bf vs h = Some (fold (bf_insert m bf) (map (bf_hashes m bf h) vs) h)"
  using assms(2)
proof (induction vs arbitrary: h)
  case (Cons v vs)
  let ?g = "bf_insert m bf (bf_hashes m bf h v) h"
  have "map (bf_hashes m bf ?g) vs = map (bf_hashes m bf h) vs"
    using bf_hashes_frame [OF assms(1), of _ ?g h] bf_insert_props(4) [OF assms(1)] Cons.prems by auto
  then show ?case using Cons by (simp add: add_is_insert [OF assms(1)] del: map_eq_conv)
qed simp

text \<open>The filter indexes eight times as many bits as it allocates: with 64 entries, adding a value whose
  hash leaves the remainder 511 writes at offset 75 of an object of 32 bytes.\<close>

lemma bf_write_past_allocation:
  assumes "def_max_entries d = 64" "max_entries m = 64" "bf_nb_hash_functions h bf = 1" "unat bf + 100 \<le> 2 ^ 64"
  shows "bf_alloc d = 32 \<and> bf_insert m bf (511, 0) h (bf + 75) = h (bf + 75) OR 128"
proof -
  have fits: "bf_fits m bf" using assms(2,4) by (simp add: bf_fits_def)
  have p: "bf_hash m 511 0 0 = Some 511" by (simp add: bf_hash_def hash_mod_def nth_hash_def assms(2))
  have b: "bf_byte bf 511 = bf + 75" "bf_mask 511 = 128" by (simp_all add: bf_byte_def bf_bits_def bf_mask_def)
  let ?g = "h(bf + 75 := h (bf + 75) OR 128)"
  have "bf + 75 \<in> bf_region m bf" using bf_byte_region [OF fits p] by (simp add: b)
  then have "bf_nb_hash_functions ?g bf = bf_nb_hash_functions h bf" by (intro nb_frame [OF fits]) auto
  then have "bf_nb_hash_functions ?g bf = 1" using assms(3) by simp
  then have "bf_add_loop m bf 511 0 0 h = Some ?g"
    using assms(3) by (subst bf_add_loop.simps, simp add: p b, subst bf_add_loop.simps, simp)
  then show ?thesis by (simp add: bf_insert_def bf_alloc_def bf_nb_bytes_def assms(1))
qed

section \<open>Properties\<close>


definition sample_bf :: ubpf_map where
  "sample_bf = \<lparr>map_type = 2, key_size = 0, value_size = 4, max_entries = 64\<rparr>"


end
