(* ===== verification/Ubpf_Countmin.thy ===== *)
theory Ubpf_Countmin
  imports Ubpf_Sketch
begin

text \<open>
  The count-min sketch of \<^verbatim>\<open>ubpf_countmin.c\<close>, on byte memory: \<open>cm\<close> is the address of the sketch, whose structure has
  the number of columns and rows, a pointer to the result of lookups, and then the counters.
\<close>

section \<open>Operations\<close>

definition cm_nb_columns :: "heap \<Rightarrow> u64 \<Rightarrow> u32" where
  "cm_nb_columns h cm = ucast (load_le 4 h cm)"

definition cm_nb_rows :: "heap \<Rightarrow> u64 \<Rightarrow> u32" where
  "cm_nb_rows h cm = ucast (load_le 4 h (cm + 4))"

definition cm_current_count :: "heap \<Rightarrow> u64 \<Rightarrow> u64" where
  "cm_current_count h cm = load_le 8 h (cm + 8)"

definition cm_counter_at :: "u64 \<Rightarrow> u32 \<Rightarrow> u64" where
  "cm_counter_at cm i = cm + 16 + 4 * ucast i"

definition read32 :: "heap \<Rightarrow> u64 \<Rightarrow> u32" where
  "read32 h a = ucast (load_le 4 h a)"

definition write32 :: "u64 \<Rightarrow> u32 \<Rightarrow> heap \<Rightarrow> heap" where
  "write32 a v h = store_le 4 h a (ucast v)"

text \<open>The size in bytes of the counters, computed as an unsigned long and converted to an int; the two
  addresses are those \<^verbatim>\<open>xmalloc\<close> and \<^verbatim>\<open>xcalloc\<close> return.\<close>

definition size_bitmap :: "ubpf_map_def \<Rightarrow> u32" where
  "size_bitmap d = ucast (4 * ucast (def_nb_hash_functions d) * ucast (def_max_entries d) :: u64)"

definition ubpf_countmin_create :: "ubpf_map_def \<Rightarrow> u64 \<Rightarrow> u64 \<Rightarrow> heap \<Rightarrow> heap" where
  "ubpf_countmin_create d cm cur h =
     (let h = write_bytes cur (replicate (unat (def_value_size d)) 0) h;
          h = store_le 8 h (cm + 8) cur;
          h = write32 cm (def_nb_hash_functions d) h;
          h = write32 (cm + 4) (def_max_entries d) h
      in write_bytes (cm + 16) (replicate (unat (scast (size_bitmap d) :: u64)) 0) h)"

definition cm_index :: "heap \<Rightarrow> u64 \<Rightarrow> u32 \<Rightarrow> u32 \<Rightarrow> u32 \<Rightarrow> u32 option" where
  "cm_index h cm h1 h2 i =
     (case hash_mod (nth_hash h1 h2 i) (cm_nb_rows h cm) of
        None \<Rightarrow> None | Some hash \<Rightarrow> Some (i * cm_nb_columns h cm + hash))"

text \<open>The running minimum is kept in memory, at \<open>count\<close>.\<close>

function cm_lookup_loop :: "u64 \<Rightarrow> u64 \<Rightarrow> u32 \<Rightarrow> u32 \<Rightarrow> u32 \<Rightarrow> heap \<Rightarrow> heap option" where
  "cm_lookup_loop cm count h1 h2 i h =
     (if i < cm_nb_columns h cm
      then case cm_index h cm h1 h2 i of
        None \<Rightarrow> None
      | Some idx \<Rightarrow>
          let a = read32 h count; b = read32 h (cm_counter_at cm idx) in
          cm_lookup_loop cm count h1 h2 (i + 1) (write32 count (if a < b then a else b) h)
      else Some h)"
  by pat_completeness auto
termination
proof (relation "measure (\<lambda>(cm, count, h1, h2, i, h). 2 ^ 32 - unat i)")
  fix cm count :: u64 and h1 h2 i x2 :: u32 and h :: heap and x xa
  assume "i < cm_nb_columns h cm"
  then show "((cm, count, h1, h2, i + 1, write32 count (if x < xa then x else xa) h), cm, count, h1, h2, i, h)
      \<in> measure (\<lambda>(cm, count, h1, h2, i, h). 2 ^ 32 - unat i)"
    using unat_Suc_lt [of i "cm_nb_columns h cm"] unsigned_less [of i, where 'a = nat] by simp
qed simp

function cm_add_loop :: "u64 \<Rightarrow> u32 \<Rightarrow> u32 \<Rightarrow> u32 \<Rightarrow> heap \<Rightarrow> heap option" where
  "cm_add_loop cm h1 h2 i h =
     (if i < cm_nb_columns h cm
      then case cm_index h cm h1 h2 i of
        None \<Rightarrow> None
      | Some idx \<Rightarrow>
          let a = cm_counter_at cm idx in cm_add_loop cm h1 h2 (i + 1) (write32 a (read32 h a + 1) h)
      else Some h)"
  by pat_completeness auto
termination
proof (relation "measure (\<lambda>(cm, h1, h2, i, h). 2 ^ 32 - unat i)")
  fix cm :: u64 and h1 h2 i x2 :: u32 and h :: heap and x
  assume "i < cm_nb_columns h cm"
  then show "((cm, h1, h2, i + 1, write32 x (read32 h x + 1) h), cm, h1, h2, i, h)
      \<in> measure (\<lambda>(cm, h1, h2, i, h). 2 ^ 32 - unat i)"
    using unat_Suc_lt [of i "cm_nb_columns h cm"] unsigned_less [of i, where 'a = nat] by simp
qed simp

declare cm_lookup_loop.simps [simp del] cm_add_loop.simps [simp del]

definition ubpf_countmin_lookup :: "ubpf_map \<Rightarrow> u64 \<Rightarrow> u64 \<Rightarrow> heap \<Rightarrow> (u64 \<times> heap) option" where
  "ubpf_countmin_lookup m cm val h =
     (let count = cm_current_count h cm;
          h = write32 count (- 1) h;
          (h1, h2) = sketch_hashes h (cm_nb_columns h cm) m val
      in map_option (Pair count) (cm_lookup_loop cm count h1 h2 0 h))"

definition ubpf_countmin_add :: "ubpf_map \<Rightarrow> u64 \<Rightarrow> u64 \<Rightarrow> heap \<Rightarrow> (int \<times> heap) option" where
  "ubpf_countmin_add m cm val h =
     (let (h1, h2) = sketch_hashes h (cm_nb_columns h cm) m val in
      map_option (Pair 0) (cm_add_loop cm h1 h2 0 h))"

section \<open>Counters\<close>

lemma read_write_same: "read32 (write32 a v h) a = v"
proof -
  have "load_le 4 (store_le 4 h a (ucast v)) a = ucast v"
    by (simp add: load_le_store_le) (rule bit_word_eqI, auto simp: bit_take_bit_iff bit_ucast_iff dest: bit_imp_le_length)
  moreover have "ucast (ucast v :: u64) = v" by (rule bit_word_eqI) (auto simp: bit_ucast_iff)
  ultimately show ?thesis by (simp add: read32_def write32_def)
qed

lemma write32_other: "x \<notin> touched a 4 \<Longrightarrow> write32 a v h x = h x"
  by (simp add: write32_def store_le_other)

lemma read32_cong: "(\<And>x. x \<in> touched a 4 \<Longrightarrow> h' x = h x) \<Longrightarrow> read32 h' a = read32 h a"
  unfolding read32_def load_le_bytes by (intro arg_cong [where f = ucast] arg_cong [where f = of_le_bytes] map_cong) (auto simp: touched_def)

lemma read_write_other: "touched a 4 \<inter> touched b 4 = {} \<Longrightarrow> read32 (write32 a v h) b = read32 h b"
  by (rule read32_cong) (blast intro: write32_other)

text \<open>The structure and every counter a 32-bit index reaches, below the end of the address space.\<close>

definition cm_fits :: "u64 \<Rightarrow> bool" where
  "cm_fits cm \<longleftrightarrow> unat cm + 16 + 4 * 2 ^ 32 \<le> 2 ^ 64"

definition cm_counters :: "u64 \<Rightarrow> u64 set" where
  "cm_counters cm = {x. unat cm + 16 \<le> unat x \<and> unat x < unat cm + 16 + 4 * 2 ^ 32}"

definition cm_region :: "u64 \<Rightarrow> u64 set" where
  "cm_region cm = {x. unat cm \<le> unat x \<and> unat x < unat cm + 16 + 4 * 2 ^ 32}"

definition counter :: "heap \<Rightarrow> u64 \<Rightarrow> u32 \<Rightarrow> u32" where
  "counter h cm j = read32 h (cm_counter_at cm j)"

lemma touched_counter:
  assumes "cm_fits cm"
  shows "x \<in> touched (cm_counter_at cm j) 4 \<longleftrightarrow>
    unat cm + 16 + 4 * unat j \<le> unat x \<and> unat x < unat cm + 16 + 4 * unat j + 4"
proof -
  have j: "unat j < 2 ^ 32" using unsigned_less [of j, where 'a = nat] by simp
  have "unat (cm_counter_at cm j) = unat cm + 16 + 4 * unat j"
    using assms j by (simp add: cm_fits_def cm_counter_at_def unat_word_ariths unat_ucast_u32)
  then show ?thesis using touched_interval [of "cm_counter_at cm j" 4 x] assms j by (simp add: cm_fits_def)
qed

lemma counter_in_counters: "cm_fits cm \<Longrightarrow> touched (cm_counter_at cm j) 4 \<subseteq> cm_counters cm"
proof
  fix x
  assume fits: "cm_fits cm" and "x \<in> touched (cm_counter_at cm j) 4"
  moreover have "unat j < 2 ^ 32" using unsigned_less [of j, where 'a = nat] by simp
  ultimately show "x \<in> cm_counters cm" unfolding touched_counter [OF fits] cm_counters_def by simp
qed

lemma counters_disjoint:
  assumes "cm_fits cm" "i \<noteq> j"
  shows "touched (cm_counter_at cm i) 4 \<inter> touched (cm_counter_at cm j) 4 = {}"
proof -
  have "unat i \<noteq> unat j" using assms(2) unsigned_word_eqI by blast
  then show ?thesis using touched_counter [OF assms(1)] by (auto simp: set_eq_iff)
qed

lemma counter_write:
  assumes "cm_fits cm"
  shows "counter (write32 (cm_counter_at cm i) v h) cm j = (if i = j then v else counter h cm j)"
  using read_write_other [OF counters_disjoint [OF assms], of i j v h]
  by (simp add: counter_def read_write_same)

definition header :: "heap \<Rightarrow> u64 \<Rightarrow> u32 \<times> u32" where
  "header h cm = (cm_nb_columns h cm, cm_nb_rows h cm)"

lemma header_cong:
  assumes "\<And>i. i < 8 \<Longrightarrow> h' (cm + of_nat i) = h (cm + of_nat i)"
  shows "header h' cm = header h cm"
proof -
  have "read32 h' cm = read32 h cm"
    by (rule read32_cong) (use assms in \<open>auto simp: touched_def\<close>)
  moreover have "read32 h' (cm + 4) = read32 h (cm + 4)"
  proof (rule read32_cong)
    fix x
    assume "x \<in> touched (cm + 4) 4"
    then obtain i where i: "i < 4" "x = cm + of_nat (4 + i)" by (auto simp: touched_def add.assoc)
    show "h' x = h x" unfolding i(2) by (rule assms) (use i(1) in simp)
  qed
  ultimately show ?thesis by (simp add: header_def cm_nb_columns_def cm_nb_rows_def read32_def)
qed

lemma header_addr: "cm_fits cm \<Longrightarrow> i < 8 \<Longrightarrow> cm + of_nat i \<in> cm_region cm - cm_counters cm"
  by (simp add: cm_fits_def cm_region_def cm_counters_def unat_word_ariths unat_of_nat)

lemma header_frame:
  assumes "cm_fits cm" "\<And>x. x \<notin> cm_counters cm \<Longrightarrow> h' x = h x"
  shows "header h' cm = header h cm"
  using header_addr [OF assms(1)] assms(2) by (intro header_cong) blast

section \<open>The loops\<close>

definition cm_pos :: "u32 \<Rightarrow> u32 \<Rightarrow> u32 \<times> u32 \<Rightarrow> nat \<Rightarrow> u32" where
  "cm_pos c r hs k = of_nat k * c + nth_hash (fst hs) (snd hs) (of_nat k) mod r"

lemma cm_index_pos:
  assumes "header h cm = (c, r)" "r \<noteq> 0"
  shows "cm_index h cm h1 h2 i = Some (cm_pos c r (h1, h2) (unat i))"
  using assms by (simp add: cm_index_def hash_mod_def cm_pos_def header_def)

lemma upt_step: "i < c \<Longrightarrow> [unat i..<unat c] = unat i # [unat (i + 1)..<unat (c :: u32)]"
  using unat_Suc_lt [of i c] by (simp add: upt_conv_Cons word_less_nat_alt)

text \<open>Adding a value increments every counter once for each of the hash functions that select it.\<close>

lemma add_loop_counts:
  assumes "cm_fits cm" "header h cm = (c, r)" "r \<noteq> 0"
  shows "\<exists>h'. cm_add_loop cm h1 h2 i h = Some h' \<and>
    (\<forall>j. counter h' cm j = counter h cm j + of_nat (length (filter (\<lambda>k. cm_pos c r (h1, h2) k = j) [unat i..<unat c]))) \<and>
    (\<forall>x. x \<notin> cm_counters cm \<longrightarrow> h' x = h x)"
  using assms
proof (induction cm h1 h2 i h rule: cm_add_loop.induct)
  case (1 cm h1 h2 i h)
  note fits = \<open>cm_fits cm\<close> and hd = \<open>header h cm = (c, r)\<close> and r = \<open>r \<noteq> 0\<close>
  have c: "cm_nb_columns h cm = c" using hd by (simp add: header_def)
  show ?case
  proof (cases "i < c")
    case True
    let ?p = "cm_pos c r (h1, h2) (unat i)"
    define g where "g = write32 (cm_counter_at cm ?p) (counter h cm ?p + 1) h"
    have idx: "cm_index h cm h1 h2 i = Some ?p" by (rule cm_index_pos [OF hd r])
    have frame: "g x = h x" if "x \<notin> cm_counters cm" for x
      unfolding g_def using that counter_in_counters [OF fits] by (intro write32_other) blast
    have hg: "header g cm = (c, r)" using header_frame [OF fits, of g h] frame hd by simp
    obtain h' where h': "cm_add_loop cm h1 h2 (i + 1) g = Some h'"
      "\<forall>j. counter h' cm j = counter g cm j + of_nat (length (filter (\<lambda>k. cm_pos c r (h1, h2) k = j) [unat (i + 1)..<unat c]))"
      "\<forall>x. x \<notin> cm_counters cm \<longrightarrow> h' x = g x"
      using 1(1) [of ?p "cm_counter_at cm ?p"] True c idx fits hg r by (auto simp: g_def counter_def)
    have "counter h' cm j = counter h cm j + of_nat (length (filter (\<lambda>k. cm_pos c r (h1, h2) k = j) [unat i..<unat c]))" for j
      using h'(2) counter_write [OF fits, of ?p _ h j] by (simp add: upt_step [OF True] g_def add.assoc)
    moreover have "cm_add_loop cm h1 h2 i h = Some h'"
      using True c idx h'(1) by (subst cm_add_loop.simps) (simp add: g_def counter_def Let_def)
    ultimately show ?thesis using h'(3) frame by auto
  next
    case False
    then have "cm_add_loop cm h1 h2 i h = Some h" using c by (simp add: cm_add_loop.simps)
    moreover have "unat c \<le> unat i" using False by (simp add: word_less_nat_alt)
    ultimately show ?thesis by simp
  qed
qed

text \<open>A lookup leaves the least counter of the value at \<open>count\<close>, which is apart from the sketch.\<close>

lemma lookup_loop_min:
  assumes "cm_fits cm" "header h cm = (c, r)" "r \<noteq> 0" "touched count 4 \<inter> cm_region cm = {}"
  shows "\<exists>h'. cm_lookup_loop cm count h1 h2 i h = Some h' \<and>
    read32 h' count = fold (\<lambda>k a. min a (counter h cm (cm_pos c r (h1, h2) k))) [unat i..<unat c] (read32 h count) \<and>
    (\<forall>x. x \<notin> touched count 4 \<longrightarrow> h' x = h x)"
  using assms
proof (induction cm count h1 h2 i h rule: cm_lookup_loop.induct)
  case (1 cm count h1 h2 i h)
  note fits = \<open>cm_fits cm\<close> and hd = \<open>header h cm = (c, r)\<close> and r = \<open>r \<noteq> 0\<close> and apart = \<open>touched count 4 \<inter> cm_region cm = {}\<close>
  have c: "cm_nb_columns h cm = c" using hd by (simp add: header_def)
  show ?case
  proof (cases "i < c")
    case True
    let ?p = "cm_pos c r (h1, h2) (unat i)"
    define g where "g = write32 count (if read32 h count < counter h cm ?p then read32 h count else counter h cm ?p) h"
    have idx: "cm_index h cm h1 h2 i = Some ?p" by (rule cm_index_pos [OF hd r])
    have frame: "g x = h x" if "x \<notin> touched count 4" for x unfolding g_def using that by (rule write32_other)
    have same: "g x = h x" if "x \<in> cm_region cm" for x using frame apart that by blast
    have ctr: "counter g cm j = counter h cm j" for j
      unfolding counter_def
      by (rule read32_cong) (use counter_in_counters [OF fits, of j] same in \<open>auto simp: cm_counters_def cm_region_def\<close>)
    have "header g cm = header h cm"
      using header_addr [OF fits] same by (intro header_cong) blast
    then have hg: "header g cm = (c, r)" using hd by simp
    obtain h' where h': "cm_lookup_loop cm count h1 h2 (i + 1) g = Some h'"
      "read32 h' count = fold (\<lambda>k a. min a (counter g cm (cm_pos c r (h1, h2) k))) [unat (i + 1)..<unat c] (read32 g count)"
      "\<forall>x. x \<notin> touched count 4 \<longrightarrow> h' x = g x"
      using 1(1) [of ?p "read32 h count" "counter h cm ?p"] True c idx fits hg r apart by (auto simp: g_def counter_def)
    have "read32 g count = min (read32 h count) (counter h cm ?p)"
      by (auto simp: g_def read_write_same min_def)
    then have "read32 h' count = fold (\<lambda>k a. min a (counter h cm (cm_pos c r (h1, h2) k))) [unat i..<unat c] (read32 h count)"
      using h'(2) by (simp add: upt_step [OF True] ctr)
    moreover have "cm_lookup_loop cm count h1 h2 i h = Some h'"
      using True c idx h'(1) [unfolded g_def counter_def]
      by (subst cm_lookup_loop.simps) (simp add: Let_def split del: if_split)
    ultimately show ?thesis using h'(3) frame by auto
  next
    case False
    then have "cm_lookup_loop cm count h1 h2 i h = Some h" using c by (simp add: cm_lookup_loop.simps)
    moreover have "unat c \<le> unat i" using False by (simp add: word_less_nat_alt)
    ultimately show ?thesis by simp
  qed
qed

section \<open>Estimates\<close>

definition cm_insert :: "u64 \<Rightarrow> u32 \<times> u32 \<Rightarrow> heap \<Rightarrow> heap" where
  "cm_insert cm hs h = the (cm_add_loop cm (fst hs) (snd hs) 0 h)"

definition cm_est :: "u64 \<Rightarrow> u32 \<Rightarrow> u32 \<Rightarrow> heap \<Rightarrow> u32 \<times> u32 \<Rightarrow> nat" where
  "cm_est cm c r h hs = Min ((\<lambda>k. unat (counter h cm (cm_pos c r hs k))) ` {..<unat c})"

definition cm_ok :: "u64 \<Rightarrow> u32 \<Rightarrow> u32 \<Rightarrow> nat \<Rightarrow> heap \<Rightarrow> bool" where
  "cm_ok cm c r n h \<longleftrightarrow> cm_fits cm \<and> header h cm = (c, r) \<and> c \<noteq> 0 \<and> r \<noteq> 0 \<and>
     (\<forall>j. unat (counter h cm j) \<le> n * unat c)"

definition cm_cap :: "u32 \<Rightarrow> nat" where
  "cm_cap c = (2 ^ 32 - 1) div unat c"

lemma cm_insert_counter:
  assumes ok: "cm_ok cm c r n h" and n: "n < cm_cap c"
  shows "cm_add_loop cm (fst hs) (snd hs) 0 h = Some (cm_insert cm hs h)"
    and "unat (counter (cm_insert cm hs h) cm j) =
      unat (counter h cm j) + length (filter (\<lambda>k. cm_pos c r hs k = j) [0..<unat c])"
    and "\<forall>x. x \<notin> cm_counters cm \<longrightarrow> cm_insert cm hs h x = h x"
    and "unat (counter (cm_insert cm hs h) cm j) \<le> Suc n * unat c"
proof -
  have f: "cm_fits cm" "header h cm = (c, r)" "r \<noteq> 0" using ok by (auto simp: cm_ok_def)
  obtain h' where h': "cm_add_loop cm (fst hs) (snd hs) 0 h = Some h'"
    "\<forall>j. counter h' cm j = counter h cm j + of_nat (length (filter (\<lambda>k. cm_pos c r hs k = j) [0..<unat c]))"
    "\<forall>x. x \<notin> cm_counters cm \<longrightarrow> h' x = h x"
    using add_loop_counts [OF f, of "fst hs" "snd hs" 0] by auto
  then have eq: "cm_insert cm hs h = h'" by (simp add: cm_insert_def)
  show "cm_add_loop cm (fst hs) (snd hs) 0 h = Some (cm_insert cm hs h)"
    and "\<forall>x. x \<notin> cm_counters cm \<longrightarrow> cm_insert cm hs h x = h x" using h' eq by simp_all
  let ?l = "length (filter (\<lambda>k. cm_pos c r hs k = j) [0..<unat c])"
  have "?l \<le> unat c" using length_filter_le [of _ "[0..<unat c]"] by simp
  moreover have "unat (counter h cm j) \<le> n * unat c" using ok by (simp add: cm_ok_def)
  ultimately have le: "unat (counter h cm j) + ?l \<le> Suc n * unat c" by simp
  also have "\<dots> \<le> cm_cap c * unat c" using n by (intro mult_le_mono1) simp
  also have "\<dots> \<le> 2 ^ 32 - 1" unfolding cm_cap_def by (rule div_times_less_eq_dividend)
  finally have "unat (counter h cm j) + ?l < 2 ^ 32" by simp
  then show new: "unat (counter (cm_insert cm hs h) cm j) = unat (counter h cm j) + ?l"
    using h'(2) eq by (simp add: unat_word_ariths unat_of_nat)
  show "unat (counter (cm_insert cm hs h) cm j) \<le> Suc n * unat c" unfolding new by (rule le)
qed

lemma hits_pos: "k < c \<Longrightarrow> 0 < length (filter (\<lambda>i. f i = f k) [0..<c])"
  by (metis (mono_tags, lifting) atLeastLessThan_iff filter_empty_conv le0 length_greater_0_conv set_upt)

interpretation countmin: count_sketch "cm_ok cm c r" "cm_insert cm" "cm_est cm c r" "cm_cap c" for cm c r
proof
  fix n h hs hs'
  assume ok: "cm_ok cm c r n h" and n: "n < cm_cap c"
  note ins = cm_insert_counter [OF ok n]
  have c: "0 < unat c" using ok by (simp add: cm_ok_def unat_gt_0)
  have "header (cm_insert cm hs h) cm = (c, r)"
    using header_frame [of cm "cm_insert cm hs h" h] ins(3) ok by (simp add: cm_ok_def)
  then show "cm_ok cm c r (Suc n) (cm_insert cm hs h)" using ok ins(4) by (simp add: cm_ok_def)
  have ge: "cm_est cm c r h hs \<le> unat (counter h cm (cm_pos c r hs k))" if "k < unat c" for k hs
    unfolding cm_est_def by (rule Min_le) (use that in auto)
  have intro: "m \<le> cm_est cm c r g hs" if "\<And>k. k < unat c \<Longrightarrow> m \<le> unat (counter g cm (cm_pos c r hs k))" for m g hs
    unfolding cm_est_def using c that by (subst Min_ge_iff) auto
  show "Suc (cm_est cm c r h hs) \<le> cm_est cm c r (cm_insert cm hs h) hs"
  proof (rule intro)
    fix k
    assume k: "k < unat c"
    show "Suc (cm_est cm c r h hs) \<le> unat (counter (cm_insert cm hs h) cm (cm_pos c r hs k))"
      using ge [OF k, of hs] hits_pos [OF k, of "cm_pos c r hs"] ins(2) [of hs "cm_pos c r hs k"] by linarith
  qed
  show "cm_est cm c r h hs \<le> cm_est cm c r (cm_insert cm hs' h) hs"
  proof (rule intro)
    fix k
    assume k: "k < unat c"
    show "cm_est cm c r h hs \<le> unat (counter (cm_insert cm hs' h) cm (cm_pos c r hs k))"
      using ge [OF k, of hs] ins(2) [of hs' "cm_pos c r hs k"] by linarith
  qed
qed

section \<open>Values in memory\<close>

definition cm_hashes :: "ubpf_map \<Rightarrow> u64 \<Rightarrow> heap \<Rightarrow> u64 \<Rightarrow> u32 \<times> u32" where
  "cm_hashes m cm h val = sketch_hashes h (cm_nb_columns h cm) m val"

definition cm_val_apart :: "ubpf_map \<Rightarrow> u64 \<Rightarrow> u64 \<Rightarrow> bool" where
  "cm_val_apart m cm val \<longleftrightarrow> touched val (unat (value_size m)) \<inter> cm_region cm = {}"

lemma cm_hashes_cong:
  assumes "header h' cm = header h cm" "\<And>x. x \<in> touched val (unat (value_size m)) \<Longrightarrow> h' x = h x"
  shows "cm_hashes m cm h' val = cm_hashes m cm h val"
proof -
  have bytes: "bytes_at h' val (unat (value_size m)) = bytes_at h val (unat (value_size m))"
    using assms(2) by (intro bytes_at_cong) auto
  have nb: "cm_nb_columns h' cm = cm_nb_columns h cm" using assms(1) by (simp add: header_def)
  show ?thesis by (simp only: cm_hashes_def nb sketch_hashes_cong [OF bytes])
qed

lemma cm_counters_region: "cm_counters cm \<subseteq> cm_region cm"
  by (auto simp: cm_counters_def cm_region_def)

lemma cm_val_out: "cm_val_apart m cm w \<Longrightarrow> x \<in> touched w (unat (value_size m)) \<Longrightarrow> x \<notin> cm_counters cm"
  using cm_counters_region [of cm] by (auto simp: cm_val_apart_def)

fun cm_add_all :: "ubpf_map \<Rightarrow> u64 \<Rightarrow> u64 list \<Rightarrow> heap \<Rightarrow> heap option" where
  "cm_add_all m cm [] h = Some h"
| "cm_add_all m cm (v # vs) h =
     (case ubpf_countmin_add m cm v h of None \<Rightarrow> None | Some (_, h') \<Rightarrow> cm_add_all m cm vs h')"

lemma cm_add_all_fold:
  assumes "cm_ok cm c r n h" "n + length vs \<le> cm_cap c" "\<forall>v \<in> set vs. cm_val_apart m cm v"
  shows "cm_add_all m cm vs h = Some (fold (cm_insert cm) (map (cm_hashes m cm h) vs) h) \<and>
    (\<forall>x. x \<notin> cm_counters cm \<longrightarrow> fold (cm_insert cm) (map (cm_hashes m cm h) vs) h x = h x)"
  using assms
proof (induction vs arbitrary: n h)
  case (Cons v vs)
  let ?g = "cm_insert cm (cm_hashes m cm h v) h"
  have n: "n < cm_cap c" using Cons.prems(2) by simp
  note ins = cm_insert_counter [OF Cons.prems(1) n, of "cm_hashes m cm h v"]
  have okg: "cm_ok cm c r (Suc n) ?g" by (rule countmin.ok_step [OF Cons.prems(1) n])
  have hd: "header ?g cm = header h cm" using okg Cons.prems(1) by (simp add: cm_ok_def)
  have "cm_hashes m cm ?g w = cm_hashes m cm h w" if "w \<in> set vs" for w
  proof (rule cm_hashes_cong [OF hd])
    fix x
    assume "x \<in> touched w (unat (value_size m))"
    then have "x \<notin> cm_counters cm" using that Cons.prems(3) by (intro cm_val_out) auto
    then show "?g x = h x" using ins(3) by blast
  qed
  then have eq: "map (cm_hashes m cm ?g) vs = map (cm_hashes m cm h) vs" by simp
  have "ubpf_countmin_add m cm v h = Some (0, ?g)"
    using ins(1) by (simp add: ubpf_countmin_add_def cm_hashes_def split_def)
  then show ?case using Cons.IH [OF okg] Cons.prems(2,3) ins(3) eq by (simp del: map_eq_conv)
qed simp

lemma fold_ok:
  assumes "cm_ok cm c r n h" "n + length hs \<le> cm_cap c"
  shows "cm_ok cm c r (n + length hs) (fold (cm_insert cm) hs h)"
  using assms
proof (induction hs arbitrary: n h)
  case (Cons k hs)
  then show ?case using Cons.IH [OF countmin.ok_step [OF Cons.prems(1), of k]] by simp
qed simp

lemma fold_min_ge:
  "\<forall>k \<in> set ks. m \<le> unat (f k) \<Longrightarrow> m \<le> unat a \<Longrightarrow> m \<le> unat (fold (\<lambda>k a. min a (f k)) ks (a :: u32))"
  by (induction ks arbitrary: a) (auto simp: min_def)

text \<open>A lookup returns at least what the counters of the value agree on.\<close>

lemma lookup_ge:
  assumes ok: "cm_ok cm c r n h" and apart: "touched (cm_current_count h cm) 4 \<inter> cm_region cm = {}"
    and val: "touched val (unat (value_size m)) \<inter> touched (cm_current_count h cm) 4 = {}"
    and le: "l \<le> cm_est cm c r h (cm_hashes m cm h val)" "l < 2 ^ 32"
  shows "\<exists>h'. ubpf_countmin_lookup m cm val h = Some (cm_current_count h cm, h') \<and>
    l \<le> unat (read32 h' (cm_current_count h cm))"
proof -
  define p where "p = cm_current_count h cm"
  define g where "g = write32 p (- 1) h"
  have f: "cm_fits cm" "header h cm = (c, r)" "r \<noteq> 0" "c \<noteq> 0" using ok by (auto simp: cm_ok_def)
  have frame: "g x = h x" if "x \<notin> touched p 4" for x unfolding g_def using that by (rule write32_other)
  then have same: "g x = h x" if "x \<in> cm_region cm" for x using apart that by (auto simp: p_def)
  have hd: "header g cm = header h cm" using header_addr [OF f(1)] same by (intro header_cong) blast
  have hs: "cm_hashes m cm g val = cm_hashes m cm h val"
    using val frame by (intro cm_hashes_cong [OF hd]) (auto simp: p_def)
  have ctr: "counter g cm j = counter h cm j" for j
    unfolding counter_def by (rule read32_cong) (use counter_in_counters [OF f(1), of j] cm_counters_region [of cm] same in auto)
  let ?hs = "cm_hashes m cm h val"
  obtain h' where h': "cm_lookup_loop cm p (fst ?hs) (snd ?hs) 0 g = Some h'"
    "read32 h' p = fold (\<lambda>k a. min a (counter g cm (cm_pos c r ?hs k))) [0..<unat c] (read32 g p)"
    using lookup_loop_min [of cm g c r p "fst ?hs" "snd ?hs" 0] f hd apart by (auto simp: p_def)
  have "\<forall>k \<in> set [0..<unat c]. l \<le> unat (counter g cm (cm_pos c r ?hs k))"
  proof
    fix k
    assume "k \<in> set [0..<unat c]"
    then have "cm_est cm c r h ?hs \<le> unat (counter h cm (cm_pos c r ?hs k))"
      unfolding cm_est_def by (intro Min_le) auto
    then show "l \<le> unat (counter g cm (cm_pos c r ?hs k))" using le(1) ctr by simp
  qed
  moreover have "l \<le> unat (read32 g p)" using le(2) by (simp add: g_def read_write_same unsigned_minus_1_eq_mask mask_eq_exp_minus_1)
  ultimately have "l \<le> unat (read32 h' p)" unfolding h'(2) by (rule fold_min_ge)
  moreover have "ubpf_countmin_lookup m cm val h = Some (p, h')"
    using h'(1) hs by (simp add: ubpf_countmin_lookup_def Let_def split_def cm_hashes_def flip: p_def g_def)
  ultimately show ?thesis by (auto simp: p_def)
qed

lemma current_count_frame:
  assumes "cm_fits cm" "\<And>x. x \<notin> cm_counters cm \<Longrightarrow> h' x = h x"
  shows "cm_current_count h' cm = cm_current_count h cm"
proof -
  have "h' (cm + 8 + of_nat i) = h (cm + 8 + of_nat i)" if "i < 8" for i
  proof (rule assms(2))
    have "unat (cm + 8 + of_nat i) = unat cm + 8 + i"
      using that assms(1) by (simp add: cm_fits_def unat_word_ariths unat_of_nat)
    then show "cm + 8 + of_nat i \<notin> cm_counters cm" using that by (simp add: cm_counters_def)
  qed
  then have "map (\<lambda>i. h' (cm + 8 + of_nat i)) [0..<8] = map (\<lambda>i. h (cm + 8 + of_nat i)) [0..<8]" by (intro map_cong) auto
  then show ?thesis by (simp only: cm_current_count_def load_le_bytes)
qed

section \<open>Properties\<close>


text \<open>Counters of successive hash functions are \<open>nb_columns\<close> apart, not \<open>nb_rows\<close>: with four hash functions and
  one row, four counters are allocated and the fourth function uses index 12.\<close>

lemma cm_index_past_allocation:
  assumes "def_nb_hash_functions d = 4" "def_max_entries d = 1" "header h cm = (4, 1)"
  shows "size_bitmap d = 4 * 4 \<and> cm_index h cm h1 h2 3 = Some 12"
  using assms by (simp add: size_bitmap_def cm_index_def hash_mod_def header_def)

definition sample_cm :: ubpf_map where
  "sample_cm = \<lparr>map_type = 3, key_size = 0, value_size = 4, max_entries = 8\<rparr>"

definition sample_cm_memory :: heap where
  "sample_cm_memory = (\<lambda>_. 0)(4096 := 2, 4100 := 8, 4104 := 64)"


end
