(* ===== verification/Dp_Packet.thy ===== *)
theory Dp_Packet
  imports Ubpf_Map "HOL-Library.Monad_Syntax"
begin

text \<open>
  Packet buffers: \<^verbatim>\<open>struct dp_packet\<close> and its operations in \<^verbatim>\<open>dp-packet.h\<close> and \<^verbatim>\<open>dp-packet.c\<close>, for a build without
  DPDK, and the batches of packets.  A packet lies inside an allocated block of memory with unused room before and
  behind it.  Addresses from \<^verbatim>\<open>xmalloc\<close> and \<^verbatim>\<open>xrealloc\<close> are arguments, and a failed assertion or \<^verbatim>\<open>OVS_NOT_REACHED\<close> is
  \<open>None\<close>.  The metadata of a packet, which only the flow tables use, is left out.
\<close>

section \<open>Data\<close>

datatype dp_packet_source = DPBUF_MALLOC | DPBUF_STACK | DPBUF_STUB | DPBUF_DPDK | DPBUF_AFXDP

record dp_packet =
  p_base :: u64
  p_allocated :: u16
  data_ofs :: u16
  p_size :: u32
  ol_flags :: u32
  rss_hash :: u32
  flow_mark :: u32
  p_source :: dp_packet_source
  l2_pad_size :: u8
  l2_5_ofs :: u16
  l3_ofs :: u16
  l4_ofs :: u16
  cutlen :: u32
  packet_type :: u32

abbreviation UINT16_MAX :: u16 where "UINT16_MAX \<equiv> 0xffff"
abbreviation PT_ETH :: u32 where "PT_ETH \<equiv> 0"
abbreviation ETH_HEADER_LEN :: u32 where "ETH_HEADER_LEN \<equiv> 14"

section \<open>Fields and positions\<close>

definition dp_packet_base :: "dp_packet \<Rightarrow> u64" where
  "dp_packet_base b = p_base b"

definition dp_packet_set_base :: "u64 \<Rightarrow> dp_packet \<Rightarrow> dp_packet" where
  "dp_packet_set_base d b = b\<lparr>p_base := d\<rparr>"

definition dp_packet_size :: "dp_packet \<Rightarrow> u32" where
  "dp_packet_size b = p_size b"

definition dp_packet_set_size :: "u32 \<Rightarrow> dp_packet \<Rightarrow> dp_packet" where
  "dp_packet_set_size v b = b\<lparr>p_size := v\<rparr>"

definition dp_packet_get_allocated :: "dp_packet \<Rightarrow> u16" where
  "dp_packet_get_allocated b = p_allocated b"

definition dp_packet_set_allocated :: "u16 \<Rightarrow> dp_packet \<Rightarrow> dp_packet" where
  "dp_packet_set_allocated s b = b\<lparr>p_allocated := s\<rparr>"

definition packet_data :: "dp_packet \<Rightarrow> u16" where
  "packet_data b = data_ofs b"

definition packet_set_data :: "u16 \<Rightarrow> dp_packet \<Rightarrow> dp_packet" where
  "packet_set_data v b = b\<lparr>data_ofs := v\<rparr>"

definition dp_packet_data :: "dp_packet \<Rightarrow> u64" where
  "dp_packet_data b =
     (if packet_data b \<noteq> UINT16_MAX then dp_packet_base b + ucast (packet_data b) else 0)"

definition dp_packet_set_data :: "u64 \<Rightarrow> dp_packet \<Rightarrow> dp_packet" where
  "dp_packet_set_data d b =
     (if d \<noteq> 0 then packet_set_data (ucast (d - dp_packet_base b)) b else packet_set_data UINT16_MAX b)"

definition dp_packet_tail :: "dp_packet \<Rightarrow> u64" where
  "dp_packet_tail b = dp_packet_data b + ucast (dp_packet_size b)"

definition dp_packet_end :: "dp_packet \<Rightarrow> u64" where
  "dp_packet_end b = dp_packet_base b + ucast (dp_packet_get_allocated b)"

definition dp_packet_headroom :: "dp_packet \<Rightarrow> u64" where
  "dp_packet_headroom b = dp_packet_data b - dp_packet_base b"

definition dp_packet_tailroom :: "dp_packet \<Rightarrow> u64" where
  "dp_packet_tailroom b = dp_packet_end b - dp_packet_tail b"

definition dp_packet_at :: "dp_packet \<Rightarrow> u64 \<Rightarrow> u64 \<Rightarrow> u64" where
  "dp_packet_at b ofs sz =
     (if ofs + sz \<le> ucast (dp_packet_size b) then dp_packet_data b + ofs else 0)"

definition dp_packet_at_assert :: "dp_packet \<Rightarrow> u64 \<Rightarrow> u64 \<Rightarrow> u64 option" where
  "dp_packet_at_assert b ofs sz =
     (if ofs + sz \<le> ucast (dp_packet_size b) then Some (dp_packet_data b + ofs) else None)"

definition dp_packet_is_eth :: "dp_packet \<Rightarrow> bool" where
  "dp_packet_is_eth b \<longleftrightarrow> packet_type b = PT_ETH"

definition dp_packet_eth :: "dp_packet \<Rightarrow> u64" where
  "dp_packet_eth b = (if dp_packet_is_eth b \<and> l3_ofs b \<noteq> UINT16_MAX then dp_packet_data b else 0)"

definition dp_packet_reset_offsets :: "dp_packet \<Rightarrow> dp_packet" where
  "dp_packet_reset_offsets b =
     b\<lparr>l2_pad_size := 0, l2_5_ofs := UINT16_MAX, l3_ofs := UINT16_MAX, l4_ofs := UINT16_MAX\<rparr>"

definition dp_packet_l2_pad_size :: "dp_packet \<Rightarrow> u8" where
  "dp_packet_l2_pad_size b = l2_pad_size b"

definition dp_packet_set_l2_pad_size :: "u8 \<Rightarrow> dp_packet \<Rightarrow> dp_packet option" where
  "dp_packet_set_l2_pad_size p b =
     (if ucast p \<le> dp_packet_size b then Some (b\<lparr>l2_pad_size := p\<rparr>) else None)"

definition dp_packet_l2_5 :: "dp_packet \<Rightarrow> u64" where
  "dp_packet_l2_5 b = (if l2_5_ofs b \<noteq> UINT16_MAX then dp_packet_data b + ucast (l2_5_ofs b) else 0)"

definition dp_packet_set_l2_5 :: "u64 \<Rightarrow> dp_packet \<Rightarrow> dp_packet" where
  "dp_packet_set_l2_5 p b = b\<lparr>l2_5_ofs := if p \<noteq> 0 then ucast (p - dp_packet_data b) else UINT16_MAX\<rparr>"

definition dp_packet_l3 :: "dp_packet \<Rightarrow> u64" where
  "dp_packet_l3 b = (if l3_ofs b \<noteq> UINT16_MAX then dp_packet_data b + ucast (l3_ofs b) else 0)"

definition dp_packet_set_l3 :: "u64 \<Rightarrow> dp_packet \<Rightarrow> dp_packet" where
  "dp_packet_set_l3 p b = b\<lparr>l3_ofs := if p \<noteq> 0 then ucast (p - dp_packet_data b) else UINT16_MAX\<rparr>"

definition dp_packet_l4 :: "dp_packet \<Rightarrow> u64" where
  "dp_packet_l4 b = (if l4_ofs b \<noteq> UINT16_MAX then dp_packet_data b + ucast (l4_ofs b) else 0)"

definition dp_packet_set_l4 :: "u64 \<Rightarrow> dp_packet \<Rightarrow> dp_packet" where
  "dp_packet_set_l4 p b = b\<lparr>l4_ofs := if p \<noteq> 0 then ucast (p - dp_packet_data b) else UINT16_MAX\<rparr>"

definition dp_packet_l3_size :: "dp_packet \<Rightarrow> u64" where
  "dp_packet_l3_size b =
     (if l3_ofs b \<noteq> UINT16_MAX
      then dp_packet_tail b - dp_packet_l3 b - ucast (dp_packet_l2_pad_size b) else 0)"

definition dp_packet_l4_size :: "dp_packet \<Rightarrow> u64" where
  "dp_packet_l4_size b =
     (if l4_ofs b \<noteq> UINT16_MAX
      then dp_packet_tail b - dp_packet_l4 b - ucast (dp_packet_l2_pad_size b) else 0)"

text \<open>The payloads behind transport headers; \<open>h\<close> is the memory the header is read from.\<close>

definition dp_packet_get_tcp_payload :: "heap \<Rightarrow> dp_packet \<Rightarrow> u64" where
  "dp_packet_get_tcp_payload h b =
     (let l4_size = dp_packet_l4_size b in
      if l4_size \<ge> 20
      then (let tcp = dp_packet_l4 b;
                tcp_ctl = push_bit 8 (ucast (h (tcp + 12))) OR ucast (h (tcp + 13)) :: u16;
                tcp_len = ucast (drop_bit 12 tcp_ctl) * 4 :: u64 in
            if tcp_len \<ge> 20 \<and> tcp_len \<le> l4_size then tcp + tcp_len else 0)
      else 0)"

definition dp_packet_get_udp_payload :: "dp_packet \<Rightarrow> u64" where
  "dp_packet_get_udp_payload b = (if dp_packet_l4_size b \<ge> 8 then dp_packet_l4 b + 8 else 0)"

definition dp_packet_get_sctp_payload :: "dp_packet \<Rightarrow> u64" where
  "dp_packet_get_sctp_payload b = (if dp_packet_l4_size b \<ge> 12 then dp_packet_l4 b + 12 else 0)"

definition dp_packet_get_icmp_payload :: "dp_packet \<Rightarrow> u64" where
  "dp_packet_get_icmp_payload b = (if dp_packet_l4_size b \<ge> 8 then dp_packet_l4 b + 8 else 0)"

definition dp_packet_get_nd_payload :: "dp_packet \<Rightarrow> u64" where
  "dp_packet_get_nd_payload b = (if dp_packet_l4_size b \<ge> 24 then dp_packet_l4 b + 24 else 0)"

text \<open>Offloading flags and the length to cut.\<close>

definition dp_packet_get_rss_hash :: "dp_packet \<Rightarrow> u32" where
  "dp_packet_get_rss_hash p = rss_hash p"

definition dp_packet_set_rss_hash :: "u32 \<Rightarrow> dp_packet \<Rightarrow> dp_packet" where
  "dp_packet_set_rss_hash hash p = p\<lparr>rss_hash := hash, ol_flags := ol_flags p OR 1\<rparr>"

definition dp_packet_rss_valid :: "dp_packet \<Rightarrow> bool" where
  "dp_packet_rss_valid p \<longleftrightarrow> ol_flags p AND 1 \<noteq> 0"

definition dp_packet_reset_offload :: "dp_packet \<Rightarrow> dp_packet" where
  "dp_packet_reset_offload p = p\<lparr>ol_flags := 0\<rparr>"

definition dp_packet_has_flow_mark :: "dp_packet \<Rightarrow> u32 option" where
  "dp_packet_has_flow_mark p = (if ol_flags p AND 2 \<noteq> 0 then Some (flow_mark p) else None)"

definition dp_packet_set_flow_mark :: "u32 \<Rightarrow> dp_packet \<Rightarrow> dp_packet" where
  "dp_packet_set_flow_mark mark p = p\<lparr>flow_mark := mark, ol_flags := ol_flags p OR 2\<rparr>"

definition dp_packet_reset_cutlen :: "dp_packet \<Rightarrow> dp_packet" where
  "dp_packet_reset_cutlen b = b\<lparr>cutlen := 0\<rparr>"

definition dp_packet_set_cutlen :: "u32 \<Rightarrow> dp_packet \<Rightarrow> dp_packet" where
  "dp_packet_set_cutlen max_len b =
     (let max_len = (if max_len < ETH_HEADER_LEN then ETH_HEADER_LEN else max_len) in
      b\<lparr>cutlen := if max_len \<ge> dp_packet_size b then 0 else dp_packet_size b - max_len\<rparr>)"

definition dp_packet_get_cutlen :: "dp_packet \<Rightarrow> u32" where
  "dp_packet_get_cutlen b = cutlen b"

definition dp_packet_get_send_len :: "dp_packet \<Rightarrow> u32" where
  "dp_packet_get_send_len b = dp_packet_size b - dp_packet_get_cutlen b"

section \<open>Initialisation\<close>

definition dp_packet_init_raw :: "u64 \<Rightarrow> dp_packet_source \<Rightarrow> dp_packet \<Rightarrow> dp_packet" where
  "dp_packet_init_raw allocated origin b =
     (let b = dp_packet_set_allocated (ucast allocated) b;
          b = b\<lparr>p_source := origin\<rparr>;
          b = dp_packet_reset_offsets b;
          b = dp_packet_reset_cutlen b;
          b = dp_packet_reset_offload b
      in b\<lparr>packet_type := PT_ETH\<rparr>)"

definition dp_packet_use_raw :: "u64 \<Rightarrow> u64 \<Rightarrow> dp_packet_source \<Rightarrow> dp_packet \<Rightarrow> dp_packet" where
  "dp_packet_use_raw base allocated origin b =
     (let b = dp_packet_set_base base b;
          b = dp_packet_set_data base b;
          b = dp_packet_set_size 0 b
      in dp_packet_init_raw allocated origin b)"

definition dp_packet_use :: "u64 \<Rightarrow> u64 \<Rightarrow> dp_packet \<Rightarrow> dp_packet" where
  "dp_packet_use base allocated b = dp_packet_use_raw base allocated DPBUF_MALLOC b"

definition dp_packet_use_stub :: "u64 \<Rightarrow> u64 \<Rightarrow> dp_packet \<Rightarrow> dp_packet" where
  "dp_packet_use_stub base allocated b = dp_packet_use_raw base allocated DPBUF_STUB b"

definition dp_packet_use_const :: "u64 \<Rightarrow> u64 \<Rightarrow> dp_packet \<Rightarrow> dp_packet" where
  "dp_packet_use_const data sz b = dp_packet_set_size (ucast sz) (dp_packet_use_raw data sz DPBUF_STACK b)"

definition dp_packet_init_dpdk :: "dp_packet \<Rightarrow> dp_packet" where
  "dp_packet_init_dpdk b = b\<lparr>p_source := DPBUF_DPDK\<rparr>"

definition dp_packet_init :: "u64 \<Rightarrow> u64 \<Rightarrow> dp_packet \<Rightarrow> dp_packet" where
  "dp_packet_init new sz b = dp_packet_use (if sz \<noteq> 0 then new else 0) sz b"

text \<open>A new packet: \<open>junk\<close> is what its structure holds when it is allocated.\<close>

definition dp_packet_new :: "dp_packet \<Rightarrow> u64 \<Rightarrow> u64 \<Rightarrow> dp_packet" where
  "dp_packet_new junk new sz = dp_packet_init new sz junk"

section \<open>Reallocation\<close>

type_synonym pstate = "dp_packet \<times> heap"

definition dp_packet_copy_raw :: "dp_packet \<Rightarrow> u64 \<Rightarrow> u64 \<Rightarrow> u64 \<Rightarrow> heap \<Rightarrow> heap" where
  "dp_packet_copy_raw b new_base new_headroom new_tailroom h =
     (let old_base = dp_packet_base b;
          old_headroom = dp_packet_headroom b;
          old_tailroom = dp_packet_tailroom b;
          copy_headroom = min old_headroom new_headroom;
          copy_tailroom = min old_tailroom new_tailroom
      in memcpy (new_base + (new_headroom - copy_headroom)) (old_base + (old_headroom - copy_headroom))
           (unat (copy_headroom + ucast (dp_packet_size b) + copy_tailroom)) h)"

text \<open>\<^verbatim>\<open>xrealloc\<close> keeps the contents of the block as far as the new one reaches.\<close>

definition xrealloc :: "u64 \<Rightarrow> u64 \<Rightarrow> u64 \<Rightarrow> u64 \<Rightarrow> heap \<Rightarrow> heap" where
  "xrealloc old old_size new new_size h = memcpy new old (unat (min old_size new_size)) h"

definition dp_packet_resize_raw :: "u64 \<Rightarrow> u64 \<Rightarrow> u64 \<Rightarrow> pstate \<Rightarrow> pstate option" where
  "dp_packet_resize_raw new_base new_headroom new_tailroom = (\<lambda>(b, h).
     let new_allocated = new_headroom + ucast (dp_packet_size b) + new_tailroom in do {
       (b, h) \<leftarrow> (case p_source b of
           DPBUF_MALLOC \<Rightarrow>
             Some (b, if new_headroom = dp_packet_headroom b
                      then xrealloc (dp_packet_base b) (ucast (dp_packet_get_allocated b)) new_base new_allocated h
                      else dp_packet_copy_raw b new_base new_headroom new_tailroom h)
         | DPBUF_STUB \<Rightarrow>
             Some (b\<lparr>p_source := DPBUF_MALLOC\<rparr>, dp_packet_copy_raw b new_base new_headroom new_tailroom h)
         | _ \<Rightarrow> None);
       let b = dp_packet_set_allocated (ucast new_allocated) b;
       let b = dp_packet_set_base new_base b;
       let new_data = new_base + new_headroom;
       Some (if dp_packet_data b \<noteq> new_data then dp_packet_set_data new_data b else b, h)
     })"

definition dp_packet_prealloc_tailroom :: "u64 \<Rightarrow> u64 \<Rightarrow> pstate \<Rightarrow> pstate option" where
  "dp_packet_prealloc_tailroom new sz = (\<lambda>(b, h).
     if sz > dp_packet_tailroom b
     then dp_packet_resize_raw new (dp_packet_headroom b) (max sz 64) (b, h)
     else Some (b, h))"

definition dp_packet_prealloc_headroom :: "u64 \<Rightarrow> u64 \<Rightarrow> pstate \<Rightarrow> pstate option" where
  "dp_packet_prealloc_headroom new sz = (\<lambda>(b, h).
     if sz > dp_packet_headroom b
     then dp_packet_resize_raw new (max sz 64) (dp_packet_tailroom b) (b, h)
     else Some (b, h))"

section \<open>Adding and removing bytes\<close>

text \<open>\<^verbatim>\<open>dp_packet_shift\<close> by a signed 32-bit distance; negating the least one is undefined.\<close>

definition dp_packet_shift :: "u32 \<Rightarrow> pstate \<Rightarrow> pstate option" where
  "dp_packet_shift delta = (\<lambda>(b, h).
     if (if 0 <s delta then scast delta \<le> dp_packet_tailroom b
         else if delta <s 0 then delta \<noteq> 0x80000000 \<and> scast (- delta) \<le> dp_packet_headroom b
         else True)
     then (if delta \<noteq> 0
           then (let d = dp_packet_data b + scast delta;
                     h = memcpy d (dp_packet_data b) (unat (dp_packet_size b)) h
                 in Some (dp_packet_set_data d b, h))
           else Some (b, h))
     else None)"

text \<open>The operations that return a pointer give it first.\<close>

definition dp_packet_put_uninit :: "u64 \<Rightarrow> u64 \<Rightarrow> pstate \<Rightarrow> (u64 \<times> pstate) option" where
  "dp_packet_put_uninit new sz st = do {
     (b, h) \<leftarrow> dp_packet_prealloc_tailroom new sz st;
     let p = dp_packet_tail b;
     Some (p, dp_packet_set_size (dp_packet_size b + ucast sz) b, h)
   }"

definition dp_packet_put_zeros :: "u64 \<Rightarrow> u64 \<Rightarrow> pstate \<Rightarrow> (u64 \<times> pstate) option" where
  "dp_packet_put_zeros new sz st = do {
     (d, b, h) \<leftarrow> dp_packet_put_uninit new sz st;
     Some (d, b, write_bytes d (replicate (unat sz) 0) h)
   }"

definition dp_packet_put :: "u64 \<Rightarrow> u64 \<Rightarrow> u64 \<Rightarrow> pstate \<Rightarrow> (u64 \<times> pstate) option" where
  "dp_packet_put new p sz st = do {
     (d, b, h) \<leftarrow> dp_packet_put_uninit new sz st;
     Some (d, b, memcpy d p (unat sz) h)
   }"

definition dp_packet_reserve :: "u64 \<Rightarrow> u64 \<Rightarrow> pstate \<Rightarrow> pstate option" where
  "dp_packet_reserve new sz st =
     (if dp_packet_size (fst st) \<noteq> 0 then None
      else do {
        (b, h) \<leftarrow> dp_packet_prealloc_tailroom new sz st;
        Some (dp_packet_set_data (dp_packet_data b + sz) b, h)
      })"

definition dp_packet_reserve_with_tailroom :: "u64 \<Rightarrow> u64 \<Rightarrow> u64 \<Rightarrow> pstate \<Rightarrow> pstate option" where
  "dp_packet_reserve_with_tailroom new headroom tailroom st =
     (if dp_packet_size (fst st) \<noteq> 0 then None
      else do {
        (b, h) \<leftarrow> dp_packet_prealloc_tailroom new (headroom + tailroom) st;
        Some (dp_packet_set_data (dp_packet_data b + headroom) b, h)
      })"

definition dp_packet_push_uninit :: "u64 \<Rightarrow> u64 \<Rightarrow> pstate \<Rightarrow> (u64 \<times> pstate) option" where
  "dp_packet_push_uninit new sz st = do {
     (b, h) \<leftarrow> dp_packet_prealloc_headroom new sz st;
     let b = dp_packet_set_data (dp_packet_data b - sz) b;
     let b = dp_packet_set_size (dp_packet_size b + ucast sz) b;
     Some (dp_packet_data b, b, h)
   }"

definition dp_packet_push_zeros :: "u64 \<Rightarrow> u64 \<Rightarrow> pstate \<Rightarrow> (u64 \<times> pstate) option" where
  "dp_packet_push_zeros new sz st = do {
     (d, b, h) \<leftarrow> dp_packet_push_uninit new sz st;
     Some (d, b, write_bytes d (replicate (unat sz) 0) h)
   }"

definition dp_packet_push :: "u64 \<Rightarrow> u64 \<Rightarrow> u64 \<Rightarrow> pstate \<Rightarrow> (u64 \<times> pstate) option" where
  "dp_packet_push new p sz st = do {
     (d, b, h) \<leftarrow> dp_packet_push_uninit new sz st;
     Some (d, b, memcpy d p (unat sz) h)
   }"

definition dp_packet_clear :: "dp_packet \<Rightarrow> dp_packet" where
  "dp_packet_clear b = dp_packet_set_size 0 (dp_packet_set_data (dp_packet_base b) b)"

text \<open>The number of bytes that can be pulled is a 32-bit difference; padding cannot be pulled.\<close>

definition dp_packet_pull :: "u64 \<Rightarrow> dp_packet \<Rightarrow> (u64 \<times> dp_packet) option" where
  "dp_packet_pull sz b =
     (if ucast (dp_packet_size b - ucast (dp_packet_l2_pad_size b)) \<ge> sz
      then (let data = dp_packet_data b;
                b = dp_packet_set_data (dp_packet_data b + sz) b;
                b = dp_packet_set_size (dp_packet_size b - ucast sz) b
            in Some (data, b))
      else None)"

definition dp_packet_try_pull :: "u64 \<Rightarrow> dp_packet \<Rightarrow> (u64 \<times> dp_packet) option" where
  "dp_packet_try_pull sz b =
     (if ucast (dp_packet_size b - ucast (dp_packet_l2_pad_size b)) \<ge> sz
      then dp_packet_pull sz b else Some (0, b))"

definition dp_packet_reset_packet :: "u32 \<Rightarrow> dp_packet \<Rightarrow> dp_packet" where
  "dp_packet_reset_packet off b =
     (let b = dp_packet_set_size (dp_packet_size b - off) b;
          b = dp_packet_set_data (dp_packet_data b + scast off) b
      in dp_packet_reset_offsets b)"

definition dp_packet_equal :: "heap \<Rightarrow> dp_packet \<Rightarrow> dp_packet \<Rightarrow> bool" where
  "dp_packet_equal h a b \<longleftrightarrow> dp_packet_size a = dp_packet_size b \<and>
     bytes_at h (dp_packet_data a) (unat (dp_packet_size a)) = bytes_at h (dp_packet_data b) (unat (dp_packet_size a))"

text \<open>The data as a block of its own: the packet's block, or a copy of the data at \<open>new\<close>.\<close>

definition dp_packet_steal_data :: "u64 \<Rightarrow> pstate \<Rightarrow> (u64 \<times> pstate) option" where
  "dp_packet_steal_data new = (\<lambda>(b, h).
     if p_source b = DPBUF_DPDK \<or> p_source b = DPBUF_AFXDP then None
     else (let (p, h) = (if p_source b = DPBUF_MALLOC \<and> dp_packet_data b = dp_packet_base b
                         then (dp_packet_data b, h)
                         else (new, memcpy new (dp_packet_data b) (unat (dp_packet_size b)) h));
               b = dp_packet_set_base 0 b
           in Some (p, dp_packet_set_data 0 b, h)))"

definition dp_packet_adjust_layer_offset :: "u32 \<Rightarrow> u16 \<Rightarrow> u16" where
  "dp_packet_adjust_layer_offset increment ofs = (if ofs \<noteq> UINT16_MAX then ofs + ucast increment else ofs)"

definition dp_packet_resize_l2_5 :: "u64 \<Rightarrow> u32 \<Rightarrow> pstate \<Rightarrow> (u64 \<times> pstate) option" where
  "dp_packet_resize_l2_5 new increment = (\<lambda>(b, h). do {
     (b, h) \<leftarrow> (if 0 \<le>s increment then map_option snd (dp_packet_push_uninit new (scast increment) (b, h))
                else if increment = 0x80000000 then None
                else map_option (\<lambda>(_, b). (b, h)) (dp_packet_pull (scast (- increment)) b));
     let b = b\<lparr>l3_ofs := dp_packet_adjust_layer_offset increment (l3_ofs b)\<rparr>;
     let b = b\<lparr>l4_ofs := dp_packet_adjust_layer_offset increment (l4_ofs b)\<rparr>;
     Some (dp_packet_data b, b, h)
   })"

definition dp_packet_resize_l2 :: "u64 \<Rightarrow> u32 \<Rightarrow> pstate \<Rightarrow> (u64 \<times> pstate) option" where
  "dp_packet_resize_l2 new increment st = do {
     (_, b, h) \<leftarrow> dp_packet_resize_l2_5 new increment st;
     let b = b\<lparr>l2_5_ofs := dp_packet_adjust_layer_offset increment (l2_5_ofs b)\<rparr>;
     Some (dp_packet_data b, b, h)
   }"

section \<open>Copies of packets\<close>

definition dp_packet_new_with_headroom :: "dp_packet \<Rightarrow> u64 \<Rightarrow> u64 \<Rightarrow> u64 \<Rightarrow> u64 \<Rightarrow> heap \<Rightarrow> pstate option" where
  "dp_packet_new_with_headroom junk new new' sz headroom h =
     dp_packet_reserve new' headroom (dp_packet_new junk new (sz + headroom), h)"

definition dp_packet_clone_data_with_headroom ::
  "dp_packet \<Rightarrow> u64 \<Rightarrow> u64 \<Rightarrow> u64 \<Rightarrow> u64 \<Rightarrow> u64 \<Rightarrow> heap \<Rightarrow> pstate option" where
  "dp_packet_clone_data_with_headroom junk new new' data sz headroom h = do {
     st \<leftarrow> dp_packet_new_with_headroom junk new new' sz headroom h;
     map_option snd (dp_packet_put new' data sz st)
   }"

definition dp_packet_clone_data :: "dp_packet \<Rightarrow> u64 \<Rightarrow> u64 \<Rightarrow> u64 \<Rightarrow> u64 \<Rightarrow> heap \<Rightarrow> pstate option" where
  "dp_packet_clone_data junk new new' data sz h = dp_packet_clone_data_with_headroom junk new new' data sz 0 h"

definition dp_packet_clone_with_headroom ::
  "dp_packet \<Rightarrow> u64 \<Rightarrow> u64 \<Rightarrow> dp_packet \<Rightarrow> u64 \<Rightarrow> heap \<Rightarrow> pstate option" where
  "dp_packet_clone_with_headroom junk new new' buffer headroom h = do {
     (b, h) \<leftarrow> dp_packet_clone_data_with_headroom junk new new' (dp_packet_data buffer)
        (ucast (dp_packet_size buffer)) headroom h;
     let b = b\<lparr>l2_pad_size := l2_pad_size buffer, l2_5_ofs := l2_5_ofs buffer, l3_ofs := l3_ofs buffer,
        l4_ofs := l4_ofs buffer, cutlen := cutlen buffer, packet_type := packet_type buffer\<rparr>;
     let b = (if dp_packet_rss_valid buffer then dp_packet_set_rss_hash (dp_packet_get_rss_hash buffer) b else b);
     Some (case dp_packet_has_flow_mark buffer of Some mark \<Rightarrow> dp_packet_set_flow_mark mark b | None \<Rightarrow> b, h)
   }"

definition dp_packet_clone :: "dp_packet \<Rightarrow> u64 \<Rightarrow> u64 \<Rightarrow> dp_packet \<Rightarrow> heap \<Rightarrow> pstate option" where
  "dp_packet_clone junk new new' buffer h = dp_packet_clone_with_headroom junk new new' buffer 0 h"

section \<open>Bytes from hexadecimal digits\<close>

definition hexit_value :: "char \<Rightarrow> int" where
  "hexit_value c =
     (let x = of_char c :: int in
      if 48 \<le> x \<and> x \<le> 57 then x - 48
      else if 97 \<le> x \<and> x \<le> 102 then x - 97 + 10
      else if 65 \<le> x \<and> x \<le> 70 then x - 65 + 10
      else -1)"

text \<open>A C string is the list of its characters before the terminating zero.\<close>

definition char_at :: "string \<Rightarrow> nat \<Rightarrow> char" where
  "char_at s i = (if i < length s then s ! i else CHR 0x00)"

fun hexits_value_loop :: "string \<Rightarrow> nat list \<Rightarrow> u64 \<Rightarrow> u64 \<times> bool" where
  "hexits_value_loop s [] v = (v, True)"
| "hexits_value_loop s (i # js) v =
     (if hexit_value (char_at s i) < 0 then (- 1, False)
      else hexits_value_loop s js (push_bit 4 v + of_int (hexit_value (char_at s i))))"

definition hexits_value :: "string \<Rightarrow> nat \<Rightarrow> u64 \<times> bool" where
  "hexits_value s n = hexits_value_loop s [0..<n] 0"

definition hex_space :: "char \<Rightarrow> bool" where
  "hex_space c \<longleftrightarrow> c \<in> {CHR '' '', CHR 0x09, CHR 0x0D, CHR 0x0A}"

text \<open>The loop of \<^verbatim>\<open>dp_packet_put_hex\<close>: \<open>bp\<close> is the address of its local byte, \<open>alloc\<close> gives the address of each
  reallocation.\<close>

function put_hex_loop :: "(string \<Rightarrow> u64) \<Rightarrow> u64 \<Rightarrow> string \<Rightarrow> pstate \<Rightarrow> (string \<times> pstate) option" where
  "put_hex_loop alloc bp s st =
     (let s = dropWhile hex_space s; (byte, ok) = hexits_value s 2 in
      if \<not> ok then Some (s, st)
      else (case dp_packet_put (alloc s) bp 1 (fst st, (snd st)(bp := ucast byte)) of
              None \<Rightarrow> None
            | Some (_, st) \<Rightarrow> put_hex_loop alloc bp (drop 2 s) st))"
  by pat_completeness auto
termination
proof (relation "measure (\<lambda>(alloc, bp, s, st). length s)", goal_cases)
  case (2 alloc bp s st s' p byte ok r d st')
  have "snd (hexits_value s' 2)" using 2 by (metis snd_conv)
  then have "s' \<noteq> []"
    by (auto simp: hexits_value_def char_at_def hexit_value_def upt_rec split: if_splits)
  moreover have "length s' \<le> length s" using 2 by (simp add: length_dropWhile_le)
  ultimately show ?case by (cases s') auto
qed simp

declare put_hex_loop.simps [simp del]

definition dp_packet_put_hex :: "(string \<Rightarrow> u64) \<Rightarrow> u64 \<Rightarrow> string \<Rightarrow> pstate \<Rightarrow> (string \<times> u64 \<times> pstate) option" where
  "dp_packet_put_hex alloc bp s st = do {
     let initial_size = dp_packet_size (fst st);
     (s, st) \<leftarrow> put_hex_loop alloc bp s st;
     Some (s, ucast (dp_packet_size (fst st)) - ucast initial_size, st)
   }"

section \<open>Batches\<close>

abbreviation NETDEV_MAX_BURST :: u64 where "NETDEV_MAX_BURST \<equiv> 32"

record dp_packet_batch =
  bcount :: u64
  trunc :: bool
  do_not_steal :: bool
  packets :: "u64 list"

definition dp_packet_batch_init :: "dp_packet_batch \<Rightarrow> dp_packet_batch" where
  "dp_packet_batch_init batch = batch\<lparr>bcount := 0, trunc := False, do_not_steal := False\<rparr>"

text \<open>Adding a packet: the packet that is deleted, if any, and the batch.\<close>

definition dp_packet_batch_add_raw :: "u64 \<Rightarrow> u64 \<Rightarrow> dp_packet_batch \<Rightarrow> u64 option \<times> dp_packet_batch" where
  "dp_packet_batch_add_raw packet limit batch =
     (if bcount batch < limit
      then (None, batch\<lparr>packets := (packets batch)[unat (bcount batch) := packet], bcount := bcount batch + 1\<rparr>)
      else (Some packet, batch))"

definition dp_packet_batch_add :: "u64 \<Rightarrow> dp_packet_batch \<Rightarrow> u64 option \<times> dp_packet_batch" where
  "dp_packet_batch_add packet batch = dp_packet_batch_add_raw packet NETDEV_MAX_BURST batch"

definition dp_packet_batch_size :: "dp_packet_batch \<Rightarrow> u64" where
  "dp_packet_batch_size batch = bcount batch"

definition dp_packet_batch_refill_init :: "dp_packet_batch \<Rightarrow> dp_packet_batch" where
  "dp_packet_batch_refill_init batch = batch\<lparr>bcount := 0\<rparr>"

definition dp_packet_batch_refill :: "u64 \<Rightarrow> u64 \<Rightarrow> dp_packet_batch \<Rightarrow> u64 option \<times> dp_packet_batch" where
  "dp_packet_batch_refill packet idx batch = dp_packet_batch_add_raw packet (min NETDEV_MAX_BURST (idx + 1)) batch"

definition dp_packet_batch_init_packet :: "u64 \<Rightarrow> dp_packet_batch \<Rightarrow> dp_packet_batch" where
  "dp_packet_batch_init_packet p batch =
     (let batch = dp_packet_batch_init batch in batch\<lparr>bcount := 1, packets := (packets batch)[0 := p]\<rparr>)"

definition dp_packet_batch_is_empty :: "dp_packet_batch \<Rightarrow> bool" where
  "dp_packet_batch_is_empty batch \<longleftrightarrow> dp_packet_batch_size batch = 0"

definition dp_packet_batch_is_full :: "dp_packet_batch \<Rightarrow> bool" where
  "dp_packet_batch_is_full batch \<longleftrightarrow> dp_packet_batch_size batch = NETDEV_MAX_BURST"

text \<open>The packets \<^verbatim>\<open>DP_PACKET_BATCH_FOR_EACH\<close> visits, and \<^verbatim>\<open>DP_PACKET_BATCH_REFILL_FOR_EACH\<close> with a body that refills
  the packets \<open>keep\<close> selects.\<close>

definition batch_for_each :: "dp_packet_batch \<Rightarrow> u64 list" where
  "batch_for_each batch = map (\<lambda>i. packets batch ! i) [0..<unat (dp_packet_batch_size batch)]"

fun refill_loop :: "(u64 \<Rightarrow> bool) \<Rightarrow> nat list \<Rightarrow> dp_packet_batch \<Rightarrow> dp_packet_batch" where
  "refill_loop keep [] batch = batch"
| "refill_loop keep (i # js) batch =
     (let packet = packets batch ! i;
          batch = (if keep packet then snd (dp_packet_batch_refill packet (of_nat i) batch) else batch)
      in refill_loop keep js batch)"

definition batch_refill_for_each :: "(u64 \<Rightarrow> bool) \<Rightarrow> dp_packet_batch \<Rightarrow> dp_packet_batch" where
  "batch_refill_for_each keep batch =
     refill_loop keep [0..<unat (dp_packet_batch_size batch)] (dp_packet_batch_refill_init batch)"

text \<open>The loops over the packets themselves; \<open>ps\<close> maps their addresses to them.\<close>

type_synonym packet_store = "u64 \<Rightarrow> dp_packet"

definition for_packets :: "(dp_packet \<Rightarrow> dp_packet) \<Rightarrow> dp_packet_batch \<Rightarrow> packet_store \<Rightarrow> packet_store" where
  "for_packets f batch ps = fold (\<lambda>p ps. ps(p := f (ps p))) (batch_for_each batch) ps"

definition dp_packet_batch_init_packet_fields :: "dp_packet_batch \<Rightarrow> packet_store \<Rightarrow> packet_store" where
  "dp_packet_batch_init_packet_fields batch =
     for_packets (\<lambda>b. (dp_packet_reset_cutlen b)\<lparr>packet_type := PT_ETH\<rparr>) batch"

definition dp_packet_batch_apply_cutlen ::
  "dp_packet_batch \<times> packet_store \<Rightarrow> dp_packet_batch \<times> packet_store" where
  "dp_packet_batch_apply_cutlen = (\<lambda>(batch, ps).
     if trunc batch
     then (batch\<lparr>trunc := False\<rparr>,
           for_packets (\<lambda>b. dp_packet_reset_cutlen (dp_packet_set_size (dp_packet_get_send_len b) b)) batch ps)
     else (batch, ps))"

definition dp_packet_batch_reset_cutlen ::
  "dp_packet_batch \<times> packet_store \<Rightarrow> dp_packet_batch \<times> packet_store" where
  "dp_packet_batch_reset_cutlen = (\<lambda>(batch, ps).
     if trunc batch then (batch\<lparr>trunc := False\<rparr>, for_packets dp_packet_reset_cutlen batch ps) else (batch, ps))"

section \<open>Well-formed packets\<close>

lemmas packet_fields = dp_packet_base_def dp_packet_set_base_def dp_packet_size_def dp_packet_set_size_def
  dp_packet_get_allocated_def dp_packet_set_allocated_def packet_data_def packet_set_data_def

text \<open>The offset 65535 stands for a packet without data, so blocks have to be smaller.\<close>

abbreviation max_block :: nat where "max_block \<equiv> 65534"

definition dpp_ok :: "dp_packet \<Rightarrow> bool" where
  "dpp_ok b \<longleftrightarrow> p_base b \<noteq> 0 \<and> unat (p_base b) + unat (p_allocated b) < 2 ^ 64 \<and> data_ofs b \<noteq> UINT16_MAX \<and>
     unat (p_allocated b) \<le> max_block \<and> unat (data_ofs b) + unat (p_size b) \<le> unat (p_allocated b)"

definition pkt_bytes :: "heap \<Rightarrow> dp_packet \<Rightarrow> u8 list" where
  "pkt_bytes h b = bytes_at h (dp_packet_data b) (unat (p_size b))"

definition movable :: "dp_packet \<Rightarrow> bool" where
  "movable b \<longleftrightarrow> p_source b = DPBUF_MALLOC \<or> p_source b = DPBUF_STUB"

lemma movableE:
  assumes "movable b"
  obtains "p_source b = DPBUF_MALLOC" | "p_source b = DPBUF_STUB"
  using assms by (auto simp: movable_def)

text \<open>An address at which a block of the largest size can be.\<close>

definition block_ok :: "u64 \<Rightarrow> bool" where
  "block_ok a \<longleftrightarrow> a \<noteq> 0 \<and> unat a + max_block < 2 ^ 64"

lemma unat_ucast_u16: "unat (ucast (x :: u16) :: u64) = unat x"
proof -
  have "unat x < 2 ^ 64" using unsigned_less [of x, where 'a = nat] by simp
  then show ?thesis by (simp add: unsigned_ucast_eq take_bit_nat_eq_self)
qed

lemma length_pkt_bytes [simp]: "length (pkt_bytes h b) = unat (p_size b)"
  by (simp add: pkt_bytes_def)

lemma packet_data_at: "data_ofs b \<noteq> UINT16_MAX \<Longrightarrow> dp_packet_data b = p_base b + ucast (data_ofs b)"
  by (simp add: dp_packet_data_def packet_fields)

lemma headroom_ucast: "data_ofs b \<noteq> UINT16_MAX \<Longrightarrow> dp_packet_headroom b = ucast (data_ofs b)"
  by (simp add: dp_packet_headroom_def packet_data_at packet_fields)

lemma unat_headroom: "data_ofs b \<noteq> UINT16_MAX \<Longrightarrow> unat (dp_packet_headroom b) = unat (data_ofs b)"
  by (simp add: headroom_ucast unat_ucast_u16)

lemma unat_tailroom:
  assumes "dpp_ok b"
  shows "unat (dp_packet_tailroom b) = unat (p_allocated b) - unat (data_ofs b) - unat (p_size b)"
proof -
  have t: "dp_packet_tailroom b = ucast (p_allocated b) - (ucast (data_ofs b) + ucast (p_size b))"
    using assms by (simp add: dpp_ok_def dp_packet_tailroom_def dp_packet_end_def dp_packet_tail_def packet_data_at
      packet_fields)
  have "unat (ucast (data_ofs b) + ucast (p_size b) :: u64) = unat (data_ofs b) + unat (p_size b)"
    using assms unsigned_less [of "p_allocated b", where 'a = nat]
    by (simp add: dpp_ok_def unat_word_ariths unat_ucast_u16 unat_ucast_u32)
  then show ?thesis
    using assms by (simp add: t unat_sub word_le_nat_alt unat_ucast_u16 dpp_ok_def)
qed

lemma set_data_at:
  assumes "p_base b \<noteq> 0" "unat (p_base b) + n < 2 ^ 64"
  shows "dp_packet_set_data (p_base b + of_nat n) b = b\<lparr>data_ofs := of_nat n\<rparr>"
proof -
  have "unat (p_base b + of_nat n) = unat (p_base b) + n"
    using assms(2) by (simp add: unat_word_ariths unat_of_nat)
  then have "p_base b + of_nat n \<noteq> 0" using assms(1) by (metis add_is_0 unat_0 unat_eq_zero)
  moreover have "ucast (of_nat n :: u64) = (of_nat n :: u16)"
    by (rule unsigned_word_eqI [where 'a = nat]) (use assms in \<open>simp add: unsigned_ucast_eq unat_of_nat take_bit_eq_mod mod_mod_cancel\<close>)
  ultimately show ?thesis by (simp add: dp_packet_set_data_def packet_fields)
qed

lemma memcpy_slice:
  assumes "i + n + k \<le> 2 ^ 64"
  shows "bytes_at (memcpy d s (i + n + k) h) (d + of_nat i) n = bytes_at h (s + of_nat i) n"
proof -
  have "bytes_at (memcpy d s (i + n + k) h) d (i + n + k) = bytes_at h s (i + n + k)"
    using bytes_at_write_bytes [of "bytes_at h s (i + n + k)"] assms by (simp add: memcpy_def)
  then show ?thesis by (simp add: bytes_at_add)
qed

lemma memcpy_other: "x \<notin> touched d n \<Longrightarrow> memcpy d s n h x = h x"
  by (simp add: memcpy_def write_bytes_other)

lemma touched_sub: "i + n \<le> m \<Longrightarrow> touched (a + of_nat i) n \<subseteq> touched a m"
proof
  fix x
  assume n: "i + n \<le> m" and "x \<in> touched (a + of_nat i) n"
  then obtain j where "j < n" "x = a + of_nat (i + j)" by (auto simp: touched_def add.assoc)
  then show "x \<in> touched a m" using n unfolding touched_def by (intro image_eqI [of _ _ "i + j"]) auto
qed

section \<open>Reallocation keeps the packet\<close>

lemma copy_bytes:
  assumes ok: "dpp_ok b" and n: "nh + unat (p_size b) + nt \<le> max_block"
  shows "bytes_at (dp_packet_copy_raw b new (of_nat nh) (of_nat nt) h) (new + of_nat nh) (unat (p_size b)) = pkt_bytes h b"
    and "x \<notin> touched new (nh + unat (p_size b) + nt) \<Longrightarrow> dp_packet_copy_raw b new (of_nat nh) (of_nat nt) h x = h x"
proof -
  define oh ot where "oh = unat (data_ofs b)" and "ot = unat (dp_packet_tailroom b)"
  define ch ct where "ch = min oh nh" and "ct = min ot nt"
  have small: "oh < 2 ^ 64" "ot < 2 ^ 64" "nh < 2 ^ 64" "nt < 2 ^ 64"
    using n unsigned_less [of "data_ofs b", where 'a = nat] unsigned_less [of "dp_packet_tailroom b", where 'a = nat]
    by (simp_all add: oh_def ot_def)
  have min_of_nat: "min (of_nat a) (of_nat c) = (of_nat (min a c) :: u64)" if "a < 2 ^ 64" "c < 2 ^ 64" for a c
    using that by (simp add: min_def word_le_nat_alt unat_of_nat)
  have oh: "dp_packet_headroom b = of_nat oh" and ot: "dp_packet_tailroom b = of_nat ot"
    using ok by (simp_all add: oh_def ot_def headroom_ucast dpp_ok_def)
  have le: "ch \<le> oh" "ch \<le> nh" "ct \<le> nt" by (simp_all add: ch_def ct_def)
  have len: "unat (of_nat ch + ucast (p_size b) + of_nat ct :: u64) = ch + unat (p_size b) + ct"
    using n le by (simp add: unat_word_ariths unat_of_nat unat_ucast_u32)
  have copy: "dp_packet_copy_raw b new (of_nat nh) (of_nat nt) h =
      memcpy (new + of_nat (nh - ch)) (p_base b + of_nat (oh - ch)) (ch + unat (p_size b) + ct) h"
    using le by (simp add: dp_packet_copy_raw_def Let_def oh ot packet_fields min_of_nat [OF small(1,3)] min_of_nat [OF small(2,4)]
       ch_def [symmetric] ct_def [symmetric] len)
  have "ch + unat (p_size b) + ct \<le> 2 ^ 64" using n le by simp
  from memcpy_slice [OF this, of "new + of_nat (nh - ch)" "p_base b + of_nat (oh - ch)" h]
  show "bytes_at (dp_packet_copy_raw b new (of_nat nh) (of_nat nt) h) (new + of_nat nh) (unat (p_size b)) = pkt_bytes h b"
    using le ok by (simp add: copy pkt_bytes_def packet_data_at dpp_ok_def oh_def)
  have "touched (new + of_nat (nh - ch)) (ch + unat (p_size b) + ct) \<subseteq> touched new (nh + unat (p_size b) + nt)"
    using le by (intro touched_sub) simp
  then show "dp_packet_copy_raw b new (of_nat nh) (of_nat nt) h x = h x" if "x \<notin> touched new (nh + unat (p_size b) + nt)"
    using that unfolding copy by (blast intro: memcpy_other)
qed

lemma xrealloc_bytes:
  assumes ok: "dpp_ok b" and nh: "nh = unat (data_ofs b)" and n: "nh + unat (p_size b) + nt \<le> max_block"
    and h'_def: "h' = xrealloc (p_base b) (ucast (p_allocated b)) new (of_nat (nh + unat (p_size b) + nt)) h"
  shows "bytes_at h' (new + of_nat nh) (unat (p_size b)) = pkt_bytes h b"
    and "x \<notin> touched new (nh + unat (p_size b) + nt) \<Longrightarrow> h' x = h x"
proof -
  define len where "len = min (unat (p_allocated b)) (nh + unat (p_size b) + nt)"
  have "unat (min (ucast (p_allocated b)) (of_nat (nh + unat (p_size b) + nt)) :: u64) = len"
    using n by (simp add: len_def min_def word_le_nat_alt unat_of_nat unat_ucast_u16 del: of_nat_add)
  then have h': "h' = memcpy new (p_base b) len h" by (simp add: h'_def xrealloc_def)
  obtain k where k: "len = nh + unat (p_size b) + k" "len \<le> 2 ^ 64"
  proof
    show "len = nh + unat (p_size b) + (len - (nh + unat (p_size b)))" "len \<le> 2 ^ 64"
      using ok nh n by (auto simp: len_def dpp_ok_def)
  qed
  then show "bytes_at h' (new + of_nat nh) (unat (p_size b)) = pkt_bytes h b"
    using memcpy_slice [of nh "unat (p_size b)" k new "p_base b" h] ok
    by (simp add: h' pkt_bytes_def packet_data_at dpp_ok_def nh)
  have "touched new len \<subseteq> touched new (nh + unat (p_size b) + nt)"
    using touched_sub [of 0 len "nh + unat (p_size b) + nt" new] by (simp add: len_def)
  then show "x \<notin> touched new (nh + unat (p_size b) + nt) \<Longrightarrow> h' x = h x"
    unfolding h' by (blast intro: memcpy_other)
qed

definition moved :: "u64 \<Rightarrow> nat \<Rightarrow> nat \<Rightarrow> dp_packet \<Rightarrow> dp_packet" where
  "moved new nh nt b = b\<lparr>p_source := DPBUF_MALLOC, p_base := new, data_ofs := of_nat nh,
     p_allocated := of_nat (nh + unat (p_size b) + nt)\<rparr>"

lemma moved_fields:
  assumes "nh + unat (p_size b) + nt \<le> max_block"
  shows "unat (data_ofs (moved new nh nt b)) = nh" "data_ofs (moved new nh nt b) \<noteq> UINT16_MAX"
    "unat (p_allocated (moved new nh nt b)) = nh + unat (p_size b) + nt"
    "p_size (moved new nh nt b) = p_size b" "p_base (moved new nh nt b) = new" "movable (moved new nh nt b)"
    "l2_pad_size (moved new nh nt b) = l2_pad_size b"
proof -
  show u: "unat (data_ofs (moved new nh nt b)) = nh" using assms by (simp add: moved_def unat_of_nat)
  then show "data_ofs (moved new nh nt b) \<noteq> UINT16_MAX" using assms by auto
  show "unat (p_allocated (moved new nh nt b)) = nh + unat (p_size b) + nt"
    using assms by (simp add: moved_def unat_of_nat del: of_nat_add)
qed (simp_all add: moved_def movable_def)

lemma resize_moves:
  assumes ok: "dpp_ok b" "movable b" "block_ok new" and n: "nh + unat (p_size b) + nt \<le> max_block"
  shows "\<exists>h'. dp_packet_resize_raw new (of_nat nh) (of_nat nt) (b, h) = Some (moved new nh nt b, h') \<and>
    pkt_bytes h' (moved new nh nt b) = pkt_bytes h b \<and>
    (\<forall>x. x \<notin> touched new (nh + unat (p_size b) + nt) \<longrightarrow> h' x = h x)"
proof -
  let ?n = "nh + unat (p_size b) + nt"
  note f = moved_fields [OF n, of new]
  have alloc: "of_nat nh + ucast (p_size b) + of_nat nt = (of_nat ?n :: u64)" by simp
  have to16: "ucast (of_nat ?n :: u64) = (of_nat ?n :: u16)"
    by (rule unsigned_word_eqI [where 'a = nat]) (use n in \<open>simp add: unsigned_ucast_eq unat_of_nat take_bit_eq_mod del: of_nat_add\<close>)
  have set: "(if dp_packet_data c \<noteq> new + of_nat nh then dp_packet_set_data (new + of_nat nh) c else c) = c\<lparr>data_ofs := of_nat nh\<rparr>"
    if c: "p_base c = new" for c
  proof (cases "dp_packet_data c = new + of_nat nh")
    case True
    have "unat (new + of_nat nh) = unat new + nh" using ok(3) n by (simp add: block_ok_def unat_word_ariths unat_of_nat)
    then have "dp_packet_data c \<noteq> 0" using True ok(3) by (metis add_is_0 block_ok_def unat_0 unat_eq_zero)
    then have "new + ucast (data_ofs c) = new + of_nat nh" using True c
      by (simp add: dp_packet_data_def packet_fields split: if_splits)
    then have "unat (ucast (data_ofs c) :: u64) = unat (of_nat nh :: u64)" by simp
    then have "unat (data_ofs c) = unat (of_nat nh :: u16)" using n by (simp add: unat_ucast_u16 unat_of_nat)
    then show ?thesis using True by (simp add: unsigned_word_eqI)
  next
    case False
    then show ?thesis using set_data_at [of c nh] ok(3) n c by (simp add: block_ok_def)
  qed
  have a: "ucast (data_ofs (moved new nh nt b)) = (of_nat nh :: u64)"
    using arg_cong [OF f(1), of "of_nat :: nat \<Rightarrow> u64"] by simp
  have bytes: "pkt_bytes h' (moved new nh nt b) = bytes_at h' (new + of_nat nh) (unat (p_size b))" for h'
    by (simp add: pkt_bytes_def packet_data_at f(2,4,5) a)
  define c where "c = dp_packet_copy_raw b new (of_nat nh) (of_nat nt) h"
  define r where "r = xrealloc (p_base b) (ucast (p_allocated b)) new (of_nat ?n) h"
  define h' where "h' = (if p_source b = DPBUF_MALLOC \<and> of_nat nh = dp_packet_headroom b then r else c)"
  have "dp_packet_resize_raw new (of_nat nh) (of_nat nt) (b, h) = Some (moved new nh nt b, h')"
  proof -
    have id: "b\<lparr>p_source := DPBUF_MALLOC, p_base := x, data_ofs := y, p_allocated := z\<rparr> =
        b\<lparr>p_base := x, data_ofs := y, p_allocated := z\<rparr>" if "p_source b = DPBUF_MALLOC" for x y z
      using that by (cases b) simp
    show ?thesis using ok(2) unfolding dp_packet_resize_raw_def h'_def c_def r_def packet_fields Let_def split_conv alloc to16
      by (elim movableE) (simp_all add: set id moved_def del: of_nat_add split del: if_split)
  qed
  moreover have "bytes_at h' (new + of_nat nh) (unat (p_size b)) = pkt_bytes h b \<and> (\<forall>x. x \<notin> touched new ?n \<longrightarrow> h' x = h x)"
  proof (cases "p_source b = DPBUF_MALLOC \<and> of_nat nh = dp_packet_headroom b")
    case True
    then have "unat (of_nat nh :: u64) = unat (data_ofs b)" using ok(1) by (simp add: unat_headroom dpp_ok_def)
    then have "nh = unat (data_ofs b)" using n by (simp add: unat_of_nat)
    from xrealloc_bytes [OF ok(1) this n r_def] show ?thesis using True by (simp add: h'_def)
  next
    case False
    then have "h' = c" by (auto simp: h'_def)
    with copy_bytes(1) [OF ok(1) n, of new h] copy_bytes(2) [OF ok(1) n, of _ new h]
    show ?thesis by (simp add: c_def)
  qed
  ultimately show ?thesis using bytes by auto
qed

lemma moved_ok:
  assumes "nh + unat (p_size b) + nt \<le> max_block" "block_ok new"
  shows "dpp_ok (moved new nh nt b)"
  using moved_fields [OF assms(1)] assms by (auto simp: dpp_ok_def block_ok_def)

text \<open>The part of memory a packet operation may change: the packet's block and the new block.\<close>

definition block :: "dp_packet \<Rightarrow> u64 set" where
  "block b = touched (p_base b) (unat (p_allocated b))"

lemma prealloc_tailroom_ok:
  assumes ok: "dpp_ok b" "movable b" "block_ok new"
    and n: "unat (data_ofs b) + unat (p_size b) + max (unat sz) 64 \<le> max_block"
  shows "\<exists>b' h'. dp_packet_prealloc_tailroom new sz (b, h) = Some (b', h') \<and> dpp_ok b' \<and> movable b' \<and>
    pkt_bytes h' b' = pkt_bytes h b \<and> data_ofs b' = data_ofs b \<and> p_size b' = p_size b \<and> l2_pad_size b' = l2_pad_size b \<and>
    unat (data_ofs b) + unat (p_size b) + unat sz \<le> unat (p_allocated b') \<and>
    block b' \<subseteq> block b \<union> touched new max_block \<and> (\<forall>x. x \<notin> touched new max_block \<longrightarrow> h' x = h x)"
proof (cases "sz > dp_packet_tailroom b")
  case True
  let ?nh = "unat (data_ofs b)" and ?nt = "max (unat sz) 64"
  have le: "?nh + unat (p_size b) + ?nt \<le> max_block" using n by simp
  have args: "dp_packet_headroom b = of_nat ?nh" "max sz 64 = of_nat ?nt"
    using ok(1) by (auto simp: headroom_ucast dpp_ok_def max_def word_le_nat_alt)
  obtain h' where h': "dp_packet_resize_raw new (of_nat ?nh) (of_nat ?nt) (b, h) = Some (moved new ?nh ?nt b, h')"
    "pkt_bytes h' (moved new ?nh ?nt b) = pkt_bytes h b" "\<forall>x. x \<notin> touched new (?nh + unat (p_size b) + ?nt) \<longrightarrow> h' x = h x"
    using resize_moves [OF ok le, of h] by blast
  note f = moved_fields [OF le, of new]
  have sub: "touched new (?nh + unat (p_size b) + ?nt) \<subseteq> touched new max_block"
    using touched_sub [of 0 _ max_block new] le by simp
  have "data_ofs (moved new ?nh ?nt b) = data_ofs b" by (simp add: moved_def)
  with True h' f moved_ok [OF le ok(3)] sub show ?thesis
    by (auto simp: dp_packet_prealloc_tailroom_def args block_def simp del: of_nat_unat)
next
  case False
  then have "unat sz \<le> unat (p_allocated b) - unat (data_ofs b) - unat (p_size b)"
    using unat_tailroom [OF ok(1)] by (simp add: word_le_nat_alt not_less)
  with False ok show ?thesis by (auto simp: dp_packet_prealloc_tailroom_def dpp_ok_def)
qed

lemma prealloc_headroom_ok:
  assumes ok: "dpp_ok b" "movable b" "block_ok new"
    and n: "max (unat sz) 64 + unat (p_size b) + unat (dp_packet_tailroom b) \<le> max_block"
  shows "\<exists>b' h'. dp_packet_prealloc_headroom new sz (b, h) = Some (b', h') \<and> dpp_ok b' \<and> movable b' \<and>
    pkt_bytes h' b' = pkt_bytes h b \<and> p_size b' = p_size b \<and> l2_pad_size b' = l2_pad_size b \<and> unat sz \<le> unat (data_ofs b') \<and>
    dp_packet_tailroom b' = dp_packet_tailroom b \<and>
    block b' \<subseteq> block b \<union> touched new max_block \<and> (\<forall>x. x \<notin> touched new max_block \<longrightarrow> h' x = h x)"
proof (cases "sz > dp_packet_headroom b")
  case True
  let ?nh = "max (unat sz) 64" and ?nt = "unat (dp_packet_tailroom b)"
  have le: "?nh + unat (p_size b) + ?nt \<le> max_block" using n by simp
  have args: "dp_packet_tailroom b = of_nat ?nt" "max sz 64 = of_nat ?nh"
    by (auto simp: max_def word_le_nat_alt)
  obtain h' where h': "dp_packet_resize_raw new (of_nat ?nh) (of_nat ?nt) (b, h) = Some (moved new ?nh ?nt b, h')"
    "pkt_bytes h' (moved new ?nh ?nt b) = pkt_bytes h b" "\<forall>x. x \<notin> touched new (?nh + unat (p_size b) + ?nt) \<longrightarrow> h' x = h x"
    using resize_moves [OF ok le, of h] by blast
  note f = moved_fields [OF le, of new]
  have sub: "touched new (?nh + unat (p_size b) + ?nt) \<subseteq> touched new max_block"
    using touched_sub [of 0 _ max_block new] le by simp
  have pre: "dp_packet_prealloc_headroom new sz (b, h) = Some (moved new ?nh ?nt b, h')"
    using True h'(1) unfolding dp_packet_prealloc_headroom_def by (simp add: args(2))
  have "unat (dp_packet_tailroom (moved new ?nh ?nt b)) = ?nt"
    using unat_tailroom [OF moved_ok [OF le ok(3)]] f by simp
  then have "dp_packet_tailroom (moved new ?nh ?nt b) = dp_packet_tailroom b" by (rule unsigned_word_eqI)
  with pre h' f moved_ok [OF le ok(3)] sub show ?thesis by (auto simp: block_def)
next
  case False
  then have "unat sz \<le> unat (data_ofs b)"
    using ok(1) unat_headroom [of b] by (simp add: dpp_ok_def word_le_nat_alt not_less)
  with False ok show ?thesis by (auto simp: dp_packet_prealloc_headroom_def)
qed

section \<open>Adding and removing bytes\<close>

definition in_old_or_new :: "dp_packet \<Rightarrow> u64 \<Rightarrow> u64 set" where
  "in_old_or_new b new = block b \<union> touched new max_block"

lemma packet_span:
  assumes "dpp_ok b"
  shows "i + n \<le> unat (p_allocated b) \<Longrightarrow> touched (p_base b + of_nat i) n \<subseteq> block b"
  unfolding block_def by (rule touched_sub)

lemma put_uninit_ok:
  assumes ok: "dpp_ok b" "movable b" "block_ok new"
    and n: "unat (data_ofs b) + unat (p_size b) + max (unat sz) 64 \<le> max_block"
  shows "\<exists>d b' h'. dp_packet_put_uninit new sz (b, h) = Some (d, b', h') \<and> dpp_ok b' \<and> movable b' \<and>
    d = dp_packet_data b' + of_nat (unat (p_size b)) \<and> unat (p_size b') = unat (p_size b) + unat sz \<and>
    data_ofs b' = data_ofs b \<and> l2_pad_size b' = l2_pad_size b \<and>
    bytes_at h' (dp_packet_data b') (unat (p_size b)) = pkt_bytes h b \<and> touched d (unat sz) \<subseteq> block b' \<and>
    block b' \<subseteq> in_old_or_new b new \<and> (\<forall>x. x \<notin> touched new max_block \<longrightarrow> h' x = h x)"
proof -
  obtain c h' where c: "dp_packet_prealloc_tailroom new sz (b, h) = Some (c, h')" "dpp_ok c" "movable c"
    "pkt_bytes h' c = pkt_bytes h b" "data_ofs c = data_ofs b" "p_size c = p_size b" "l2_pad_size c = l2_pad_size b"
    "unat (data_ofs b) + unat (p_size b) + unat sz \<le> unat (p_allocated c)"
    "block c \<subseteq> in_old_or_new b new" "\<forall>x. x \<notin> touched new max_block \<longrightarrow> h' x = h x"
    using prealloc_tailroom_ok [OF ok n, of h] unfolding in_old_or_new_def by blast
  define b' where "b' = dp_packet_set_size (dp_packet_size c + ucast sz) c"
  have sz: "unat (p_size b') = unat (p_size b) + unat sz"
  proof -
    have "unat (ucast sz :: u32) = unat sz" using n by (simp add: unsigned_ucast_eq take_bit_nat_eq_self)
    then show ?thesis using n c(6) by (simp add: b'_def packet_fields unat_word_ariths)
  qed
  have b': "data_ofs b' = data_ofs b" "p_base b' = p_base c" "p_allocated b' = p_allocated c" "p_source b' = p_source c"
    "l2_pad_size b' = l2_pad_size b" "dp_packet_data b' = dp_packet_data c" "block b' = block c"
    using c by (simp_all add: b'_def packet_fields dp_packet_data_def block_def)
  have d: "dp_packet_tail c = dp_packet_data b' + of_nat (unat (p_size b))"
    using c(6) by (simp add: dp_packet_tail_def b' packet_fields)
  have "dpp_ok b'" using c(2,5,8) sz b' by (simp add: dpp_ok_def)
  moreover have "touched (dp_packet_tail c) (unat sz) \<subseteq> block c"
    using packet_span [OF c(2), of "unat (data_ofs b) + unat (p_size b)" "unat sz"] c(2,5,8) d b'
    by (simp add: packet_data_at dpp_ok_def add.assoc)
  moreover have "dp_packet_put_uninit new sz (b, h) = Some (dp_packet_tail c, b', h')"
    by (simp add: dp_packet_put_uninit_def c(1) b'_def)
  ultimately show ?thesis
    using c sz b' d by (intro exI [of _ "dp_packet_tail c"] exI [of _ b'] exI [of _ h']) (simp add: movable_def pkt_bytes_def)
qed

lemma push_uninit_ok:
  assumes ok: "dpp_ok b" "movable b" "block_ok new"
    and n: "max (unat sz) 64 + unat (p_size b) + unat (dp_packet_tailroom b) \<le> max_block"
  shows "\<exists>d b' h'. dp_packet_push_uninit new sz (b, h) = Some (d, b', h') \<and> dpp_ok b' \<and> movable b' \<and>
    d = dp_packet_data b' \<and> unat (p_size b') = unat (p_size b) + unat sz \<and> l2_pad_size b' = l2_pad_size b \<and>
    dp_packet_tailroom b' = dp_packet_tailroom b \<and>
    bytes_at h' (d + of_nat (unat sz)) (unat (p_size b)) = pkt_bytes h b \<and> touched d (unat sz) \<subseteq> block b' \<and>
    block b' \<subseteq> in_old_or_new b new \<and> (\<forall>x. x \<notin> touched new max_block \<longrightarrow> h' x = h x)"
proof -
  obtain c h' where c: "dp_packet_prealloc_headroom new sz (b, h) = Some (c, h')" "dpp_ok c" "movable c"
    "pkt_bytes h' c = pkt_bytes h b" "p_size c = p_size b" "l2_pad_size c = l2_pad_size b"
    "unat sz \<le> unat (data_ofs c)" "dp_packet_tailroom c = dp_packet_tailroom b"
    "block c \<subseteq> in_old_or_new b new" "\<forall>x. x \<notin> touched new max_block \<longrightarrow> h' x = h x"
    using prealloc_headroom_ok [OF ok n, of h] unfolding in_old_or_new_def by blast
  define i where "i = unat (data_ofs c) - unat sz"
  have i: "unat (data_ofs c) = i + unat sz" using c(7) by (simp add: i_def)
  have base: "p_base c \<noteq> 0" "unat (p_base c) + i < 2 ^ 64" "i \<le> max_block"
    using c(2) i by (auto simp: dpp_ok_def)
  have addr: "dp_packet_data c = p_base c + of_nat i + of_nat (unat sz)"
    using c(2) arg_cong [OF i, of "of_nat :: nat \<Rightarrow> u64"] by (simp add: packet_data_at dpp_ok_def add.assoc)
  define b' where "b' = dp_packet_set_size (p_size c + ucast sz) (c\<lparr>data_ofs := of_nat i\<rparr>)"
  have f: "p_base b' = p_base c" "p_allocated b' = p_allocated c" "p_source b' = p_source c" "l2_pad_size b' = l2_pad_size b"
    "block b' = block c" "unat (data_ofs b') = i"
    using c base by (simp_all add: b'_def packet_fields block_def unat_of_nat)
  have ofs: "data_ofs b' \<noteq> UINT16_MAX" using f(6) base(3) by auto
  have d: "dp_packet_data b' = p_base c + of_nat i"
    using arg_cong [OF f(6), of "of_nat :: nat \<Rightarrow> u64"] by (simp add: packet_data_at ofs f(1))
  have set: "dp_packet_set_data (dp_packet_data c - sz) c = c\<lparr>data_ofs := of_nat i\<rparr>"
    using set_data_at [OF base(1,2)] by (simp add: addr)
  have sz: "unat (p_size b') = unat (p_size b) + unat sz"
  proof -
    have "unat (ucast sz :: u32) = unat sz" using n by (simp add: unsigned_ucast_eq take_bit_nat_eq_self)
    then show ?thesis using n c(5) by (simp add: b'_def packet_fields unat_word_ariths)
  qed
  have "dp_packet_push_uninit new sz (b, h) = Some (dp_packet_data b', b', h')"
    by (simp add: dp_packet_push_uninit_def c(1) set b'_def packet_fields Let_def)
  moreover have okb: "dpp_ok b'" using c(2,5) sz f i ofs by (simp add: dpp_ok_def)
  moreover have "dp_packet_tailroom b' = dp_packet_tailroom b"
  proof -
    have "unat (dp_packet_tailroom b') = unat (dp_packet_tailroom c)"
      using unat_tailroom [OF okb] unat_tailroom [OF c(2)] f i sz c(5) by simp
    then show ?thesis using c(8) by (simp add: unsigned_word_eqI)
  qed
  moreover have "touched (dp_packet_data b') (unat sz) \<subseteq> block c"
    using packet_span [OF c(2), of i "unat sz"] c(2) i d by (simp add: dpp_ok_def)
  moreover have "bytes_at h' (dp_packet_data b' + of_nat (unat sz)) (unat (p_size b)) = pkt_bytes h b"
    using c(4,5) d addr by (simp add: pkt_bytes_def)
  ultimately show ?thesis
    using c sz f by (intro exI [of _ "dp_packet_data b'"] exI [of _ b'] exI [of _ h']) (simp add: movable_def)
qed

lemma touched_apart:
  assumes "i + m \<le> n" "n \<le> 2 ^ 64"
  shows "touched a i \<inter> touched (a + of_nat i) m = {}"
proof -
  have "False" if j: "j < i" and k: "k < m" and eq: "a + of_nat j = a + of_nat i + of_nat k" for j k
  proof -
    have "(of_nat j :: u64) = of_nat (i + k)" using eq by (simp add: add.assoc)
    then have "unat (of_nat j :: u64) = unat (of_nat (i + k) :: u64)" by simp
    then show False using j k assms by (simp add: unat_of_nat del: of_nat_add)
  qed
  then show ?thesis unfolding touched_def by blast
qed

text \<open>Filling the room that was made at the tail or at the head.\<close>

lemma put_fill:
  assumes ok: "dpp_ok b" "movable b" "block_ok new" and len: "length v = unat sz"
    and n: "unat (data_ofs b) + unat (p_size b) + max (unat sz) 64 \<le> max_block"
  shows "\<exists>d b' h'. dp_packet_put_uninit new sz (b, h) = Some (d, b', h') \<and> dpp_ok b' \<and> movable b' \<and>
    data_ofs b' = data_ofs b \<and> l2_pad_size b' = l2_pad_size b \<and>
    block b' \<subseteq> in_old_or_new b new \<and> pkt_bytes (write_bytes d v h') b' = pkt_bytes h b @ v \<and> (\<forall>x. x \<notin> touched new max_block \<longrightarrow> h' x = h x) \<and>
    (\<forall>x. x \<notin> in_old_or_new b new \<longrightarrow> write_bytes d v h' x = h x)"
proof -
  obtain d b' h' where r: "dp_packet_put_uninit new sz (b, h) = Some (d, b', h')" "dpp_ok b'" "movable b'"
    "d = dp_packet_data b' + of_nat (unat (p_size b))" "unat (p_size b') = unat (p_size b) + unat sz"
    "data_ofs b' = data_ofs b" "l2_pad_size b' = l2_pad_size b"
    "bytes_at h' (dp_packet_data b') (unat (p_size b)) = pkt_bytes h b" "touched d (unat sz) \<subseteq> block b'"
    "block b' \<subseteq> in_old_or_new b new" "\<forall>x. x \<notin> touched new max_block \<longrightarrow> h' x = h x"
    using put_uninit_ok [OF ok n, of h] by blast
  have "touched (dp_packet_data b') (unat (p_size b)) \<inter> touched d (length v) = {}"
    using touched_apart [of "unat (p_size b)" "unat sz" max_block "dp_packet_data b'"] n by (simp add: r(4) len)
  then have "bytes_at (write_bytes d v h') (dp_packet_data b') (unat (p_size b)) = pkt_bytes h b"
    using bytes_at_write_other r(8) by metis
  moreover have "bytes_at (write_bytes d v h') d (unat sz) = v" using bytes_at_write_bytes [of v] n len by simp
  ultimately have "pkt_bytes (write_bytes d v h') b' = pkt_bytes h b @ v"
    by (simp only: pkt_bytes_def [of _ b'] r(5) bytes_at_add r(4) [symmetric])
  moreover have "\<forall>x. x \<notin> in_old_or_new b new \<longrightarrow> write_bytes d v h' x = h x"
  proof (intro allI impI)
    fix x
    assume x: "x \<notin> in_old_or_new b new"
    then have "x \<notin> touched d (length v)" "x \<notin> touched new max_block" using r(9,10) len by (auto simp: in_old_or_new_def)
    then show "write_bytes d v h' x = h x" using r(11) by (simp add: write_bytes_other)
  qed
  ultimately show ?thesis using r by blast
qed

lemma push_fill:
  assumes ok: "dpp_ok b" "movable b" "block_ok new" and len: "length v = unat sz"
    and n: "max (unat sz) 64 + unat (p_size b) + unat (dp_packet_tailroom b) \<le> max_block"
  shows "\<exists>d b' h'. dp_packet_push_uninit new sz (b, h) = Some (d, b', h') \<and> dpp_ok b' \<and> movable b' \<and>
    d = dp_packet_data b' \<and> dp_packet_tailroom b' = dp_packet_tailroom b \<and> l2_pad_size b' = l2_pad_size b \<and>
    pkt_bytes (write_bytes d v h') b' = v @ pkt_bytes h b \<and> (\<forall>x. x \<notin> touched new max_block \<longrightarrow> h' x = h x) \<and>
    (\<forall>x. x \<notin> in_old_or_new b new \<longrightarrow> write_bytes d v h' x = h x)"
proof -
  obtain d b' h' where r: "dp_packet_push_uninit new sz (b, h) = Some (d, b', h')" "dpp_ok b'" "movable b'"
    "d = dp_packet_data b'" "unat (p_size b') = unat (p_size b) + unat sz" "l2_pad_size b' = l2_pad_size b"
    "dp_packet_tailroom b' = dp_packet_tailroom b"
    "bytes_at h' (d + of_nat (unat sz)) (unat (p_size b)) = pkt_bytes h b" "touched d (unat sz) \<subseteq> block b'"
    "block b' \<subseteq> in_old_or_new b new" "\<forall>x. x \<notin> touched new max_block \<longrightarrow> h' x = h x"
    using push_uninit_ok [OF ok n, of h] by blast
  have "touched (d + of_nat (unat sz)) (unat (p_size b)) \<inter> touched d (length v) = {}"
    using touched_apart [of "unat sz" "unat (p_size b)" max_block d] n by (simp add: len Int_commute)
  then have "bytes_at (write_bytes d v h') (d + of_nat (unat sz)) (unat (p_size b)) = pkt_bytes h b"
    using bytes_at_write_other r(8) by metis
  moreover have "bytes_at (write_bytes d v h') d (unat sz) = v" using bytes_at_write_bytes [of v] n len by simp
  ultimately have "pkt_bytes (write_bytes d v h') b' = v @ pkt_bytes h b"
    by (simp only: pkt_bytes_def [of _ b'] r(5) add.commute [of "unat (p_size b)"] bytes_at_add r(4) [symmetric])
  moreover have "\<forall>x. x \<notin> in_old_or_new b new \<longrightarrow> write_bytes d v h' x = h x"
  proof (intro allI impI)
    fix x
    assume x: "x \<notin> in_old_or_new b new"
    then have "x \<notin> touched d (length v)" "x \<notin> touched new max_block" using r(9,10) len by (auto simp: in_old_or_new_def)
    then show "write_bytes d v h' x = h x" using r(11) by (simp add: write_bytes_other)
  qed
  ultimately show ?thesis using r by blast
qed

lemma put_appends:
  assumes ok: "dpp_ok b" "movable b" "block_ok new"
    and n: "unat (data_ofs b) + unat (p_size b) + max (unat sz) 64 \<le> max_block"
    and p: "touched p (unat sz) \<inter> touched new max_block = {}"
  shows "\<exists>d b' h'. dp_packet_put new p sz (b, h) = Some (d, b', h') \<and> dpp_ok b' \<and> movable b' \<and>
    data_ofs b' = data_ofs b \<and> l2_pad_size b' = l2_pad_size b \<and> block b' \<subseteq> in_old_or_new b new \<and>
    pkt_bytes h' b' = pkt_bytes h b @ bytes_at h p (unat sz) \<and> (\<forall>x. x \<notin> in_old_or_new b new \<longrightarrow> h' x = h x)"
proof -
  obtain d b' h' where r: "dp_packet_put_uninit new sz (b, h) = Some (d, b', h')" "dpp_ok b'" "movable b'"
    "data_ofs b' = data_ofs b" "l2_pad_size b' = l2_pad_size b"
    "pkt_bytes (write_bytes d (bytes_at h p (unat sz)) h') b' = pkt_bytes h b @ bytes_at h p (unat sz)"
    "\<forall>x. x \<notin> touched new max_block \<longrightarrow> h' x = h x"
    "\<forall>x. x \<notin> in_old_or_new b new \<longrightarrow> write_bytes d (bytes_at h p (unat sz)) h' x = h x"
    "block b' \<subseteq> in_old_or_new b new"
    using put_fill [OF ok _ n, of "bytes_at h p (unat sz)" h] by auto
  have "bytes_at h' p (unat sz) = bytes_at h p (unat sz)" using r(7) p by (intro bytes_at_cong) blast
  then show ?thesis using r by (simp add: dp_packet_put_def memcpy_def)
qed

lemma push_prepends:
  assumes ok: "dpp_ok b" "movable b" "block_ok new"
    and n: "max (unat sz) 64 + unat (p_size b) + unat (dp_packet_tailroom b) \<le> max_block"
    and p: "touched p (unat sz) \<inter> touched new max_block = {}"
  shows "\<exists>d b' h'. dp_packet_push new p sz (b, h) = Some (d, b', h') \<and> dpp_ok b' \<and> movable b' \<and> d = dp_packet_data b' \<and>
    pkt_bytes h' b' = bytes_at h p (unat sz) @ pkt_bytes h b \<and> (\<forall>x. x \<notin> in_old_or_new b new \<longrightarrow> h' x = h x)"
proof -
  obtain d b' h' where r: "dp_packet_push_uninit new sz (b, h) = Some (d, b', h')" "dpp_ok b'" "movable b'"
    "d = dp_packet_data b'"
    "pkt_bytes (write_bytes d (bytes_at h p (unat sz)) h') b' = bytes_at h p (unat sz) @ pkt_bytes h b"
    "\<forall>x. x \<notin> touched new max_block \<longrightarrow> h' x = h x"
    "\<forall>x. x \<notin> in_old_or_new b new \<longrightarrow> write_bytes d (bytes_at h p (unat sz)) h' x = h x"
    using push_fill [OF ok _ n, of "bytes_at h p (unat sz)" h] by auto
  have "bytes_at h' p (unat sz) = bytes_at h p (unat sz)" using r(6) p by (intro bytes_at_cong) blast
  then show ?thesis using r by (simp add: dp_packet_push_def memcpy_def)
qed

lemma push_zeros_prepends:
  assumes ok: "dpp_ok b" "movable b" "block_ok new"
    and n: "max (unat sz) 64 + unat (p_size b) + unat (dp_packet_tailroom b) \<le> max_block"
  shows "\<exists>b' h'. dp_packet_push_zeros new sz (b, h) = Some (dp_packet_data b', b', h') \<and> dpp_ok b' \<and> movable b' \<and>
    pkt_bytes h' b' = replicate (unat sz) 0 @ pkt_bytes h b \<and> (\<forall>x. x \<notin> in_old_or_new b new \<longrightarrow> h' x = h x)"
  using push_fill [OF ok _ n, of "replicate (unat sz) 0" h] by (auto simp: dp_packet_push_zeros_def)

lemma bytes_at_drop: "k \<le> n \<Longrightarrow> bytes_at h (a + of_nat k) (n - k) = drop k (bytes_at h a n)"
  using bytes_at_add [of h a k "n - k"] by simp

lemma shrink_head:
  assumes ok: "dpp_ok b" and k: "k \<le> unat (p_size b)"
  defines "b' \<equiv> dp_packet_set_size (p_size b - of_nat k) (dp_packet_set_data (dp_packet_data b + of_nat k) b)"
  shows "dpp_ok b'" "pkt_bytes h b' = drop k (pkt_bytes h b)" "p_source b' = p_source b" "l2_pad_size b' = l2_pad_size b"
    "dp_packet_data b' = dp_packet_data b + of_nat k"
proof -
  let ?i = "unat (data_ofs b) + k"
  have i: "?i \<le> max_block" "unat (p_base b) + ?i < 2 ^ 64" "p_base b \<noteq> 0" using ok k by (auto simp: dpp_ok_def)
  have e: "dp_packet_data b + of_nat k = p_base b + of_nat ?i" using ok by (simp add: packet_data_at dpp_ok_def)
  have b': "b' = b\<lparr>data_ofs := of_nat ?i, p_size := p_size b - of_nat k\<rparr>"
    unfolding b'_def e set_data_at [OF i(3,2)] by (simp add: packet_fields del: of_nat_add)
  have u: "unat (data_ofs b') = ?i" using i by (simp add: b' unat_of_nat del: of_nat_add)
  have "(of_nat k :: u32) \<le> p_size b" using k by (simp add: word_le_nat_alt unat_of_nat)
  moreover have "unat (of_nat k :: u32) = k" using k unsigned_less [of "p_size b", where 'a = nat] by (simp add: unat_of_nat)
  ultimately have s: "unat (p_size b') = unat (p_size b) - k" by (simp add: b' unat_sub)
  show fs: "p_source b' = p_source b" "l2_pad_size b' = l2_pad_size b" by (simp_all add: b')
  have ofs: "data_ofs b' \<noteq> UINT16_MAX" using u i(1) by auto
  show "dpp_ok b'" using ok k u s ofs by (simp add: dpp_ok_def) (simp add: b')
  have a: "ucast (data_ofs b') = (of_nat ?i :: u64)" using arg_cong [OF u, of "of_nat :: nat \<Rightarrow> u64"] by simp
  have base: "p_base b' = p_base b" by (simp add: b')
  show d: "dp_packet_data b' = dp_packet_data b + of_nat k"
    using ok by (simp add: packet_data_at ofs a base dpp_ok_def)
  show "pkt_bytes h b' = drop k (pkt_bytes h b)"
    by (simp add: pkt_bytes_def d s bytes_at_drop [OF k])
qed

lemma pull_exact:
  assumes ok: "dpp_ok b" and pad: "unat (l2_pad_size b) \<le> unat (p_size b)"
  shows "if unat sz \<le> unat (p_size b) - unat (l2_pad_size b)
    then \<exists>b'. dp_packet_pull sz b = Some (dp_packet_data b, b') \<and> dpp_ok b' \<and> pkt_bytes h b' = drop (unat sz) (pkt_bytes h b)
    else dp_packet_pull sz b = None \<and> dp_packet_try_pull sz b = Some (0, b)"
proof -
  let ?d = "dp_packet_size b - ucast (dp_packet_l2_pad_size b)"
  have "unat (ucast (l2_pad_size b) :: u32) = unat (l2_pad_size b)"
    using unsigned_less [of "l2_pad_size b", where 'a = nat] by (simp add: unsigned_ucast_eq take_bit_nat_eq_self)
  then have "unat ?d = unat (p_size b) - unat (l2_pad_size b)"
    using pad by (simp add: packet_fields dp_packet_l2_pad_size_def unat_sub word_le_nat_alt)
  then have le: "sz \<le> ucast ?d \<longleftrightarrow> unat sz \<le> unat (p_size b) - unat (l2_pad_size b)"
    by (simp add: word_le_nat_alt unat_ucast_u32)
  show ?thesis
  proof (cases "unat sz \<le> unat (p_size b) - unat (l2_pad_size b)")
    case True
    have w: "of_nat (unat sz) = (ucast sz :: u32)" "of_nat (unat sz) = sz" by simp_all
    have "dp_packet_pull sz b = Some (dp_packet_data b,
        dp_packet_set_size (p_size b - of_nat (unat sz)) (dp_packet_set_data (dp_packet_data b + of_nat (unat sz)) b))"
      using True le unfolding dp_packet_pull_def Let_def w by (simp add: packet_fields dp_packet_set_data_def)
    moreover have "unat sz \<le> unat (p_size b)" using True by simp
    ultimately show ?thesis using True shrink_head [OF ok, of "unat sz"] by (simp only: if_True) blast
  next
    case False
    then show ?thesis using le by (simp add: dp_packet_pull_def dp_packet_try_pull_def)
  qed
qed

section \<open>Hexadecimal digits\<close>

definition hex_digit :: "nat \<Rightarrow> char" where
  "hex_digit n = char_of (if n < 10 then 48 + n else 87 + n)"

definition hex_of_byte :: "u8 \<Rightarrow> string" where
  "hex_of_byte v = [hex_digit (unat v div 16), hex_digit (unat v mod 16)]"

text \<open>Bytes, each with the spaces before it.\<close>

definition hex_text :: "(string \<times> u8) list \<Rightarrow> string" where
  "hex_text items = concat (map (\<lambda>(ws, v). ws @ hex_of_byte v) items)"

lemma of_char_int: "(of_char (char_of (k :: nat)) :: int) = int (k mod 256)"
  by (metis of_char_of of_nat_of_char)

lemma hexit_value_digit: "n < 16 \<Longrightarrow> hexit_value (hex_digit n) = int n"
  by (auto simp: hexit_value_def hex_digit_def Let_def of_char_int)

lemma hexits_value_byte: "hexits_value (hex_of_byte v @ s) 2 = (ucast v, True)"
proof -
  have "of_nat (unat v div 16) * 16 + of_nat (unat v mod 16) = (of_nat (unat v) :: u64)"
    by (metis (no_types) div_mult_mod_eq of_nat_add of_nat_mult of_nat_numeral)
  moreover have "unat v div 16 < 16" using unsigned_less [of v, where 'a = nat] by simp
  ultimately show ?thesis
    by (simp add: hexits_value_def hex_of_byte_def upt_rec char_at_def hexit_value_digit push_bit_eq_mult)
qed

lemma hex_of_byte_no_space: "dropWhile hex_space (hex_of_byte v @ s) = hex_of_byte v @ s"
proof -
  have "\<not> hex_space (hex_digit n)" if "n < 16" for n
  proof -
    have "hexit_value (hex_digit n) \<ge> 0" using that by (simp add: hexit_value_digit)
    then show ?thesis by (auto simp: hex_space_def hexit_value_def)
  qed
  moreover have "unat v div 16 < 16" using unsigned_less [of v, where 'a = nat] by simp
  ultimately show ?thesis by (simp add: hex_of_byte_def)
qed

lemma put_hex_loop_bytes:
  assumes "dpp_ok b" "movable b" "bp \<notin> block b"
    and alloc: "\<And>s. block_ok (alloc s) \<and> bp \<notin> touched (alloc s) max_block"
    and "unat (data_ofs b) + unat (p_size b) + length items + 64 \<le> max_block"
    and "\<forall>(ws, v) \<in> set items. list_all hex_space ws" and rest: "\<not> snd (hexits_value (dropWhile hex_space s) 2)"
  shows "\<exists>b' h'. put_hex_loop alloc bp (hex_text items @ s) (b, h) = Some (dropWhile hex_space s, b', h') \<and>
    dpp_ok b' \<and> movable b' \<and> pkt_bytes h' b' = pkt_bytes h b @ map snd items"
  using assms(1,2,3,5,6)
proof (induction items arbitrary: b h)
  case Nil
  then show ?case using rest
    by (subst put_hex_loop.simps) (auto simp: hex_text_def Let_def split: prod.splits)
next
  case (Cons item items)
  obtain ws v where item: "item = (ws, v)" by (cases item)
  define t where "t = hex_of_byte v @ hex_text items @ s"
  define h0 where "h0 = h(bp := v)"
  have ws: "dropWhile hex_space (hex_text (item # items) @ s) = t"
  proof -
    have "dropWhile hex_space (ws @ t) = dropWhile hex_space t"
      using Cons.prems(5) by (intro dropWhile_append2) (auto simp: item list_all_iff)
    then show ?thesis using hex_of_byte_no_space by (simp add: hex_text_def item t_def)
  qed
  have bytes: "bytes_at h0 bp (unat (1 :: u64)) = [v]" by (simp add: bytes_at_def h0_def)
  have keep: "pkt_bytes h0 b = pkt_bytes h b"
  proof -
    have "touched (dp_packet_data b) (unat (p_size b)) \<subseteq> block b"
      using packet_span [OF Cons.prems(1), of "unat (data_ofs b)" "unat (p_size b)"] Cons.prems(1)
      by (simp add: packet_data_at dpp_ok_def)
    then show ?thesis using Cons.prems(3) unfolding pkt_bytes_def h0_def by (intro bytes_at_cong) auto
  qed
  have p: "touched bp (unat (1 :: u64)) \<inter> touched (alloc t) max_block = {}"
    using alloc [of t] by (simp add: touched_Suc)
  have n: "unat (data_ofs b) + unat (p_size b) + max (unat (1 :: u64)) 64 \<le> max_block" using Cons.prems(4) by simp
  obtain d b' h' where put: "dp_packet_put (alloc t) bp 1 (b, h0) = Some (d, b', h')" "dpp_ok b'" "movable b'"
    "data_ofs b' = data_ofs b" "block b' \<subseteq> in_old_or_new b (alloc t)" "pkt_bytes h' b' = pkt_bytes h b @ [v]"
    using put_appends [OF Cons.prems(1,2) _ n p, of h0] alloc [of t] unfolding keep bytes by blast
  have "length (pkt_bytes h' b') = unat (p_size b) + 1" unfolding put(6) by simp
  then have n': "unat (data_ofs b') + unat (p_size b') + length items + 64 \<le> max_block" using Cons.prems(4) put(4) by simp
  have bp: "bp \<notin> block b'" using put(5) Cons.prems(3) alloc [of t] by (auto simp: in_old_or_new_def)
  have "\<forall>(ws, v) \<in> set items. list_all hex_space ws" using Cons.prems(5) by simp
  then obtain c g where "put_hex_loop alloc bp (hex_text items @ s) (b', h') = Some (dropWhile hex_space s, c, g)"
    "dpp_ok c" "movable c" "pkt_bytes g c = pkt_bytes h' b' @ map snd items"
    using Cons.IH [OF put(2,3) bp n', of h'] by blast
  moreover have "put_hex_loop alloc bp (hex_text (item # items) @ s) (b, h) = put_hex_loop alloc bp (hex_text items @ s) (b', h')"
  proof -
    have "hexits_value t 2 = (ucast v, True)" "drop 2 t = hex_text items @ s"
      by (simp add: t_def hexits_value_byte) (simp add: t_def hex_of_byte_def)
    moreover have "ucast (ucast v :: u64) = v" by (rule bit_word_eqI) (simp add: bit_simps)
    ultimately show ?thesis using put(1) by (subst put_hex_loop.simps) (simp add: ws Let_def h0_def)
  qed
  ultimately show ?case using put(6) by (simp add: item)
qed

section \<open>Batches\<close>

definition batch_ok :: "dp_packet_batch \<Rightarrow> bool" where
  "batch_ok batch \<longleftrightarrow> length (packets batch) = 32 \<and> bcount batch \<le> 32"

lemma length_batch_for_each: "length (batch_for_each batch) = unat (bcount batch)"
  by (simp add: batch_for_each_def dp_packet_batch_size_def)

lemma batch_for_each_take:
  "batch_ok batch \<Longrightarrow> batch_for_each batch = take (unat (bcount batch)) (packets batch)"
  by (auto simp: batch_for_each_def dp_packet_batch_size_def batch_ok_def word_le_nat_alt intro!: nth_equalityI)

text \<open>Adding below the limit appends.\<close>

lemma batch_add_appends:
  assumes ok: "batch_ok batch" and lim: "bcount batch < limit" "limit \<le> 32"
  shows "batch_ok (snd (dp_packet_batch_add_raw p limit batch))"
    "batch_for_each (snd (dp_packet_batch_add_raw p limit batch)) = batch_for_each batch @ [p]"
    "unat (bcount (snd (dp_packet_batch_add_raw p limit batch))) = Suc (unat (bcount batch))"
    "unat (bcount batch) < i \<Longrightarrow> packets (snd (dp_packet_batch_add_raw p limit batch)) ! i = packets batch ! i"
proof -
  let ?b = "snd (dp_packet_batch_add_raw p limit batch)"
  have n: "unat (bcount batch) < 32" using lim by (simp add: word_le_nat_alt word_less_nat_alt)
  show c: "unat (bcount ?b) = Suc (unat (bcount batch))"
    using lim n by (simp add: dp_packet_batch_add_raw_def unat_word_ariths)
  show "packets ?b ! i = packets batch ! i" if "unat (bcount batch) < i"
    using that lim by (simp add: dp_packet_batch_add_raw_def)
  have ps: "packets ?b = (packets batch)[unat (bcount batch) := p]" using lim by (simp add: dp_packet_batch_add_raw_def)
  show ok': "batch_ok ?b" using ok c n ps by (simp add: batch_ok_def word_le_nat_alt)
  show "batch_for_each ?b = batch_for_each batch @ [p]"
    using ok n unfolding batch_for_each_take [OF ok'] batch_for_each_take [OF ok] c ps
    by (simp add: batch_ok_def take_Suc_conv_app_nth)
qed

lemma refill_loop_filters:
  assumes "batch_ok batch" "n \<le> 32" "j \<le> n" "unat (bcount batch) \<le> j"
    and "\<And>i. j \<le> i \<Longrightarrow> i < n \<Longrightarrow> packets batch ! i = ps ! i"
  shows "batch_ok (refill_loop keep [j..<n] batch) \<and>
    batch_for_each (refill_loop keep [j..<n] batch) = batch_for_each batch @ filter keep (map ((!) ps) [j..<n])"
  using assms
proof (induction "n - j" arbitrary: j batch)
  case (Suc k)
  let ?p = "packets batch ! j"
  have j: "j < n" "[j..<n] = j # [Suc j..<n]" using Suc(2) by (simp_all add: upt_rec)
  have p: "?p = ps ! j" using Suc.prems(5) j by simp
  define c where "c = (if keep ?p then snd (dp_packet_batch_refill ?p (of_nat j) batch) else batch)"
  have lim: "bcount batch < min 32 (of_nat j + 1)" "min 32 (of_nat j + 1 :: u64) \<le> 32"
  proof -
    have "unat (of_nat j + 1 :: u64) = Suc j" using j Suc.prems(2) by (simp add: unat_word_ariths unat_of_nat)
    then show "bcount batch < min 32 (of_nat j + 1)"
      using Suc.prems(2,4) j by (simp add: min_def word_less_nat_alt)
  qed simp
  note add = batch_add_appends [OF Suc.prems(1) lim, where p = ?p]
  have c: "batch_ok c" "batch_for_each c = batch_for_each batch @ (if keep ?p then [?p] else [])" "unat (bcount c) \<le> Suc j"
    "\<And>i. Suc j \<le> i \<Longrightarrow> packets c ! i = packets batch ! i"
    using add Suc.prems(1,4) by (auto simp: c_def dp_packet_batch_refill_def)
  have "batch_ok (refill_loop keep [Suc j..<n] c) \<and>
    batch_for_each (refill_loop keep [Suc j..<n] c) = batch_for_each c @ filter keep (map ((!) ps) [Suc j..<n])"
    using Suc.prems(2,5) j c Suc(2) by (intro Suc.hyps(1)) auto
  moreover have "refill_loop keep [j..<n] batch = refill_loop keep [Suc j..<n] c" by (simp add: j(2) c_def Let_def)
  ultimately show ?case using c(2) p by (simp add: j(2))
qed simp

lemma for_packets_distinct:
  "distinct (batch_for_each batch) \<Longrightarrow>
     for_packets f batch ps p = (if p \<in> set (batch_for_each batch) then f (ps p) else ps p)"
proof -
  have "distinct xs \<Longrightarrow> fold (\<lambda>p ps. ps(p := f (ps p))) xs ps p = (if p \<in> set xs then f (ps p) else ps p)" for xs
    by (induction xs arbitrary: ps) auto
  then show "distinct (batch_for_each batch) \<Longrightarrow> ?thesis" by (simp add: for_packets_def)
qed

lemma cutlen_send_len: "dp_packet_get_send_len (dp_packet_set_cutlen m b) = min (p_size b) (max m ETH_HEADER_LEN)"
  by (auto simp: dp_packet_get_send_len_def dp_packet_set_cutlen_def dp_packet_get_cutlen_def packet_fields Let_def
    min_def max_def)

section \<open>Properties\<close>


definition sample_packet :: dp_packet where
  "sample_packet = \<lparr>p_base = 0x1000, p_allocated = 128, data_ofs = 16, p_size = 40, ol_flags = 0, rss_hash = 0, flow_mark = 0,
     p_source = DPBUF_MALLOC, l2_pad_size = 0, l2_5_ofs = UINT16_MAX, l3_ofs = UINT16_MAX, l4_ofs = UINT16_MAX, cutlen = 0,
     packet_type = PT_ETH\<rparr>"

lemma sample_packet_ok: "dpp_ok sample_packet" "movable sample_packet" "block_ok 0x100000" "dp_packet_tailroom sample_packet = 72"
  by (simp_all add: dpp_ok_def movable_def block_ok_def sample_packet_def dp_packet_tailroom_def dp_packet_end_def
    dp_packet_tail_def dp_packet_data_def packet_fields)

lemma sample_packet_fields:
  "unat (data_ofs sample_packet) = 16" "unat (p_size sample_packet) = 40" "unat (l2_pad_size sample_packet) = 0"
  by (simp_all add: sample_packet_def)

lemma sample_apart: "touched 0x8000 (unat (41 :: u64)) \<inter> touched 0x100000 max_block = {}"
  by (auto simp: touched_interval)


text \<open>(C34) Bytes printed as pairs of hexadecimal digits, with any white space between the pairs, are read back:
  \<^verbatim>\<open>dp_packet_put_hex\<close> returns, appends exactly these bytes, and gives the rest of the text and the number of bytes.\<close>

theorem put_hex_roundtrip:
  assumes "dpp_ok b" "movable b" "bp \<notin> block b" "\<And>s. block_ok (alloc s) \<and> bp \<notin> touched (alloc s) max_block"
    and "unat (data_ofs b) + unat (p_size b) + length items + 64 \<le> max_block"
    and "\<forall>(ws, v) \<in> set items. list_all hex_space ws" "\<not> snd (hexits_value (dropWhile hex_space s) 2)"
  shows "\<exists>b' h'. dp_packet_put_hex alloc bp (hex_text items @ s) (b, h) =
      Some (dropWhile hex_space s, of_nat (length items), b', h') \<and>
    dpp_ok b' \<and> pkt_bytes h' b' = pkt_bytes h b @ map snd items"
proof -
  obtain b' h' where r: "put_hex_loop alloc bp (hex_text items @ s) (b, h) = Some (dropWhile hex_space s, b', h')"
    "dpp_ok b'" "pkt_bytes h' b' = pkt_bytes h b @ map snd items"
    using put_hex_loop_bytes [where alloc = alloc and h = h, OF assms] by blast
  have "unat (p_size b') = unat (p_size b) + length items" using arg_cong [OF r(3), of length] by simp
  then have "(of_nat (unat (p_size b')) :: u64) = of_nat (unat (p_size b)) + of_nat (length items)" by (simp only: of_nat_add)
  then have "ucast (p_size b') - ucast (p_size b) = (of_nat (length items) :: u64)" by simp
  then show ?thesis using r by (simp add: dp_packet_put_hex_def packet_fields)
qed

theorem put_hex_roundtrip_witness:
  "\<exists>b' h'. dp_packet_put_hex (\<lambda>_. 0x100000) 0x8000 ''de ad!'' (sample_packet, \<lambda>_. 0) = Some (''!'', 2, b', h') \<and>
     pkt_bytes h' b' = replicate 40 0 @ [0xde, 0xad]"
proof -
  have printed: "hex_text [([], 0xde), ('' '', 0xad)] @ ''!'' = ''de ad!''"
    by code_simp
  have bp: "0x8000 \<notin> block sample_packet" "\<And>s :: string. block_ok 0x100000 \<and> 0x8000 \<notin> touched 0x100000 max_block"
    using sample_packet_ok(3) by (simp_all add: block_def sample_packet_def touched_interval)
  have stop: "dropWhile hex_space ''!'' = ''!''" "\<not> snd (hexits_value ''!'' 2)"
    by (simp_all add: hex_space_def hexits_value_def upt_rec char_at_def hexit_value_def)
  have zeros: "pkt_bytes (\<lambda>_. 0) sample_packet = replicate 40 0"
    by (simp add: pkt_bytes_def bytes_at_def sample_packet_def map_replicate_const)
  show ?thesis
    using put_hex_roundtrip [where alloc = "\<lambda>_. 0x100000" and items = "[([], 0xde), ('' '', 0xad)]" and s = "''!''" and h = "\<lambda>_. 0",
      OF sample_packet_ok(1,2) bp] stop
    by (auto simp: printed zeros sample_packet_fields hex_space_def)
qed

text \<open>(C35) Going through a batch while refilling it with the packets to keep leaves exactly these, in their order: the
  writes at the front never overtake the reads.  Applying the cuts of a batch leaves a packet that was to be cut to a length
  with this length, but with no less than an Ethernet header and no more than it had.\<close>

theorem batch_refill_filters:
  assumes "batch_ok batch" "distinct (batch_for_each batch)" "p \<in> set (batch_for_each batch)" "trunc batch"
  shows "batch_ok (batch_refill_for_each keep batch) \<and>
    batch_for_each (batch_refill_for_each keep batch) = filter keep (batch_for_each batch) \<and>
    p_size (snd (dp_packet_batch_apply_cutlen (batch, ps(p := dp_packet_set_cutlen m (ps p)))) p) =
      min (p_size (ps p)) (max m ETH_HEADER_LEN)"
proof -
  let ?n = "unat (bcount batch)" and ?b = "dp_packet_batch_refill_init batch"
  have "batch_ok ?b" "?n \<le> 32" "unat (bcount ?b) \<le> 0" "packets ?b = packets batch"
    using assms(1) by (simp_all add: batch_ok_def dp_packet_batch_refill_init_def word_le_nat_alt)
  moreover have "batch_for_each ?b = []" by (simp add: batch_for_each_def dp_packet_batch_size_def dp_packet_batch_refill_init_def)
  moreover have "p_size (snd (dp_packet_batch_apply_cutlen (batch, ps(p := dp_packet_set_cutlen m (ps p)))) p) =
      min (p_size (ps p)) (max m ETH_HEADER_LEN)"
    using assms(2-4) by (simp add: dp_packet_batch_apply_cutlen_def for_packets_distinct cutlen_send_len
      dp_packet_reset_cutlen_def packet_fields)
  ultimately show ?thesis
    using refill_loop_filters [of ?b ?n 0 "packets batch" keep]
    by (simp add: batch_refill_for_each_def dp_packet_batch_size_def batch_for_each_def [of batch])
qed

definition sample_batch :: dp_packet_batch where
  "sample_batch = \<lparr>bcount = 3, trunc = True, do_not_steal = False, packets = [10, 20, 30] @ replicate 29 0\<rparr>"

theorem batch_refill_filters_witness:
  "batch_for_each (batch_refill_for_each (\<lambda>p. p \<noteq> 20) sample_batch) = [10, 30] \<and>
   p_size (snd (dp_packet_batch_apply_cutlen (sample_batch, (\<lambda>_. sample_packet)(30 := dp_packet_set_cutlen 20 sample_packet))) 30) = 20"
proof -
  have "batch_for_each sample_batch = [10, 20, 30]" "batch_ok sample_batch" "trunc sample_batch"
    by (simp_all add: batch_for_each_def dp_packet_batch_size_def sample_batch_def batch_ok_def upt_rec)
  then show ?thesis
    using batch_refill_filters [of sample_batch 30 "\<lambda>p. p \<noteq> 20" "\<lambda>_. sample_packet" 20] by (simp add: sample_packet_def)
qed

end
