(* ===== verification/Spec2Isabelle.thy ===== *)
theory Spec2Isabelle
  imports Ubpf_Load Ubpf_Alu Ubpf_Hashmap Ubpf_Array Ubpf_Bf Ubpf_Countmin Dp_Packet
begin

text \<open>
  A verification of the packet-program engine of P4rt-OVS, an Open vSwitch in which packets are processed by
  loaded eBPF programs.  The code is under \<^verbatim>\<open>src/p4rt-ovs/lib/bpf/\<close>, with the list library of
  \<^verbatim>\<open>src/p4rt-ovs/include/openvswitch/list.h\<close>.

  \<^bold>\<open>The program.\<close>  A virtual machine (\<^verbatim>\<open>struct ubpf_vm\<close>) holds a program, a table of external functions and a table of
  maps.  \<^verbatim>\<open>ubpf_load\<close> accepts a program only after the three stages of the verifier \<^verbatim>\<open>validate\<close>: the check of
  every instruction, a depth-first search of the control-flow graph that refuses loops, and an abstract interpretation
  that follows every path with a type and a range for each register.  \<^verbatim>\<open>ubpf_exec\<close> interprets the program.  Programs
  keep state in maps of four types, an array, a hash map, a Bloom filter and a count-min sketch; all but the array hash their
  keys with Bob Jenkins' \<^verbatim>\<open>lookup3.c\<close>, and the hash map keeps its elements in doubly linked lists.

  \<^bold>\<open>The model.\<close>  Machine integers are words of their width.  Memory is a function from 64-bit addresses to bytes, read and
  written in little-endian order; the host is a 64-bit x86.  Undefined behaviour and traps of the C code are outcomes of
  the model of their own (a \<open>fault\<close>, a \<open>Crash\<close>, or \<open>None\<close>).  Addresses that \<^verbatim>\<open>xmalloc\<close> returns, the clock, and the contents of
  uninitialised registers and variables are arguments, so the theorems hold for all of them.  Error messages are
  values of the types \<open>verror\<close>, \<open>aerror\<close> and \<open>load_error\<close>.

  \<^bold>\<open>The theories.\<close>

  \<^item> \<open>Ubpf_Prelude\<close>: the word types, memory, loads and stores, and what is shared about lists and words.
  \<^item> \<open>Ebpf\<close>: the instruction format and opcodes of \<^verbatim>\<open>ebpf.h\<close>.  \<open>Ubpf_Vm\<close>: \<^verbatim>\<open>struct ubpf_vm\<close>, and the registration and lookup of
    functions and maps; a lookup finds what was registered.
  \<^item> \<open>Ubpf_Exec\<close>: the interpreter \<^verbatim>\<open>ubpf_exec\<close>, one instruction (\<open>exec_step\<close>) and the loop, with
    \<^verbatim>\<open>bounds_check\<close>.  \<open>Ubpf_Alu\<close>: the 32-bit instructions are 32-bit word arithmetic, and byte swaps.
  \<^item> \<open>Ubpf_Validate\<close>, \<open>Ubpf_Cfg\<close>, \<open>Ubpf_Access\<close>: the three stages of the verifier.  The first two are shown to be exact: they
    accept the well-formed programs, and those without a cycle.  The third is shown to return and to explore all
    abstract paths.  \<open>Ubpf_Range\<close> has the updates of register ranges, with the soundness of the refinement by jumps,
    of the 64-bit addition and of the bitwise bounds, and counterexamples for the updates that are unsound.
  \<^item> \<open>Ubpf_Run\<close>: what accepted programs do at run time: termination and the memory frame.  \<open>Ubpf_Load\<close>: the byte format,
    \<^verbatim>\<open>validate\<close> and \<^verbatim>\<open>ubpf_load\<close>.
  \<^item> \<open>Lookup3\<close>: the hash functions.  The variants that read aligned words equal a byte-wise reference (interface
    \<open>block_reader\<close>), and the mixing steps are reversible.
  \<^item> \<open>Ovs_List\<close>: the circular lists on a store of nodes, as sequences (interface \<open>node_list\<close>).
  \<^item> \<open>Ubpf_Map\<close>, \<open>Ubpf_Hashmap\<close>, \<open>Ubpf_Array\<close>: map definitions and copying, and two of the map types; the hash map refines a finite
    map from keys to values, the array a sequence of entries.
  \<^item> \<open>Ubpf_Sketch\<close>, \<open>Ubpf_Bf\<close>, \<open>Ubpf_Countmin\<close>: the two approximate map types, over the interfaces \<open>growing_set\<close> and \<open>count_sketch\<close>:
    the Bloom filter has no false negatives, the count-min sketch never underestimates.

  \<^bold>\<open>Loops and fuel.\<close>  Loops with a counter are functions with a termination proof.  Loops that follow pointers or a program are
  partial functions whose value \<open>None\<close> means that they do not return; for each of them it is shown that they
  return where the code relies on it: the interpreter on loaded programs, the verifier on programs that the
  stages before accept, and the list loops on well-formed lists.  The only fuel is that of \<open>exec_bounded\<close>, the number
  of instructions a run may execute; a program accepted by the verifier never needs more than it has instructions.

  \<^bold>\<open>Not modelled.\<close>  The just-in-time compiler (\<^verbatim>\<open>ubpf_jit_x86_64.c\<close>), whose meaning needs a semantics of x86 machine code; the ELF loader, the
  glue to packets in \<^verbatim>\<open>lib/bpf.c\<close> and the rest of Open vSwitch; formatted error messages and logging; freeing of memory.
  The other directories of the repository hold P4 programs, control-plane scripts and unrelated prototypes.
\<close>

section \<open>A sample program\<close>

text \<open>A program with a spill to the stack, a branch on the packet size and an addition; the witnesses below
  load and run it.\<close>

definition sample :: "ebpf_inst list" where
  "sample = [inst (opcode_of (OP_ALU64_IMM MOV)) 0 0 0 7,
             inst (opcode_of (OP_STX SZ_DW)) 10 0 (- 8) 0,
             inst (opcode_of (OP_LDX SZ_DW)) 3 10 (- 8) 0,
             inst (opcode_of (OP_JMP_IMM JGT)) 2 0 1 14,
             inst (opcode_of (OP_ALU64_IMM ADD)) 0 0 0 1,
             inst (opcode_of OP_EXIT) 0 0 0 0]"

definition sample_code :: "u8 list" where
  "sample_code = concat (map bytes_of_inst sample)"

definition sample_vm :: ubpf_vm where
  "sample_vm = (ubpf_create 1)\<lparr>insts := Some sample, num_insts := 6, loaded_at := 5\<rparr>"

definition sample_ctx :: exec_ctx where
  "sample_ctx = \<lparr>mem = 0x1000, mem_len = 64, stack = 0x2000\<rparr>"

abbreviation no_maps :: map_table where "no_maps \<equiv> \<lambda>_. None"
abbreviation no_junk :: "u32 \<Rightarrow> u64" where "no_junk \<equiv> \<lambda>_. 0"

lemma sample_stages:
  "validate_instructions (ubpf_create 1) sample = Inr ()"
  "validate_cfg sample = Some Cfg_Accepted"
  "validate_accesses (ubpf_create 1) no_maps no_junk sample = Some (Inr ())"
  by code_simp+

lemma length_sample: "length sample = 6" "length sample_code = 48"
  by (simp_all add: sample_code_def sample_def)

lemma insts_of_sample_code: "insts_of_code sample_code = sample"
  by (simp add: sample_code_def insts_of_code_concat)

lemma sample_loaded: "ubpf_load no_maps no_junk 5 (ubpf_create 1) sample_code = Some (None, sample_vm)"
proof -
  have "insts (ubpf_create 1) = None" by (simp add: ubpf_create_def)
  then show ?thesis
    by (simp add: ubpf_load_def validate_def sample_stages length_sample insts_of_sample_code sample_vm_def)
qed

lemma sample_well_formed: "well_formed (ubpf_create 1) sample" "well_formed sample_vm sample"
proof -
  show wf: "well_formed (ubpf_create 1) sample"
    using sample_stages(1) by (simp add: validate_instructions_iff)
  show "well_formed sample_vm sample"
    using wf well_formed_cong [of "ubpf_create 1" sample_vm] by (simp add: sample_vm_def)
qed

lemma sample_passes: "passes (ubpf_create 1) no_maps no_junk sample acc_init"
  using validate_accesses_verdict [of "ubpf_create 1" sample no_maps no_junk] sample_stages length_sample by simp

lemma sample_result:
  "case ubpf_exec sample_vm sample_ctx (\<lambda>_. 0) (\<lambda>_. 0) of
     Some (Inr (v, h)) \<Rightarrow> v = 8 \<and> h 0x23f8 = 7 \<and> h 0x2400 = 0
   | _ \<Rightarrow> False"
  by code_simp

section \<open>Loading and running programs\<close>

text \<open>(C1) Every program that \<^verbatim>\<open>ubpf_load\<close> accepts runs to completion: whatever the memory, the context and
  the uninitialised registers hold, \<^verbatim>\<open>ubpf_exec\<close> returns after at most as many instructions as the
  program has slots, and the only undefined behaviour it can meet is a division or a shift by a bad
  register operand of an instruction that is in the program.\<close>

theorem loaded_program_terminates:
  assumes "vm_wf vm" and "ubpf_load maps nr now vm code = Some (None, vm')"
  shows "\<exists>res. exec_bounded (length code div 8) vm' c (insts_of_code code) (init_state c junk h) = Some res
    \<and> ubpf_exec vm' c junk h = Some res
    \<and> (\<forall>f. res = Inl f \<longrightarrow> residual_fault (insts_of_code code) f)"
  using loaded_runs [OF assms] .

theorem loaded_program_terminates_witness:
  "ubpf_load no_maps no_junk 5 (ubpf_create 1) sample_code = Some (None, sample_vm)
   \<and> (\<exists>res. exec_bounded 6 sample_vm sample_ctx sample (init_state sample_ctx (\<lambda>_. 0) (\<lambda>_. 0)) = Some res
        \<and> ubpf_exec sample_vm sample_ctx (\<lambda>_. 0) (\<lambda>_. 0) = Some res)"
  using loaded_program_terminates [OF vm_wf_create sample_loaded, of sample_ctx "\<lambda>_. 0" "\<lambda>_. 0"]
    sample_loaded by (auto simp: length_sample insts_of_sample_code)

text \<open>(C2) The interpreter keeps to its memory: a run of any program leaves every byte alone that is outside
  the memory region it was given, its own stack, the last eight and first seven bytes of the address
  space (where the sum in \<^verbatim>\<open>bounds_check\<close> wraps), and the bytes the called functions write.\<close>

theorem exec_memory_frame:
  assumes "ctx_ok c" "funcs_frame vm A" "ubpf_exec vm c junk h = Some (Inr (v, h'))"
    and "x \<notin> region c \<union> wrap_zone \<union> A"
  shows "h' x = h x"
proof (cases "insts vm")
  case None
  then show ?thesis using assms(3) by (simp add: ubpf_exec_def)
next
  case (Some "is")
  then have "exec_loop vm c is (init_state c junk h) = Some (Inr (v, h'))"
    using assms(3) by (simp add: ubpf_exec_def)
  then show ?thesis using exec_loop_frame [OF assms(1,2,4)] by (force simp: init_state_def)
qed

lemma sample_frame: "ctx_ok sample_ctx" "funcs_frame sample_vm {}"
  by (auto simp: ctx_ok_def sample_ctx_def funcs_frame_def sample_vm_def ubpf_create_def zero_proto_def)

theorem exec_memory_frame_witness:
  "\<exists>v h'. ubpf_exec sample_vm sample_ctx (\<lambda>_. 0) (\<lambda>_. 0) = Some (Inr (v, h')) \<and> h' 0x3000 = 0 \<and> h' 0x23f8 = 7"
proof -
  obtain v h' where run: "ubpf_exec sample_vm sample_ctx (\<lambda>_. 0) (\<lambda>_. 0) = Some (Inr (v, h'))" "h' 0x23f8 = 7"
    using sample_result by (auto split: option.splits sum.splits)
  have "(0x3000 :: u64) \<notin> region sample_ctx \<union> wrap_zone \<union> {}"
    by (simp add: region_def sample_ctx_def wrap_zone_def)
  then have "h' 0x3000 = 0" by (rule exec_memory_frame [OF sample_frame run(1)])
  with run show ?thesis by blast
qed

text \<open>(C3) The third verifier stage explores every path: on a program the first two stages accept it returns,
  and it accepts exactly when no abstract state reachable over either outcome of every branch fails a
  check.  When it does not accept, the reason is an error message, or undefined behaviour of the
  verifier itself of one of three kinds.\<close>

theorem validate_accesses_exhaustive:
  assumes "vm_wf vm" "length is < MAX_INSTS"
    and "validate_instructions vm is = Inr ()" "validate_cfg is = Some Cfg_Accepted"
  shows "\<exists>res. validate_accesses vm maps nr is = Some res
    \<and> (res = Inr () \<longleftrightarrow> passes vm maps nr is acc_init) \<and> (\<forall>e. res = Inl e \<longrightarrow> verifier_fault e)"
  using validate_accesses_verdict [OF assms] .

theorem validate_accesses_exhaustive_witness:
  "validate_accesses (ubpf_create 1) no_maps no_junk sample = Some (Inr ())
   \<and> passes (ubpf_create 1) no_maps no_junk sample acc_init"
  using validate_accesses_exhaustive [of "ubpf_create 1" sample no_maps no_junk] sample_stages length_sample
  by simp

text \<open>(C4) The verifier has seen every instruction a run reaches: for each state of a run of an accepted program
  there is an abstract state, reached by the third stage, at the same instruction.\<close>

theorem verifier_covers_runs:
  assumes "vm_wf vm" "validate vm maps nr is = Some Accepted"
    and "(init_state c junk h, st) \<in> (exec_rel vm c is)\<^sup>*"
  shows "\<exists>a. (acc_init, a) \<in> (acc_rel vm maps nr is)\<^sup>* \<and> unat (instno a) = unat (pc st)
    \<and> (\<exists>sts. acc_step vm maps nr is a = Inr sts)"
proof -
  have acc: "length is < MAX_INSTS" "well_formed vm is" "passes vm maps nr is acc_init"
    using assms(2) by (simp_all add: validate_Accepted [OF assms(1)] validate_instructions_iff)
  then obtain a where "(acc_init, a) \<in> (acc_rel vm maps nr is)\<^sup>*" "unat (instno a) = unat (pc st)"
    using accepted_covers [OF acc(2) _ acc(3) assms(3)] by auto
  with acc(3) show ?thesis by (auto simp: passes_def)
qed

theorem verifier_covers_runs_witness:
  "\<exists>a. (acc_init, a) \<in> (acc_rel (ubpf_create 1) no_maps no_junk sample)\<^sup>* \<and> unat (instno a) = 0"
proof -
  let ?i = "init_state sample_ctx (\<lambda>_. 0) (\<lambda>_. 0)"
  have "validate (ubpf_create 1) no_maps no_junk sample = Some Accepted"
    by (simp add: validate_def sample_stages length_sample)
  then obtain a where "(acc_init, a) \<in> (acc_rel (ubpf_create 1) no_maps no_junk sample)\<^sup>*"
    "unat (instno a) = unat (pc ?i)"
    using verifier_covers_runs [OF vm_wf_create _ rtrancl_refl, of 1 no_maps no_junk sample] by blast
  then show ?thesis by (auto simp: init_state_def)
qed

end
